(* ===== verification/Tinx_Prelude.thy ===== *)
theory Tinx_Prelude
  imports Main "HOL-Library.Word" "HOL-Library.Monad_Syntax"
begin

text \<open>
  The prelude of the Tinx kernel development.
  \<^item> The machine types of the sources: \<open>uint8_t\<close>, \<open>uint16_t\<close>, \<open>uint32_t\<close> and \<open>uint64_t\<close>
    as words of that width; \<open>size_t\<close>, \<open>uintptr_t\<close> and every pointer of the 32-bit
    kernel as \<open>u32\<close>, with NULL the word 0.
  \<^item> The flat physical memory \<open>mem\<close> of the kernel, a function from addresses to bytes,
    with the little-endian 32-bit accesses \<open>rd32\<close> and \<open>wr32\<close> that a \<open>uint32_t *\<close>
    dereference performs.
  \<^item> The generic lemmas on words, lists and memory that the components share.
  \<^item> The collections \<open>mem_simps\<close> (reads after writes) and \<open>frame_simps\<close> (what an
    operation leaves alone).
\<close>

unbundle bit_operations_syntax

type_synonym u8 = "8 word"
type_synonym u16 = "16 word"
type_synonym u32 = "32 word"
type_synonym u64 = "64 word"
type_synonym mem = "u32 \<Rightarrow> u8"

named_theorems mem_simps "reads of the flat memory after writes"
named_theorems frame_simps "parts of a state an operation leaves unchanged"

section \<open>Words\<close>

lemma unat_less_2p32 [simp]: "unat (w :: u32) < 4294967296"
  using unsigned_less [of w, where 'a = nat] by simp

lemma unat_of_nat_32 [simp]: "n < 4294967296 \<Longrightarrow> unat (of_nat n :: u32) = n"
  by (simp add: unat_of_nat)

lemma of_nat_32_eq_iff:
  "a < 4294967296 \<Longrightarrow> b < 4294967296 \<Longrightarrow> (of_nat a :: u32) = of_nat b \<longleftrightarrow> a = b"
  by (metis unat_of_nat_32)

lemma of_nat_32_less_iff:
  "a < 4294967296 \<Longrightarrow> b < 4294967296 \<Longrightarrow> (of_nat a :: u32) < of_nat b \<longleftrightarrow> a < b"
  by (simp add: word_less_nat_alt)

lemma of_nat_32_le_iff:
  "a < 4294967296 \<Longrightarrow> b < 4294967296 \<Longrightarrow> (of_nat a :: u32) \<le> of_nat b \<longleftrightarrow> a \<le> b"
  by (simp add: word_le_nat_alt)

lemma unat_add_no_wrap:
  "unat (a :: u32) + unat b < 4294967296 \<Longrightarrow> unat (a + b) = unat a + unat b"
  by (simp add: unat_word_ariths)

lemma unat_pow2_32: "k < 32 \<Longrightarrow> unat (2 ^ k :: u32) = 2 ^ k"
proof -
  assume "k < 32"
  then have "(2 :: nat) ^ k < 2 ^ 32" by (rule power_strict_increasing) simp
  then have "unat (of_nat (2 ^ k) :: u32) = 2 ^ k" by (intro unat_of_nat_32) simp
  then show ?thesis by simp
qed

lemma unat_sub_no_wrap: "b \<le> a \<Longrightarrow> unat (a - b) = unat a - unat (b :: u32)"
  by (rule unat_sub)

lemma option_eqI: "(\<And>t. x = Some t \<longleftrightarrow> y = Some t) \<Longrightarrow> x = y"
  by (cases x; cases y) auto

section \<open>Flat memory\<close>

definition rd32 :: "mem \<Rightarrow> u32 \<Rightarrow> u32" where
  "rd32 m a = ucast (m a) OR push_bit 8 (ucast (m (a + 1)))
     OR push_bit 16 (ucast (m (a + 2))) OR push_bit 24 (ucast (m (a + 3)))"

definition wr32 :: "mem \<Rightarrow> u32 \<Rightarrow> u32 \<Rightarrow> mem" where
  "wr32 m a v = m(a := ucast v, a + 1 := ucast (drop_bit 8 v),
     a + 2 := ucast (drop_bit 16 v), a + 3 := ucast (drop_bit 24 v))"

lemma bytes_join32:
  "(ucast (ucast v :: u8) :: u32) OR push_bit 8 (ucast (ucast (drop_bit 8 v) :: u8))
     OR push_bit 16 (ucast (ucast (drop_bit 16 v) :: u8))
     OR push_bit 24 (ucast (ucast (drop_bit 24 v) :: u8)) = v"
proof (rule bit_word_eqI)
  fix n
  assume "n < LENGTH(32)"
  then consider "n < 8" | "8 \<le> n" "n < 16" | "16 \<le> n" "n < 24" | "24 \<le> n" "n < 32"
    by force
  then show "bit ((ucast (ucast v :: u8) :: u32) OR push_bit 8 (ucast (ucast (drop_bit 8 v) :: u8))
     OR push_bit 16 (ucast (ucast (drop_bit 16 v) :: u8))
     OR push_bit 24 (ucast (ucast (drop_bit 24 v) :: u8))) n = bit v n"
    by cases (auto simp: bit_simps)
qed

lemma word_consec_distinct [simp]:
  "(a :: u32) + 1 \<noteq> a" "a \<noteq> a + 1" "a + 2 \<noteq> a" "a \<noteq> a + 2" "a + 3 \<noteq> a" "a \<noteq> a + 3"
  "a + 1 \<noteq> a + 2" "a + 2 \<noteq> a + 1" "a + 1 \<noteq> a + 3" "a + 3 \<noteq> a + 1"
  "a + 2 \<noteq> a + 3" "a + 3 \<noteq> a + 2"
  by simp_all

lemma rd32_wr32_same [simp, mem_simps]: "rd32 (wr32 m a v) a = v"
  using bytes_join32 [of v] by (simp add: rd32_def wr32_def)

text \<open>Two four-byte accesses are apart when neither starts within four bytes above the other.\<close>

lemma apart_offsets:
  assumes "4 \<le> unat (b - a :: u32)" and "4 \<le> unat (a - b)" and "i < 4" and "j < 4"
  shows "b + of_nat i \<noteq> a + of_nat j"
proof
  assume eq: "b + of_nat i = a + of_nat j"
  show False
  proof (cases "i \<le> j")
    case True
    from eq have "b - a = of_nat j - of_nat i" by (simp add: algebra_simps)
    also have "\<dots> = of_nat (j - i)" using True by (simp add: of_nat_diff)
    finally have "unat (b - a) = j - i" using assms(4) by simp
    with assms show False by simp
  next
    case False
    from eq have "a - b = of_nat i - of_nat j" by (simp add: algebra_simps)
    also have "\<dots> = of_nat (i - j)" using False by (simp add: of_nat_diff)
    finally have "unat (a - b) = i - j" using assms(3) by simp
    with assms show False by simp
  qed
qed

lemma wr32_other:
  assumes "4 \<le> unat (b - a :: u32)"
  shows "wr32 m a v b = m b"
proof -
  have "b \<noteq> a + of_nat j" if "j < 4" for j
  proof
    assume "b = a + of_nat j"
    then have "unat (b - a) = j" using that by simp
    with assms that show False by simp
  qed
  from this [of 0] this [of 1] this [of 2] this [of 3] show ?thesis
    by (simp add: wr32_def)
qed

lemma rd32_wr32_apart [mem_simps]:
  assumes "4 \<le> unat (b - a :: u32)" and "4 \<le> unat (a - b)"
  shows "rd32 (wr32 m a v) b = rd32 m b"
proof -
  have ne: "b + of_nat i \<noteq> a + of_nat j" if "i < 4" "j < 4" for i j
    using apart_offsets [OF assms that] .
  have b: "wr32 m a v (b + of_nat i) = m (b + of_nat i)" if "i < 4" for i
    using ne [OF that, of 0] ne [OF that, of 1] ne [OF that, of 2] ne [OF that, of 3]
    by (simp add: wr32_def)
  from b [of 0] b [of 1] b [of 2] b [of 3] show ?thesis
    by (simp add: rd32_def)
qed

lemma rd32_cong:
  "m a = m' a \<Longrightarrow> m (a + 1) = m' (a + 1) \<Longrightarrow> m (a + 2) = m' (a + 2) \<Longrightarrow> m (a + 3) = m' (a + 3)
    \<Longrightarrow> rd32 m a = rd32 m' a"
  by (simp add: rd32_def)

section \<open>Alignment and byte access\<close>

lemma unat_minus_one_32_max: "unat (- 1 :: u32) = 4294967295"
  by (simp add: unsigned_minus_1_eq_mask mask_eq_exp_minus_1)

lemma offset_eq_iff:
  assumes "n < 4294967296"
  shows "(a :: u32) = d + of_nat n \<longleftrightarrow> unat (a - d) = n"
proof
  assume "unat (a - d) = n"
  then have "of_nat n = a - d" by (auto simp: of_nat_unat)
  then show "a = d + of_nat n" by simp
qed (use assms in simp)

lemma and3_eq_mod: "unat (a AND 3 :: u32) = unat a mod 4"
proof -
  have "a AND 3 = take_bit 2 a" by (simp add: take_bit_eq_mask mask_eq_exp_minus_1)
  then have "unat (a AND 3) = take_bit 2 (unat a)" by (simp only: unsigned_take_bit_eq)
  then show ?thesis by (simp add: take_bit_eq_mod)
qed

lemma aligned4_iff: "(a AND 3 :: u32) = 0 \<longleftrightarrow> unat a mod 4 = 0"
  by (metis and3_eq_mod unat_eq_zero)

lemma aligned4_or: "((a OR b) AND 3 :: u32) = 0 \<longleftrightarrow> a AND 3 = 0 \<and> b AND 3 = 0"
  by (metis (no_types, lifting) bit.conj_disj_distrib2 bit.disj_zero_right or_eq_0_iff)

lemma aligned4_dvd: "(a AND 3 :: u32) = 0 \<longleftrightarrow> 4 dvd unat a"
  by (simp add: aligned4_iff mod_eq_0_iff_dvd)

lemma aligned4_apart:
  assumes "(a AND 3 :: u32) = 0" "b AND 3 = 0" "a \<noteq> b"
  shows "4 \<le> unat (a - b)"
proof -
  have "4 dvd unat (a - b)"
    using assms(1,2) unfolding aligned4_dvd unat_sub_if'
    by (auto intro!: dvd_diff_nat dvd_add)
  moreover have "unat (a - b) \<noteq> 0" using assms(3) by (simp add: unat_eq_zero)
  ultimately show ?thesis by (auto dest: dvd_imp_le)
qed

lemma aligned4_add: "(a AND 3 :: u32) = 0 \<Longrightarrow> (a + 4) AND 3 = 0"
  unfolding aligned4_dvd unat_word_ariths
  by (rule dvd_mod) auto

lemma byte_of_word:
  fixes a b c d :: u8
  defines "w \<equiv> (ucast a :: u32) OR push_bit 8 (ucast b) OR push_bit 16 (ucast c) OR push_bit 24 (ucast d)"
  shows "ucast w = a" "ucast (drop_bit 8 w) = b" "ucast (drop_bit 16 w) = c" "ucast (drop_bit 24 w) = d"
  unfolding w_def by (rule bit_word_eqI; auto simp: bit_simps dest: bit_imp_le_length)+

lemma wr32_rd32:
  "wr32 m d (rd32 m' s) = m(d := m' s, d + 1 := m' (s + 1), d + 2 := m' (s + 2), d + 3 := m' (s + 3))"
  unfolding wr32_def rd32_def byte_of_word ..

lemma aligned4_add_mult: "(a AND 3 :: u32) = 0 \<Longrightarrow> (a + of_nat (4 * k)) AND 3 = 0"
proof (induction k)
  case (Suc k)
  then show ?case using aligned4_add [of "a + of_nat (4 * k)"] by (simp add: algebra_simps)
qed simp

lemma add_4_Suc_left: "4 + n = Suc (Suc (Suc (Suc n)))"
  by simp

lemma four_words_tail: "4 * unat (drop_bit 2 n) + unat (n AND 3) = unat (n :: u32)"
  by (simp add: and3_eq_mod unsigned_drop_bit_eq drop_bit_eq_div unat_div mult.commute)

lemma unat_minus_one_32: "a \<noteq> 0 \<Longrightarrow> unat (a - 1 :: u32) = unat a - 1"
  by (metis unat_minus_one)

end
