(* ===== verification/Lib_String.thy ===== *)
theory Lib_String
  imports Tinx_Prelude "HOL-Library.List_Lexorder"
begin

text \<open>
  The memory and string routines of \<^verbatim>\<open>src/lib_string.c\<close>, on the flat memory of the prelude.
  Every routine takes the memory and returns what the C function returns together with
  the new memory when it writes. A loop whose bound is an argument is recursion on that
  bound; a loop that runs until it meets a NUL byte is a \<^theory_text>\<open>partial_function (option)\<close>,
  so that running forever is the value \<open>None\<close>. The \<^verbatim>\<open>rep movsb\<close> and \<^verbatim>\<open>rep stosb\<close>
  instructions are the ascending byte loops they stand for (direction flag clear).

  The lemmas show that the word-at-a-time fast paths are the byte loops they replace,
  and what the byte loops compute in terms of byte strings (\<open>cstr\<close>).
\<close>

section \<open>Definitions\<close>

subsection \<open>memcpy and memmove\<close>

fun copy_bytes :: "mem \<Rightarrow> u32 \<Rightarrow> u32 \<Rightarrow> nat \<Rightarrow> mem" where
  "copy_bytes m d s 0 = m"
| "copy_bytes m d s (Suc n) = copy_bytes (m(d := m s)) (d + 1) (s + 1) n"

fun copy_words :: "mem \<Rightarrow> u32 \<Rightarrow> u32 \<Rightarrow> nat \<Rightarrow> mem \<times> u32 \<times> u32" where
  "copy_words m d s 0 = (m, d, s)"
| "copy_words m d s (Suc k) = copy_words (wr32 m d (rd32 m s)) (d + 4) (s + 4) k"

fun copy_words4 :: "mem \<Rightarrow> u32 \<Rightarrow> u32 \<Rightarrow> nat \<Rightarrow> mem \<times> u32 \<times> u32 \<times> nat" where
  "copy_words4 m d s nwords =
     (if 4 \<le> nwords then
        let m1 = wr32 m d (rd32 m s);
            m2 = wr32 m1 (d + 4) (rd32 m1 (s + 4));
            m3 = wr32 m2 (d + 8) (rd32 m2 (s + 8));
            m4 = wr32 m3 (d + 12) (rd32 m3 (s + 12))
        in copy_words4 m4 (d + 16) (s + 16) (nwords - 4)
      else (m, d, s, nwords))"

declare copy_words4.simps [simp del]

definition lib_memcpy :: "mem \<Rightarrow> u32 \<Rightarrow> u32 \<Rightarrow> u32 \<Rightarrow> u32 \<times> mem" where
  "lib_memcpy m dest src n =
     (if dest = 0 \<or> src = 0 \<or> n = 0 then (dest, m)
      else if (dest OR src) AND 3 = 0 \<and> 16 \<le> n then
        let nwords = drop_bit 2 n;
            tail = n AND 3;
            (m1, dw_d, dw_s, k) = copy_words4 m dest src (unat nwords);
            (m2, d, s) = copy_words m1 dw_d dw_s k
        in (dest, copy_bytes m2 d s (unat tail))
      else (dest, copy_bytes m dest src (unat n)))"

fun copy_bytes_back :: "mem \<Rightarrow> u32 \<Rightarrow> u32 \<Rightarrow> nat \<Rightarrow> mem" where
  "copy_bytes_back m d s 0 = m"
| "copy_bytes_back m d s (Suc n) = copy_bytes_back (m(d - 1 := m (s - 1))) (d - 1) (s - 1) n"

definition lib_memmove :: "mem \<Rightarrow> u32 \<Rightarrow> u32 \<Rightarrow> u32 \<Rightarrow> u32 \<times> mem" where
  "lib_memmove m dest src n =
     (if dest = 0 \<or> src = 0 \<or> n = 0 then (dest, m)
      else if dest = src then (dest, m)
      else if dest < src then lib_memcpy m dest src n
      else (dest, copy_bytes_back m (dest + n) (src + n) (unat n)))"

subsection \<open>memset and memcmp\<close>

fun set_bytes :: "mem \<Rightarrow> u32 \<Rightarrow> u8 \<Rightarrow> nat \<Rightarrow> mem" where
  "set_bytes m p c 0 = m"
| "set_bytes m p c (Suc n) = set_bytes (m(p := c)) (p + 1) c n"

fun set_words :: "mem \<Rightarrow> u32 \<Rightarrow> u32 \<Rightarrow> nat \<Rightarrow> mem \<times> u32" where
  "set_words m p w 0 = (m, p)"
| "set_words m p w (Suc k) = set_words (wr32 m p w) (p + 4) w k"

fun set_words4 :: "mem \<Rightarrow> u32 \<Rightarrow> u32 \<Rightarrow> nat \<Rightarrow> mem \<times> u32 \<times> nat" where
  "set_words4 m p w nwords =
     (if 4 \<le> nwords then
        let m1 = wr32 m p w; m2 = wr32 m1 (p + 4) w;
            m3 = wr32 m2 (p + 8) w; m4 = wr32 m3 (p + 12) w
        in set_words4 m4 (p + 16) w (nwords - 4)
      else (m, p, nwords))"

declare set_words4.simps [simp del]

definition rep4 :: "u8 \<Rightarrow> u32" where
  "rep4 c = ucast c OR push_bit 8 (ucast c) OR push_bit 16 (ucast c) OR push_bit 24 (ucast c)"

definition lib_memset :: "mem \<Rightarrow> u32 \<Rightarrow> u32 \<Rightarrow> u32 \<Rightarrow> u32 \<times> mem" where
  "lib_memset m s c n =
     (if s = 0 \<or> n = 0 then (s, m)
      else let val = (ucast c :: u8) in
        if s AND 3 = 0 \<and> 16 \<le> n then
          let word = rep4 val;
              nwords = drop_bit 2 n;
              tail = n AND 3;
              (m1, dw, k) = set_words4 m s word (unat nwords);
              (m2, p) = set_words m1 dw word k
          in (s, set_bytes m2 p val (unat tail))
        else (s, set_bytes m s val (unat n)))"

fun cmp_bytes :: "mem \<Rightarrow> u32 \<Rightarrow> u32 \<Rightarrow> nat \<Rightarrow> int" where
  "cmp_bytes m a b 0 = 0"
| "cmp_bytes m a b (Suc n) =
     (if m a \<noteq> m b then uint (m a) - uint (m b) else cmp_bytes m (a + 1) (b + 1) n)"

fun find_diff :: "mem \<Rightarrow> u32 \<Rightarrow> u32 \<Rightarrow> nat \<Rightarrow> int option" where
  "find_diff m a b 0 = None"
| "find_diff m a b (Suc n) =
     (if m a \<noteq> m b then Some (uint (m a) - uint (m b)) else find_diff m (a + 1) (b + 1) n)"

fun cmp_words :: "mem \<Rightarrow> u32 \<Rightarrow> u32 \<Rightarrow> nat \<Rightarrow> int + (u32 \<times> u32)" where
  "cmp_words m a b 0 = Inr (a, b)"
| "cmp_words m a b (Suc k) =
     (if rd32 m a \<noteq> rd32 m b then
        (case find_diff m a b 4 of Some r \<Rightarrow> Inl r | None \<Rightarrow> cmp_words m (a + 4) (b + 4) k)
      else cmp_words m (a + 4) (b + 4) k)"

definition lib_memcmp :: "mem \<Rightarrow> u32 \<Rightarrow> u32 \<Rightarrow> u32 \<Rightarrow> int" where
  "lib_memcmp m s1 s2 n =
     (if s1 = 0 \<or> s2 = 0 then (if s1 = s2 then 0 else if s1 \<noteq> 0 then 1 else -1)
      else if (s1 OR s2) AND 3 = 0 \<and> 16 \<le> n then
        (case cmp_words m s1 s2 (unat (drop_bit 2 n)) of
           Inl r \<Rightarrow> r
         | Inr (a, b) \<Rightarrow> cmp_bytes m a b (unat (n AND 3)))
      else cmp_bytes m s1 s2 (unat n))"

subsection \<open>String routines\<close>

text \<open>The C string at an address: its bytes up to the terminating NUL.\<close>

primrec cstr :: "mem \<Rightarrow> u32 \<Rightarrow> u8 list \<Rightarrow> bool" where
  "cstr m p [] = (m p = 0)"
| "cstr m p (x # xs) = (m p = x \<and> x \<noteq> 0 \<and> cstr m (p + 1) xs)"

partial_function (option) strlen_align :: "mem \<Rightarrow> u32 \<Rightarrow> u32 \<Rightarrow> (u32 \<times> u32) option" where
  "strlen_align m p len =
     (if p AND 3 \<noteq> 0 \<and> m p \<noteq> 0 then strlen_align m (p + 1) (len + 1) else Some (p, len))"

definition zero_byte_test :: "u32 \<Rightarrow> bool" where
  "zero_byte_test v = ((v - 0x01010101) AND NOT v AND 0x80808080 \<noteq> 0)"

definition find_nul4 :: "mem \<Rightarrow> u32 \<Rightarrow> nat option" where
  "find_nul4 m p = find (\<lambda>i. m (p + of_nat i) = 0) [0, 1, 2, 3]"

partial_function (option) strlen_words :: "mem \<Rightarrow> u32 \<Rightarrow> u32 \<Rightarrow> u32 option" where
  "strlen_words m w len =
     (case (if zero_byte_test (rd32 m w) then find_nul4 m w else None) of
        Some i \<Rightarrow> Some (len + of_nat i)
      | None \<Rightarrow> strlen_words m (w + 4) (len + 4))"

definition lib_strlen :: "mem \<Rightarrow> u32 \<Rightarrow> u32 option" where
  "lib_strlen m s =
     (if s = 0 then Some 0
      else do {
        (p, len) \<leftarrow> strlen_align m s 0;
        if m p = 0 then Some len else strlen_words m p len
      })"

partial_function (option) strcmp_loop :: "mem \<Rightarrow> u32 \<Rightarrow> u32 \<Rightarrow> int option" where
  "strcmp_loop m s1 s2 =
     (if m s1 \<noteq> 0 \<and> m s1 = m s2 then strcmp_loop m (s1 + 1) (s2 + 1)
      else Some (uint (m s1) - uint (m s2)))"

definition lib_strcmp :: "mem \<Rightarrow> u32 \<Rightarrow> u32 \<Rightarrow> int option" where
  "lib_strcmp m s1 s2 =
     (if s1 = 0 \<or> s2 = 0 then Some (if s1 = s2 then 0 else if s1 \<noteq> 0 then 1 else -1)
      else strcmp_loop m s1 s2)"

fun strncmp_loop :: "mem \<Rightarrow> u32 \<Rightarrow> u32 \<Rightarrow> nat \<Rightarrow> int" where
  "strncmp_loop m s1 s2 0 = 0"
| "strncmp_loop m s1 s2 (Suc n) =
     (if m s1 \<noteq> 0 \<and> m s1 = m s2 then strncmp_loop m (s1 + 1) (s2 + 1) n
      else uint (m s1) - uint (m s2))"

definition lib_strncmp :: "mem \<Rightarrow> u32 \<Rightarrow> u32 \<Rightarrow> u32 \<Rightarrow> int" where
  "lib_strncmp m s1 s2 n =
     (if s1 = 0 \<or> s2 = 0 then (if s1 = s2 then 0 else if s1 \<noteq> 0 then 1 else -1)
      else strncmp_loop m s1 s2 (unat n))"

partial_function (option) strcpy_loop :: "mem \<Rightarrow> u32 \<Rightarrow> u32 \<Rightarrow> mem option" where
  "strcpy_loop m d src =
     (let m' = m(d := m src) in
      if m src \<noteq> 0 then strcpy_loop m' (d + 1) (src + 1) else Some m')"

definition lib_strcpy :: "mem \<Rightarrow> u32 \<Rightarrow> u32 \<Rightarrow> (u32 \<times> mem) option" where
  "lib_strcpy m dest src =
     (if dest = 0 \<or> src = 0 then Some (dest, m)
      else map_option (\<lambda>m'. (dest, m')) (strcpy_loop m dest src))"

text \<open>The loops of \<open>lib_strncpy\<close> run while \<open>i < n - 1\<close>; the last argument is \<open>n - 1 - i\<close>.\<close>

fun strncpy_loop :: "mem \<Rightarrow> u32 \<Rightarrow> u32 \<Rightarrow> u32 \<Rightarrow> nat \<Rightarrow> mem \<times> u32" where
  "strncpy_loop m dest src i 0 = (m, i)"
| "strncpy_loop m dest src i (Suc k) =
     (if src \<noteq> 0 \<and> m (src + i) \<noteq> 0
      then strncpy_loop (m(dest + i := m (src + i))) dest src (i + 1) k
      else (m, i))"

definition lib_strncpy :: "mem \<Rightarrow> u32 \<Rightarrow> u32 \<Rightarrow> u32 \<Rightarrow> u32 \<times> mem" where
  "lib_strncpy m dest src n =
     (if dest = 0 \<or> n = 0 then (dest, m)
      else let (m1, i) = strncpy_loop m dest src 0 (unat (n - 1));
               (m2, i) = (if src \<noteq> 0 then strncpy_loop m1 dest src i (unat (n - 1 - i)) else (m1, i))
           in (dest, m2(dest + (if i < n then i else n - 1) := 0)))"

definition lib_strcat :: "mem \<Rightarrow> u32 \<Rightarrow> u32 \<Rightarrow> (u32 \<times> mem) option" where
  "lib_strcat m dest src =
     (if dest = 0 \<or> src = 0 then Some (dest, m)
      else do {
        dlen \<leftarrow> lib_strlen m dest;
        (_, m') \<leftarrow> lib_strcpy m (dest + dlen) src;
        Some (dest, m')
      })"

partial_function (option) strchr_loop :: "mem \<Rightarrow> u32 \<Rightarrow> u8 \<Rightarrow> (u32 + u32) option" where
  "strchr_loop m s ch =
     (if m s \<noteq> 0 then (if m s = ch then Some (Inl s) else strchr_loop m (s + 1) ch)
      else Some (Inr s))"

definition lib_strchr :: "mem \<Rightarrow> u32 \<Rightarrow> u32 \<Rightarrow> u32 option" where
  "lib_strchr m s c =
     (if s = 0 then Some 0
      else do {
        r \<leftarrow> strchr_loop m s (ucast c);
        Some (case r of Inl p \<Rightarrow> p | Inr e \<Rightarrow> if c = 0 then e else 0)
      })"

partial_function (option) strrchr_loop :: "mem \<Rightarrow> u32 \<Rightarrow> u8 \<Rightarrow> u32 \<Rightarrow> (u32 \<times> u32) option" where
  "strrchr_loop m s ch lst =
     (if m s \<noteq> 0 then strrchr_loop m (s + 1) ch (if m s = ch then s else lst)
      else Some (s, lst))"

definition lib_strrchr :: "mem \<Rightarrow> u32 \<Rightarrow> u32 \<Rightarrow> u32 option" where
  "lib_strrchr m s c =
     (if s = 0 then Some 0
      else do {
        (e, lst) \<leftarrow> strrchr_loop m s (ucast c) 0;
        Some (if (ucast c :: u8) = 0 then e else lst)
      })"

text \<open>
  \<open>lib_atoi\<close> works on \<open>int\<close>; \<open>val\<close> is kept at 32 bits and read back as two's
  complement. Its overflow is undefined in C, and the lemmas below stay in range.
\<close>

partial_function (option) atoi_skip :: "mem \<Rightarrow> u32 \<Rightarrow> u32 option" where
  "atoi_skip m s =
     (if m s = 32 \<or> m s = 9 \<or> m s = 10 then atoi_skip m (s + 1) else Some s)"

partial_function (option) atoi_digits :: "mem \<Rightarrow> u32 \<Rightarrow> u32 \<Rightarrow> u32 option" where
  "atoi_digits m s val =
     (if 48 \<le> m s \<and> m s \<le> 57 then atoi_digits m (s + 1) (val * 10 + (ucast (m s) - 48))
      else Some val)"

definition lib_atoi :: "mem \<Rightarrow> u32 \<Rightarrow> u32 option" where
  "lib_atoi m s =
     (if s = 0 then Some 0
      else do {
        s1 \<leftarrow> atoi_skip m s;
        let (sign, s2) = (if m s1 = 45 then (-1, s1 + 1)
                          else if m s1 = 43 then (1, s1 + 1) else (1, s1));
        val \<leftarrow> atoi_digits m s2 0;
        Some (sign * val)
      })"

text \<open>The number a string of ASCII digits denotes.\<close>

definition dec_value :: "u8 list \<Rightarrow> nat" where
  "dec_value ds = foldl (\<lambda>v d. v * 10 + (unat d - 48)) 0 ds"

section \<open>memcpy and memmove\<close>

lemma copy_bytes_add: "copy_bytes m d s (i + j) = copy_bytes (copy_bytes m d s i) (d + of_nat i) (s + of_nat i) j"
  by (induction i arbitrary: m d s) (simp_all add: algebra_simps)

lemma copy_bytes_4:
  "copy_bytes m d s 4 =
    (let m1 = m(d := m s); m2 = m1(d + 1 := m1 (s + 1)); m3 = m2(d + 2 := m2 (s + 2))
     in m3(d + 3 := m3 (s + 3)))"
proof -
  have "copy_bytes m d s 4 = copy_bytes m d s (Suc (Suc (Suc (Suc 0))))"
    by (rule arg_cong [where f = "copy_bytes m d s"]) simp
  also have "\<dots> = (let m1 = m(d := m s); m2 = m1(d + 1 := m1 (s + 1)); m3 = m2(d + 2 := m2 (s + 2))
     in m3(d + 3 := m3 (s + 3)))"
    unfolding copy_bytes.simps Let_def add.assoc by simp
  finally show ?thesis .
qed

lemma copy_word_bytes:
  assumes "(d AND 3 :: u32) = 0" "s AND 3 = 0"
  shows "wr32 m d (rd32 m s) = copy_bytes m d s 4"
proof (cases "d = s")
  case True
  show ?thesis unfolding True by (simp add: wr32_rd32 copy_bytes_4 Let_def)
next
  case False
  have ne: "s + of_nat i \<noteq> d + of_nat j" if "i < 4" "j < 4" for i j
    using apart_offsets [of s d i j] aligned4_apart [OF assms False]
      aligned4_apart [of s d] assms False that by auto
  from ne [of 1 0] ne [of 2 0] ne [of 2 1] ne [of 3 0] ne [of 3 1] ne [of 3 2]
  show ?thesis by (simp add: wr32_rd32 copy_bytes_4 Let_def)
qed

lemma copy_words_eq:
  "(d AND 3 :: u32) = 0 \<Longrightarrow> s AND 3 = 0 \<Longrightarrow>
   copy_words m d s k = (copy_bytes m d s (4 * k), d + of_nat (4 * k), s + of_nat (4 * k))"
proof (induction k arbitrary: m d s)
  case (Suc k)
  have "copy_bytes m d s (4 * Suc k) = copy_bytes (copy_bytes m d s 4) (d + 4) (s + 4) (4 * k)"
    using copy_bytes_add [of m d s 4 "4 * k"] by simp
  then show ?case using Suc.prems by (simp add: Suc.IH aligned4_add copy_word_bytes add_ac)
qed simp

lemma copy_words4_eq:
  "(d AND 3 :: u32) = 0 \<Longrightarrow> s AND 3 = 0 \<Longrightarrow>
   (case copy_words4 m d s n of (m', d', s', k) \<Rightarrow> copy_words m' d' s' k) = copy_words m d s n"
proof (induction m d s n rule: copy_words4.induct)
  case (1 m d s n)
  show ?case
  proof (cases "4 \<le> n")
    case True
    then obtain j where j: "n = Suc (Suc (Suc (Suc j)))"
      by (metis add_4_Suc_left le_iff_add)
    have al: "(d + 16) AND 3 = 0" "(s + 16) AND 3 = 0"
      using aligned4_add_mult [of d 4] aligned4_add_mult [of s 4] "1.prems" by simp_all
    show ?thesis
      using "1.IH" [OF True refl refl refl refl al] True
      by (subst copy_words4.simps) (simp add: Let_def j add.assoc)
  qed (simp add: copy_words4.simps [of m d s n])
qed

lemma memcpy_eq_copy_bytes:
  assumes "dest \<noteq> 0" "src \<noteq> 0"
  shows "lib_memcpy m dest src n = (dest, copy_bytes m dest src (unat n))"
proof (cases "(dest OR src) AND 3 = 0 \<and> 16 \<le> n")
  case True
  then have al: "dest AND 3 = 0" "src AND 3 = 0" by (simp_all add: aligned4_or)
  obtain m1 d1 s1 k where w4: "copy_words4 m dest src (unat (drop_bit 2 n)) = (m1, d1, s1, k)"
    by (metis prod_cases4)
  have w: "copy_words m1 d1 s1 k = (copy_bytes m dest src (4 * unat (drop_bit 2 n)),
      dest + of_nat (4 * unat (drop_bit 2 n)), src + of_nat (4 * unat (drop_bit 2 n)))"
    using copy_words4_eq [OF al, of m "unat (drop_bit 2 n)"] copy_words_eq [OF al] w4 by simp
  show ?thesis
    using True assms copy_bytes_add [of m dest src "4 * unat (drop_bit 2 n)" "unat (n AND 3)"]
    unfolding four_words_tail by (auto simp: lib_memcpy_def w4 w)
qed (use assms in \<open>auto simp: lib_memcpy_def\<close>)

lemma copy_bytes_at:
  assumes "n \<le> 4294967296" "d = s \<or> n \<le> unat (d - s)"
  shows "copy_bytes m d s n a = (if unat (a - d) < n then m (s + (a - d)) else m a)"
  using assms
proof (induction n arbitrary: m d s)
  case (Suc n)
  have IH: "copy_bytes m d s (Suc n) a =
      (if unat (a - d - 1) < n then (m(d := m s)) (s + (a - d)) else (m(d := m s)) a)"
  proof -
    have e: "a - (d + 1) = a - d - 1" "s + 1 + (a - d - 1) = s + (a - d)" by simp_all
    from Suc.prems have "d = s \<or> n \<le> unat (d - s)" by auto
    then show ?thesis
      using Suc.IH [of "d + 1" "s + 1" "m(d := m s)"] Suc.prems(1) unfolding e by (simp del: fun_upd_apply)
  qed
  show ?case
  proof (cases "a = d")
    case True
    then show ?thesis using IH Suc.prems(1) by (simp add: unat_minus_one_32_max)
  next
    case False
    then have u: "unat (a - d - 1) = unat (a - d) - 1" "unat (a - d) \<noteq> 0"
      by (simp_all add: unat_minus_one_32 unat_eq_zero)
    have ne: "s + (a - d) \<noteq> d" if "unat (a - d) < Suc n"
    proof
      assume "s + (a - d) = d"
      then have "a - d = d - s" by (simp add: algebra_simps)
      with Suc.prems(2) that False show False by auto
    qed
    show ?thesis using IH u False ne by auto
  qed
qed simp

lemma copy_bytes_back_at:
  assumes "n \<le> 4294967296" "d = s \<or> n \<le> unat (s - d)"
  shows "copy_bytes_back m (d + of_nat n) (s + of_nat n) n a =
    (if unat (a - d) < n then m (s + (a - d)) else m a)"
  using assms
proof (induction n arbitrary: m)
  case (Suc n)
  define m1 where "m1 = m(d + of_nat n := m (s + of_nat n))"
  have IH: "copy_bytes_back m (d + of_nat (Suc n)) (s + of_nat (Suc n)) (Suc n) a =
      (if unat (a - d) < n then m1 (s + (a - d)) else m1 a)"
  proof -
    have e: "d + of_nat (Suc n) - 1 = d + of_nat n" "s + of_nat (Suc n) - 1 = s + of_nat n" by simp_all
    from Suc.prems have "d = s \<or> n \<le> unat (s - d)" by auto
    then show ?thesis
      using Suc.IH [of m1] Suc.prems(1) unfolding copy_bytes_back.simps e by (simp add: m1_def del: fun_upd_apply)
  qed
  have here: "a = d + of_nat n \<longleftrightarrow> unat (a - d) = n"
    using Suc.prems(1) by (simp add: offset_eq_iff)
  have ne: "s + (a - d) \<noteq> d + of_nat n \<or> d = s" if lt: "unat (a - d) < n"
  proof (rule ccontr)
    assume "\<not> ?thesis"
    then have eq: "s + (a - d) = d + of_nat n" and "d \<noteq> s" by auto
    have "s - d = of_nat n - of_nat (unat (a - d))" using eq by (simp add: algebra_simps)
    also have "\<dots> = of_nat (n - unat (a - d))" using lt by (simp add: of_nat_diff)
    finally have "unat (s - d) = n - unat (a - d)" using Suc.prems(1) by simp
    with Suc.prems(2) \<open>d \<noteq> s\<close> show False by simp
  qed
  show ?case
    using IH here ne by (auto simp: m1_def)
qed simp

lemma memmove_eq:
  assumes "dest \<noteq> 0" "src \<noteq> 0" "unat dest + unat n \<le> 4294967296" "unat src + unat n \<le> 4294967296"
  shows "lib_memmove m dest src n =
    (dest, \<lambda>a. if unat (a - dest) < unat n then m (src + (a - dest)) else m a)"
proof (cases "n = 0 \<or> dest = src")
  case False
  have n: "unat n \<le> 4294967296" using unat_less_2p32 [of n] by linarith
  show ?thesis
  proof (cases "dest < src")
    case True
    then have "unat n \<le> unat (dest - src)"
      using assms(3,4) by (simp add: unat_sub_if' word_less_nat_alt)
    then show ?thesis
      using True False assms copy_bytes_at [OF n, of dest src m]
      by (simp add: lib_memmove_def memcpy_eq_copy_bytes fun_eq_iff)
  next
    case nless: False
    then have "unat n \<le> unat (src - dest)"
      using assms(3,4) False by (auto simp: unat_sub_if' word_less_nat_alt word_unat_eq_iff)
    then show ?thesis
      using nless False assms copy_bytes_back_at [OF n, of dest src m]
      by (simp add: lib_memmove_def fun_eq_iff)
  qed
qed (auto simp: lib_memmove_def fun_eq_iff)

section \<open>memset and memcmp\<close>

lemma set_bytes_at:
  "n \<le> 4294967296 \<Longrightarrow> set_bytes m p c n a = (if unat (a - p) < n then c else m a)"
proof (induction n arbitrary: m p)
  case (Suc n)
  have e: "a - (p + 1) = a - p - 1" by simp
  have IH: "set_bytes m p c (Suc n) a = (if unat (a - p - 1) < n then c else (m(p := c)) a)"
    using Suc.IH [of "m(p := c)" "p + 1"] Suc.prems unfolding e by (simp del: fun_upd_apply)
  show ?case
  proof (cases "a = p")
    case False
    then have "unat (a - p - 1) = unat (a - p) - 1" "unat (a - p) \<noteq> 0"
      by (simp_all add: unat_minus_one_32 unat_eq_zero)
    then show ?thesis using IH False by auto
  qed (use IH Suc.prems in simp)
qed simp

lemma set_bytes_add: "set_bytes m p c (i + j) = set_bytes (set_bytes m p c i) (p + of_nat i) c j"
  by (induction i arbitrary: m p) (simp_all add: algebra_simps)

lemma set_word_bytes: "wr32 m p (rep4 c) = set_bytes m p c 4"
proof -
  have "wr32 m p (rep4 c) = m(p := c, p + 1 := c, p + 2 := c, p + 3 := c)"
    unfolding wr32_def rep4_def byte_of_word ..
  also have "\<dots> = set_bytes m p c (Suc (Suc (Suc (Suc 0))))"
    unfolding set_bytes.simps add.assoc by simp
  finally show ?thesis by (simp add: eval_nat_numeral)
qed

lemma set_words_eq: "set_words m p (rep4 c) k = (set_bytes m p c (4 * k), p + of_nat (4 * k))"
proof (induction k arbitrary: m p)
  case (Suc k)
  have "set_bytes m p c (4 * Suc k) = set_bytes (set_bytes m p c 4) (p + 4) c (4 * k)"
    using set_bytes_add [of m p c 4 "4 * k"] by simp
  then show ?case by (simp add: Suc.IH set_word_bytes add_ac)
qed simp

lemma set_words4_eq:
  "(case set_words4 m p w n of (m', p', k) \<Rightarrow> set_words m' p' w k) = set_words m p w n"
proof (induction m p w n rule: set_words4.induct)
  case (1 m p w n)
  show ?case
  proof (cases "4 \<le> n")
    case True
    then obtain j where j: "n = Suc (Suc (Suc (Suc j)))"
      by (metis add_4_Suc_left le_iff_add)
    show ?thesis
      using "1.IH" [OF True refl refl refl refl] True
      by (subst set_words4.simps) (simp add: Let_def j add.assoc)
  qed (simp add: set_words4.simps [of m p w n])
qed

lemma memset_eq_set_bytes:
  assumes "s \<noteq> 0"
  shows "lib_memset m s c n = (s, set_bytes m s (ucast c) (unat n))"
proof (cases "s AND 3 = 0 \<and> 16 \<le> n")
  case True
  obtain m1 d1 k where w4: "set_words4 m s (rep4 (ucast c)) (unat (drop_bit 2 n)) = (m1, d1, k)"
    by (cases "set_words4 m s (rep4 (ucast c)) (unat (drop_bit 2 n))") auto
  have w: "set_words m1 d1 (rep4 (ucast c)) k = (set_bytes m s (ucast c) (4 * unat (drop_bit 2 n)),
      s + of_nat (4 * unat (drop_bit 2 n)))"
    using set_words4_eq [of "rep4 (ucast c)" m s "unat (drop_bit 2 n)"] set_words_eq w4 by simp
  show ?thesis
    using True assms set_bytes_add [of m s "ucast c" "4 * unat (drop_bit 2 n)" "unat (n AND 3)"]
    unfolding four_words_tail lib_memset_def Let_def w4 prod.case w by simp
qed (use assms in \<open>auto simp: lib_memset_def Let_def\<close>)

lemma memset_correct:
  assumes "s \<noteq> 0"
  shows "lib_memset m s c n = (s, \<lambda>a. if unat (a - s) < unat n then ucast c else m a)"
  using assms by (simp add: memset_eq_set_bytes fun_eq_iff set_bytes_at less_imp_le)

lemma cmp_bytes_add:
  "cmp_bytes m a b (i + j) =
    (if cmp_bytes m a b i \<noteq> 0 then cmp_bytes m a b i else cmp_bytes m (a + of_nat i) (b + of_nat i) j)"
  by (induction i arbitrary: a b) (auto simp: algebra_simps word_uint_eq_iff)

lemma find_diff_cmp_bytes:
  "find_diff m a b n = (if cmp_bytes m a b n = 0 then None else Some (cmp_bytes m a b n))"
  by (induction n arbitrary: a b) (auto simp: word_uint_eq_iff)

lemma cmp_bytes_0_iff: "cmp_bytes m a b n = 0 \<longleftrightarrow> (\<forall>i<n. m (a + of_nat i) = m (b + of_nat i))"
  by (induction n arbitrary: a b) (auto simp: less_Suc_eq_0_disj algebra_simps word_uint_eq_iff)

lemma rd32_eq_bytes:
  assumes "rd32 m a = rd32 m' b" "i < 4"
  shows "m (a + of_nat i) = m' (b + of_nat i)"
proof -
  have eq: "wr32 (\<lambda>_. 0) 0 (rd32 m a) (of_nat i) = wr32 (\<lambda>_. 0) 0 (rd32 m' b) (of_nat i)"
    by (simp only: assms)
  from assms(2) consider "i = 0" | "i = 1" | "i = 2" | "i = 3" by force
  then show ?thesis using eq unfolding wr32_rd32 by cases simp_all
qed

lemma cmp_bytes_4_rd32: "rd32 m a = rd32 m b \<Longrightarrow> cmp_bytes m a b 4 = 0"
  unfolding cmp_bytes_0_iff by (blast intro: rd32_eq_bytes)

lemma cmp_words_eq:
  "cmp_words m a b k =
    (if cmp_bytes m a b (4 * k) \<noteq> 0 then Inl (cmp_bytes m a b (4 * k))
     else Inr (a + of_nat (4 * k), b + of_nat (4 * k)))"
proof (induction k arbitrary: a b)
  case (Suc k)
  have e: "cmp_bytes m a b (4 * Suc k) =
     (if cmp_bytes m a b 4 \<noteq> 0 then cmp_bytes m a b 4 else cmp_bytes m (a + 4) (b + 4) (4 * k))"
    using cmp_bytes_add [of m a b 4 "4 * k"] by simp
  show ?case unfolding e
    using cmp_bytes_4_rd32 [of m a b] by (auto simp: Suc.IH find_diff_cmp_bytes add_ac)
qed simp

lemma memcmp_eq_cmp_bytes:
  assumes "s1 \<noteq> 0" "s2 \<noteq> 0"
  shows "lib_memcmp m s1 s2 n = cmp_bytes m s1 s2 (unat n)"
  using assms cmp_bytes_add [of m s1 s2 "4 * unat (drop_bit 2 n)" "unat (n AND 3)"]
  unfolding four_words_tail lib_memcmp_def cmp_words_eq by auto

section \<open>C strings and the zero-byte test\<close>

lemma cstr_nth: "cstr m p xs \<Longrightarrow> i < length xs \<Longrightarrow> m (p + of_nat i) = xs ! i \<and> xs ! i \<noteq> 0"
proof (induction xs arbitrary: p i)
  case (Cons x xs)
  then show ?case by (cases i) (auto simp: algebra_simps dest!: Cons.IH)
qed simp

lemma cstr_end: "cstr m p xs \<Longrightarrow> m (p + of_nat (length xs)) = 0"
proof (induction xs arbitrary: p)
  case (Cons x xs)
  then show ?case by (auto simp: algebra_simps dest!: Cons.IH)
qed simp

lemma cstr_iff:
  "cstr m p xs \<longleftrightarrow> (\<forall>i<length xs. m (p + of_nat i) = xs ! i \<and> xs ! i \<noteq> 0) \<and> m (p + of_nat (length xs)) = 0"
proof (induction xs arbitrary: p)
  case (Cons x xs)
  show ?case by (auto simp: Cons.IH less_Suc_eq_0_disj algebra_simps)
qed simp

lemma cstr_drop: "cstr m p xs \<Longrightarrow> n \<le> length xs \<Longrightarrow> cstr m (p + of_nat n) (drop n xs)"
proof (induction n arbitrary: p xs)
  case (Suc n)
  then obtain x ys where "xs = x # ys" by (cases xs) auto
  then show ?case using Suc.IH [of "p + 1" ys] Suc.prems by (simp add: algebra_simps)
qed simp

lemma cstr_short: "cstr m p xs \<Longrightarrow> length xs < 4294967296"
proof (rule ccontr)
  assume c: "cstr m p xs" and "\<not> length xs < 4294967296"
  define j where "j = length xs mod 4294967296"
  have "j < length xs" using \<open>\<not> _\<close> unfolding j_def
    by (meson le_less_trans linorder_not_less mod_less_divisor zero_less_numeral order_less_le_trans)
  moreover have "(of_nat (length xs) :: u32) = of_nat j"
    unfolding j_def by (simp add: word_unat_eq_iff unat_of_nat)
  ultimately show False using cstr_nth [OF c] cstr_end [OF c] by metis
qed

lemma uint_rd32:
  "uint (rd32 m p) = uint (m p) + 256 * uint (m (p + 1)) + 65536 * uint (m (p + 2)) + 16777216 * uint (m (p + 3))"
proof -
  define a b c d where abcd: "a = m p" "b = m (p + 1)" "c = m (p + 2)" "d = m (p + 3)"
  have b8: "uint x < 256" "0 \<le> uint x" for x :: u8
    using unsigned_less [of x, where 'a = int] by simp_all
  have uc: "uint (ucast x :: u32) = uint x" for x :: u8
    by (simp add: unsigned_ucast_eq take_bit_int_eq_self_iff)
       (use b8 [of x] in simp)
  let ?w = "\<lambda>x. ucast (x :: u8) :: u32"
  have "rd32 m p = ?w a OR (push_bit 8 (?w b) OR (push_bit 16 (?w c) OR push_bit 24 (?w d)))"
    by (simp add: rd32_def abcd or.assoc)
  also have "\<dots> = ?w a + (push_bit 8 (?w b) + (push_bit 16 (?w c) + push_bit 24 (?w d)))"
    by (subst disjunctive_add_eq_or, rule bit_word_eqI,
        auto simp: bit_simps dest: bit_imp_le_length)+
  also have "\<dots> = ?w a + (256 * ?w b + (65536 * ?w c + 16777216 * ?w d))"
    by (simp add: push_bit_eq_mult mult.commute)
  finally have r: "rd32 m p = ?w a + (256 * ?w b + (65536 * ?w c + 16777216 * ?w d))" .
  have "rd32 m p = word_of_int (uint a + 256 * uint b + 65536 * uint c + 16777216 * uint d)"
    unfolding r by simp
  then have "uint (rd32 m p) = (uint a + 256 * uint b + 65536 * uint c + 16777216 * uint d) mod 4294967296"
    by (simp only: uint_word_of_int) simp
  then show ?thesis using b8 [of a] b8 [of b] b8 [of c] b8 [of d] by (simp add: abcd)
qed


lemma int_bit_top:
  fixes R Q :: int
  assumes "2 ^ k \<le> R" "R < 2 * 2 ^ k"
  shows "bit (2 * 2 ^ k * Q + R) k"
proof -
  have "(2 * 2 ^ k * Q + R) div 2 ^ k = (R + 2 ^ k * (2 * Q)) div 2 ^ k" by (simp add: algebra_simps)
  also have "\<dots> = 2 * Q + R div 2 ^ k" by simp
  also have "R div 2 ^ k = 1"
    using assms int_div_pos_eq [of R "2 ^ k" 1 "R - 2 ^ k"] by simp
  finally show ?thesis by (simp add: bit_iff_odd)
qed

lemma borrow_bit:
  fixes v :: u32
  assumes "uint v - 16843009 = 2 * 2 ^ k * Q + R" "2 ^ k \<le> R" "R < 2 * 2 ^ k" "k < 32"
  shows "bit (v - 0x01010101) k"
proof -
  have "v - 0x01010101 = word_of_int (uint v - 16843009)" by simp
  then show ?thesis using int_bit_top [OF assms(2,3), of Q] assms(1,4)
    by (simp only: bit_word_of_int_iff) simp
qed

lemma zero_byte_testI:
  assumes "bit (v - 0x01010101) k" "\<not> bit v k" "k = 7 \<or> k = 15 \<or> k = 23 \<or> k = 31"
  shows "zero_byte_test v"
proof -
  have "bit (0x80808080 :: u32) k" using assms(3) by auto
  then have "bit ((v - 0x01010101) AND NOT v AND 0x80808080) k"
    using assms by (auto simp only: bit_and_iff bit_not_iff) auto
  then show ?thesis unfolding zero_byte_test_def by auto
qed

lemma uint_u8_bounds: "0 \<le> uint (x :: u8)" "uint (x :: u8) \<le> 255"
  using unsigned_less [of x, where 'a = int] by simp_all

lemma uint_u8_pos: "(x :: u8) \<noteq> 0 \<Longrightarrow> 1 \<le> uint x"
  by (metis int_one_le_iff_zero_less order_le_less uint_0_iff uint_u8_bounds(1))

lemma bit_rd32_top:
  "bit (rd32 m p) 7 = bit (m p) 7" "bit (rd32 m p) 15 = bit (m (p + 1)) 7"
  "bit (rd32 m p) 23 = bit (m (p + 2)) 7" "bit (rd32 m p) 31 = bit (m (p + 3)) 7"
  by (simp_all add: rd32_def bit_simps impossible_bit)

lemma zero_byte0: "m p = 0 \<Longrightarrow> zero_byte_test (rd32 m p)"
  by (rule zero_byte_testI [of _ 7], rule borrow_bit [where R = 255 and
        Q = "uint (m (p + 1)) + 256 * uint (m (p + 2)) + 65536 * uint (m (p + 3)) - 65794"])
    (simp_all add: uint_rd32 bit_rd32_top)

lemma zero_byte1: "m p \<noteq> 0 \<Longrightarrow> m (p + 1) = 0 \<Longrightarrow> zero_byte_test (rd32 m p)"
  using uint_u8_pos [of "m p"] uint_u8_bounds [of "m p"]
  by (intro zero_byte_testI [of _ 15], intro borrow_bit [where R = "65279 + uint (m p)" and
        Q = "uint (m (p + 2)) + 256 * uint (m (p + 3)) - 258"])
    (simp_all add: uint_rd32 bit_rd32_top)

lemma zero_byte2:
  "m p \<noteq> 0 \<Longrightarrow> m (p + 1) \<noteq> 0 \<Longrightarrow> m (p + 2) = 0 \<Longrightarrow> zero_byte_test (rd32 m p)"
  using uint_u8_pos [of "m p"] uint_u8_bounds [of "m p"]
    uint_u8_pos [of "m (p + 1)"] uint_u8_bounds [of "m (p + 1)"]
  by (intro zero_byte_testI [of _ 23], intro borrow_bit [where
        R = "16711423 + uint (m p) + 256 * uint (m (p + 1))" and Q = "uint (m (p + 3)) - 2"])
    (simp_all add: uint_rd32 bit_rd32_top)

lemma zero_byte3:
  "m p \<noteq> 0 \<Longrightarrow> m (p + 1) \<noteq> 0 \<Longrightarrow> m (p + 2) \<noteq> 0 \<Longrightarrow> m (p + 3) = 0 \<Longrightarrow> zero_byte_test (rd32 m p)"
  using uint_u8_pos [of "m p"] uint_u8_bounds [of "m p"]
    uint_u8_pos [of "m (p + 1)"] uint_u8_bounds [of "m (p + 1)"]
    uint_u8_pos [of "m (p + 2)"] uint_u8_bounds [of "m (p + 2)"]
  by (intro zero_byte_testI [of _ 31], intro borrow_bit [where
        R = "4278124287 + uint (m p) + 256 * uint (m (p + 1)) + 65536 * uint (m (p + 2))" and Q = "- 1"])
    (simp_all add: uint_rd32 bit_rd32_top)

lemma zero_byte_found:
  assumes "m (p + of_nat i) = 0" "i < 4"
  shows "zero_byte_test (rd32 m p)"
proof -
  from assms(2) consider "i = 0" | "i = 1" | "i = 2" | "i = 3" by force
  then have "m p = 0 \<or> m (p + 1) = 0 \<or> m (p + 2) = 0 \<or> m (p + 3) = 0"
    using assms(1) by cases simp_all
  then show ?thesis 
    using zero_byte0 [of m p] zero_byte1 [of m p] zero_byte2 [of m p] zero_byte3 [of m p] by argo
qed

section \<open>strlen, strcmp and strcpy\<close>

lemma find_nul4_cstr:
  assumes "cstr m w xs"
  shows "find_nul4 m w = (if length xs < 4 then Some (length xs) else None)"
proof (cases "length xs < 4")
  case True
  then consider "length xs = 0" | "length xs = 1" | "length xs = 2" | "length xs = 3" by linarith
  then show ?thesis
    using cstr_end [OF assms] cstr_nth [OF assms, of 0] cstr_nth [OF assms, of 1] cstr_nth [OF assms, of 2]
    by cases (auto simp: find_nul4_def)
next
  case False
  then have "0 < length xs" by linarith
  with False show ?thesis
    using cstr_nth [OF assms, of 0] cstr_nth [OF assms, of 1] cstr_nth [OF assms, of 2]
      cstr_nth [OF assms, of 3] by (auto simp: find_nul4_def)
qed

lemma strlen_words_cstr: "cstr m w xs \<Longrightarrow> strlen_words m w len = Some (len + of_nat (length xs))"
proof (induction xs arbitrary: w len rule: length_induct)
  case (1 xs)
  show ?case
  proof (cases "length xs < 4")
    case True
    then have "zero_byte_test (rd32 m w)" 
      using zero_byte_found [of m w "length xs"] cstr_end [OF "1.prems"] by simp
    then show ?thesis using True
      by (subst strlen_words.simps) (simp add: find_nul4_cstr [OF "1.prems"])
  next
    case False
    then have "strlen_words m w len = strlen_words m (w + 4) (len + 4)"
      by (subst strlen_words.simps) (simp add: find_nul4_cstr [OF "1.prems"])
    also have "\<dots> = Some (len + 4 + of_nat (length (drop 4 xs)))"
    proof -
      have "length (drop 4 xs) < length xs" "cstr m (w + 4) (drop 4 xs)"
        using False cstr_drop [OF "1.prems", of 4] by simp_all
      then show ?thesis using "1.IH" by blast
    qed
    finally show ?thesis using False by (simp add: of_nat_diff)
  qed
qed

lemma strlen_align_cstr:
  "cstr m p xs \<Longrightarrow> \<exists>k\<le>length xs. strlen_align m p len = Some (p + of_nat k, len + of_nat k)"
proof (induction xs arbitrary: p len)
  case Nil
  then show ?case by (subst strlen_align.simps) auto
next
  case (Cons x xs)
  show ?case
  proof (cases "p AND 3 = 0")
    case True
    then show ?thesis by (intro exI [of _ 0]) (subst strlen_align.simps, simp)
  next
    case False
    from Cons obtain k where "k \<le> length xs"
      "strlen_align m (p + 1) (len + 1) = Some (p + 1 + of_nat k, len + 1 + of_nat k)" by force
    then show ?thesis using False Cons.prems
      by (intro exI [of _ "Suc k"]) (subst strlen_align.simps, simp add: add_ac)
  qed
qed

lemma strlen_cstr: "p \<noteq> 0 \<Longrightarrow> cstr m p xs \<Longrightarrow> lib_strlen m p = Some (of_nat (length xs))"
proof -
  assume p: "p \<noteq> 0" and c: "cstr m p xs"
  from strlen_align_cstr [OF c] obtain k where k: "k \<le> length xs"
    "strlen_align m p 0 = Some (p + of_nat k, 0 + of_nat k)" by blast
  note d = cstr_drop [OF c k(1)]
  show ?thesis
  proof (cases "k = length xs")
    case True
    then show ?thesis using p k cstr_end [OF c] by (simp add: lib_strlen_def)
  next
    case False
    then have "m (p + of_nat k) \<noteq> 0" using cstr_nth [OF c, of k] k(1) by auto
    then show ?thesis using p k strlen_words_cstr [OF d] by (simp add: lib_strlen_def of_nat_diff)
  qed
qed

lemma strcmp_loop_cstr:
  "cstr m a xs \<Longrightarrow> cstr m b ys \<Longrightarrow>
    \<exists>r. strcmp_loop m a b = Some r \<and> (r = 0 \<longleftrightarrow> xs = ys) \<and> (r < 0 \<longleftrightarrow> xs < ys)"
proof (induction xs arbitrary: a b ys)
  case Nil
  then show ?case
    by (cases ys; subst strcmp_loop.simps) (auto simp: uint_u8_pos dest: uint_u8_pos)
next
  case (Cons x xs)
  show ?case
  proof (cases ys)
    case Nil
    then show ?thesis using Cons.prems
      by (subst strcmp_loop.simps) (auto dest: uint_u8_pos)
  next
    case (Cons y zs)
    show ?thesis
    proof (cases "x = y")
      case True
      then show ?thesis using Cons.IH [of "a + 1" "b + 1" zs] Cons.prems Cons
        by (subst strcmp_loop.simps) simp
    next
      case False
      then show ?thesis using Cons.prems Cons
        by (subst strcmp_loop.simps) (auto simp: word_less_def word_uint_eq_iff)
    qed
  qed
qed

lemma cstr_upd: "cstr m p xs \<Longrightarrow> (\<And>i. i \<le> length xs \<Longrightarrow> p + of_nat i \<noteq> a) \<Longrightarrow> cstr (m(a := v)) p xs"
  by (simp add: cstr_iff)

lemma cstr_upd_same: "m a = v \<Longrightarrow> m(a := v) = m"
  by auto

lemma unat_of_nat_le: "unat (of_nat n :: u32) \<le> n"
  unfolding unat_of_nat by (rule mod_less_eq_dividend)

lemma cstr_after_write:
  assumes "cstr m s (x # xs)" "d = s \<or> Suc (length xs) < unat (d - s)"
  shows "cstr (m(d := m s)) (s + 1) xs"
proof (cases "d = s")
  case False
  have "s + 1 + of_nat i \<noteq> d" if "i \<le> length xs" for i
  proof
    assume "s + 1 + of_nat i = d"
    then have "d - s = of_nat (Suc i)" by auto
    then have "unat (d - s) \<le> Suc i" by (simp only: unat_of_nat_le)
    then show False using assms(2) False that by simp
  qed
  then show ?thesis using assms(1) by (intro cstr_upd) auto
qed (use assms in \<open>auto simp: cstr_upd_same\<close>)

lemma strcpy_loop_cstr:
  "cstr m s xs \<Longrightarrow> d = s \<or> length xs < unat (d - s) \<Longrightarrow>
    strcpy_loop m d s = Some (copy_bytes m d s (Suc (length xs)))"
proof (induction xs arbitrary: m d s)
  case Nil
  then show ?case by (subst strcpy_loop.simps) simp
next
  case (Cons x xs)
  then have "d + 1 = s + 1 \<or> length xs < unat (d + 1 - (s + 1))" "cstr (m(d := m s)) (s + 1) xs"
    using cstr_after_write [of m s x xs d] by auto
  note IH = Cons.IH [OF this(2) this(1)]
  show ?case using Cons.prems(1) IH
    by (subst strcpy_loop.simps) (simp add: Let_def del: fun_upd_apply)
qed

section \<open>strncpy, strcat, strchr, strrchr and atoi\<close>

lemma copy_bytes_cstr:
  assumes "cstr m s xs" "d = s \<or> length xs < unat (d - s)"
  shows "cstr (copy_bytes m d s (Suc (length xs))) d xs"
proof -
  note l = cstr_short [OF assms(1)]
  have "copy_bytes m d s (Suc (length xs)) (d + of_nat i) = m (s + of_nat i)" if "i \<le> length xs" for i
    using that l assms(2) by (subst copy_bytes_at) auto
  then show ?thesis using assms(1) by (simp add: cstr_iff)
qed


lemma strncpy_loop_cstr:
  assumes "cstr m (src + i) xs" "src \<noteq> 0" "dest = src \<or> length xs < unat (dest - src)"
  shows "strncpy_loop m dest src i k =
    (copy_bytes m (dest + i) (src + i) (min (length xs) k), i + of_nat (min (length xs) k))"
  using assms
proof (induction k arbitrary: m i xs)
  case (Suc k)
  show ?case
  proof (cases xs)
    case (Cons x ys)
    let ?m = "m(dest + i := m (src + i))"
    have "cstr ?m (src + (i + 1)) ys"
      using cstr_after_write [of m "src + i" x ys "dest + i"] Cons Suc.prems by (simp add: add.assoc)
    moreover have "dest = src \<or> length ys < unat (dest - src)" using Suc.prems Cons by auto
    ultimately have "strncpy_loop ?m dest src (i + 1) k =
      (copy_bytes ?m (dest + (i + 1)) (src + (i + 1)) (min (length ys) k), i + 1 + of_nat (min (length ys) k))"
      using Suc.IH Suc.prems(2) by blast
    then show ?thesis using Cons Suc.prems(1,2)
      by (simp add: add.assoc del: fun_upd_apply)
  qed (use Suc.prems in simp)
qed simp

lemma copy_bytes_source_end:
  assumes "k < 4294967296" "d = s \<or> k < unat (d - s)"
  shows "copy_bytes m d s k (s + of_nat k) = m (s + of_nat k)"
proof (cases "d = s")
  case False
  define e where "e = d - s"
  have e: "s + of_nat k - d = of_nat k - e" "k < unat e" using False assms(2) by (simp_all add: e_def)
  have "\<not> unat (of_nat k - e) < k"
    using e(2) less_imp_le [OF unat_less_2p32 [of e]] assms(1) by (simp add: unat_sub_if')
  then show ?thesis
    using copy_bytes_at [of k d s m "s + of_nat k"] assms unfolding e(1) by (metis less_imp_le)
qed (use copy_bytes_at [of k d s m "s + of_nat k"] assms in auto)

lemma strncpy_cstr:
  assumes "cstr m src xs" "src \<noteq> 0" "dest \<noteq> 0" "n \<noteq> 0" "dest = src \<or> length xs < unat (dest - src)"
  defines "k \<equiv> min (length xs) (unat n - 1)"
  shows "lib_strncpy m dest src n = (dest, (copy_bytes m dest src k)(dest + of_nat k := 0))"
proof -
  have n1: "unat (n - 1) = unat n - 1" using assms(4) by (simp add: unat_minus_one_32)
  have "0 < unat n" using assms(4) by (simp add: unat_gt_0)
  then have kn: "k < unat n" unfolding k_def by linarith
  then have k: "unat (of_nat k :: u32) = k"
    using unat_less_2p32 [of n] by (intro unat_of_nat_32) linarith
  let ?m = "copy_bytes m dest src k"
  have l1: "strncpy_loop m dest src 0 (unat (n - 1)) = (?m, of_nat k)"
    using strncpy_loop_cstr [of m src 0 xs dest "unat (n - 1)"] assms by (simp add: n1 k_def)
  have l2: "strncpy_loop ?m dest src (of_nat k) (unat (n - 1 - of_nat k)) = (?m, of_nat k)"
  proof (cases "k < unat n - 1")
    case True
    then have kl: "k = length xs" by (auto simp: k_def)
    have "?m (src + of_nat k) = m (src + of_nat k)"
      using assms(5) kl kn less_imp_le [OF unat_less_2p32 [of n]]
      by (intro copy_bytes_source_end) auto
    then have "?m (src + of_nat k) = 0" using cstr_end [OF assms(1)] kl by simp
    then show ?thesis by (cases "unat (n - 1 - of_nat k)") auto
  next
    case False
    then have "unat (n - 1 - of_nat k) = 0" using k kn n1 by (simp add: unat_sub_if')
    then show ?thesis by simp
  qed
  have "of_nat k < n" using k kn by (simp add: word_less_nat_alt)
  then show ?thesis using assms l1 l2 by (simp add: lib_strncpy_def)
qed


lemma cstr_append:
  "cstr m p (xs @ ys) \<longleftrightarrow> (\<forall>i<length xs. m (p + of_nat i) = xs ! i \<and> xs ! i \<noteq> 0) \<and> cstr m (p + of_nat (length xs)) ys"
proof (induction xs arbitrary: p)
  case (Cons x xs)
  show ?case by (auto simp: Cons.IH less_Suc_eq_0_disj algebra_simps)
qed simp

lemma strcat_cstr:
  assumes "cstr m dest xs" "cstr m src ys" "dest \<noteq> 0" "src \<noteq> 0"
    and "length ys < unat (dest + of_nat (length xs) - src)"
    and "unat dest + length xs + length ys < 4294967296"
  shows "\<exists>m'. lib_strcat m dest src = Some (dest, m') \<and> cstr m' dest (xs @ ys)
    \<and> (\<forall>a. length xs + length ys < unat (a - dest) \<longrightarrow> m' a = m a)"
proof -
  let ?e = "dest + of_nat (length xs)" and ?m = "copy_bytes m (dest + of_nat (length xs)) src (Suc (length ys))"
  have l: "unat ?e = unat dest + length xs" "length ys < 4294967296"
    using assms(6) by (simp_all add: unat_add_no_wrap)
  then have ne: "?e \<noteq> 0" using assms(3) by (metis add_eq_0_iff_both_eq_0 unat_0 unat_eq_zero)
  have at: "?m a = (if unat (a - ?e) < Suc (length ys) then m (src + (a - ?e)) else m a)" for a
    using assms(5) l by (intro copy_bytes_at) auto
  have far: "?m a = m a" if "unat (a - dest) < length xs \<or> length xs + length ys < unat (a - dest)" for a
  proof -
    have "unat (a - dest - of_nat (length xs)) \<ge> Suc (length ys)"
      using that assms(6) by (auto simp: unat_sub_if')
    then show ?thesis unfolding at by (simp add: diff_diff_eq)
  qed
  have "lib_strcat m dest src = Some (dest, ?m)"
    using assms ne strlen_cstr [OF assms(3,1)] strcpy_loop_cstr [OF assms(2), of ?e]
    by (simp add: lib_strcat_def lib_strcpy_def)
  moreover have "cstr ?m ?e ys" using copy_bytes_cstr [OF assms(2), of ?e] assms(5) by simp
  moreover have "?m (dest + of_nat i) = m (dest + of_nat i)" if "i < length xs" for i
    using that l assms(6) by (intro far) simp
  ultimately show ?thesis using far cstr_nth [OF assms(1)] by (auto simp: cstr_append)
qed

lemma strchr_loop_cstr:
  "cstr m s xs \<Longrightarrow> strchr_loop m s ch =
    Some (if ch \<in> set xs then Inl (s + of_nat (length (takeWhile (\<lambda>x. x \<noteq> ch) xs)))
          else Inr (s + of_nat (length xs)))"
proof (induction xs arbitrary: s)
  case Nil
  then show ?case by (subst strchr_loop.simps) simp
next
  case (Cons x xs)
  then show ?case by (subst strchr_loop.simps) (auto simp: add.assoc)
qed

lemma length_takeWhile_neq: "x \<in> set xs \<Longrightarrow> length (takeWhile (\<lambda>y. y \<noteq> x) xs) < length xs"
  by (induction xs) auto

lemma strrchr_loop_cstr:
  "cstr m s xs \<Longrightarrow> strrchr_loop m s ch lst =
    Some (s + of_nat (length xs),
      if ch \<in> set xs then s + of_nat (length xs - 1 - length (takeWhile (\<lambda>x. x \<noteq> ch) (rev xs))) else lst)"
proof (induction xs arbitrary: s lst)
  case Nil
  then show ?case by (subst strrchr_loop.simps) simp
next
  case (Cons x xs)
  have t: "takeWhile (\<lambda>x. x \<noteq> ch) (rev (x # xs)) =
    (if ch \<in> set xs then takeWhile (\<lambda>x. x \<noteq> ch) (rev xs) else rev xs @ (if x = ch then [] else [x]))"
    by (auto simp: takeWhile_append)
  have l: "length (takeWhile (\<lambda>x. x \<noteq> ch) (rev xs)) < length xs" if "ch \<in> set xs"
    using that by (metis length_rev length_takeWhile_neq set_rev)
  show ?case using Cons.prems l unfolding t
    by (subst strrchr_loop.simps) (auto simp: Cons.IH add.assoc Suc_diff_Suc simp flip: of_nat_Suc)
qed

lemma atoi_skip_cstr:
  "cstr m p (sp @ xs) \<Longrightarrow> \<forall>c\<in>set sp. c = 32 \<or> c = 9 \<or> c = 10 \<Longrightarrow>
   (case xs of [] \<Rightarrow> True | x # _ \<Rightarrow> x \<noteq> 32 \<and> x \<noteq> 9 \<and> x \<noteq> 10) \<Longrightarrow>
   atoi_skip m p = Some (p + of_nat (length sp))"
proof (induction sp arbitrary: p)
  case Nil
  then show ?case by (subst atoi_skip.simps) (auto split: list.splits)
next
  case (Cons c sp)
  then show ?case by (subst atoi_skip.simps) (auto simp: add.assoc)
qed

lemma atoi_digits_cstr:
  "cstr m p (ds @ xs) \<Longrightarrow> \<forall>c\<in>set ds. 48 \<le> c \<and> c \<le> 57 \<Longrightarrow>
   (case xs of [] \<Rightarrow> True | x # _ \<Rightarrow> \<not> (48 \<le> x \<and> x \<le> 57)) \<Longrightarrow>
   atoi_digits m p (of_nat v) = Some (of_nat (foldl (\<lambda>v d. v * 10 + (unat d - 48)) v ds))"
proof (induction ds arbitrary: p v)
  case Nil
  then show ?case by (subst atoi_digits.simps) (auto split: list.splits)
next
  case (Cons c ds)
  have "(of_nat v * 10 + (ucast c - 48) :: u32) = of_nat (v * 10 + (unat c - 48))"
    using Cons.prems(2) by (simp add: of_nat_diff word_le_nat_alt)
  then show ?case using Cons.prems Cons.IH [of "p + 1" "v * 10 + (unat c - 48)"]
    by (subst atoi_digits.simps) (simp add: add.assoc del: of_nat_add of_nat_mult)
qed

section \<open>Properties\<close>

text \<open>C32. \<open>lib_memcpy\<close>, with its word-at-a-time path for aligned buffers, is for all
  non-NULL pointers and every length the plain ascending byte copy, and when the
  destination does not start inside the source it moves exactly the \<open>n\<close> source bytes
  and leaves every other byte of memory alone.\<close>

theorem memcpy_correct:
  assumes "dest \<noteq> 0" "src \<noteq> 0"
  shows "lib_memcpy m dest src n = (dest, copy_bytes m dest src (unat n)) \<and>
    (dest = src \<or> unat n \<le> unat (dest - src) \<longrightarrow>
      snd (lib_memcpy m dest src n) = (\<lambda>a. if unat (a - dest) < unat n then m (src + (a - dest)) else m a))"
  using memcpy_eq_copy_bytes [OF assms] copy_bytes_at [of "unat n" dest src m]
    less_imp_le [OF unat_less_2p32 [of n]] by (simp add: fun_eq_iff)

theorem memcpy_correct_witness:
  "lib_memcpy (\<lambda>a. ucast a) 100 96 20 = (100, copy_bytes (\<lambda>a. ucast a) 100 96 20) \<and>
   snd (lib_memcpy (\<lambda>a. ucast a) 200 100 32) =
     (\<lambda>a. if unat (a - 200) < 32 then ucast (100 + (a - 200)) else ucast a)"
  using memcpy_correct [of 100 96 "\<lambda>a. ucast a" 20, THEN conjunct1]
    memcpy_correct [of 200 100 "\<lambda>a. ucast a" 32, THEN conjunct2]
  by simp

text \<open>\<open>lib_memmove\<close> copies as if through a temporary buffer, for every overlap of
  source and destination, as long as neither buffer wraps around the address space.\<close>

theorem memmove_overlap_safe:
  assumes "dest \<noteq> 0" "src \<noteq> 0" "unat dest + unat n \<le> 4294967296" "unat src + unat n \<le> 4294967296"
  shows "lib_memmove m dest src n =
    (dest, \<lambda>a. if unat (a - dest) < unat n then m (src + (a - dest)) else m a)"
  using memmove_eq [OF assms] .

theorem memmove_overlap_safe_witness:
  "lib_memmove (\<lambda>a. ucast a) 100 96 20 =
    (100, \<lambda>a. if unat (a - 100) < 20 then ucast (96 + (a - 100)) else ucast a)"
  using memmove_overlap_safe [of 100 96 20 "\<lambda>a. ucast a"] by simp

text \<open>C33. \<open>lib_strlen\<close>, which reads a word at a time and tests it with the
  \<open>(v - 0x01010101) & ~v & 0x80808080\<close> trick, returns on every C string, and with its length.\<close>

theorem strlen_correct:
  assumes "p \<noteq> 0" "cstr m p xs"
  shows "lib_strlen m p = Some (of_nat (length xs)) \<and> unat (of_nat (length xs) :: u32) = length xs"
  using strlen_cstr [OF assms] cstr_short [OF assms(2)] by simp

theorem strlen_correct_witness:
  "lib_strlen ((\<lambda>_. 0)(101 := 72, 102 := 105, 103 := 33, 104 := 10, 105 := 1)) 101 = Some 5"
  using strlen_correct [of 101 "(\<lambda>_. 0)(101 := 72, 102 := 105, 103 := 33, 104 := 10, 105 := 1)"
      "[72, 105, 33, 10, 1]"] by simp

text \<open>\<open>lib_strcmp\<close> returns on every pair of C strings: 0 exactly on equal strings,
  a negative number exactly when the first is smaller in lexicographic byte order.\<close>

theorem strcmp_correct:
  assumes "s1 \<noteq> 0" "s2 \<noteq> 0" "cstr m s1 xs" "cstr m s2 ys"
  shows "\<exists>r. lib_strcmp m s1 s2 = Some r \<and> (r = 0 \<longleftrightarrow> xs = ys) \<and> (r < 0 \<longleftrightarrow> xs < ys)"
  using strcmp_loop_cstr [OF assms(3,4)] assms(1,2) by (simp add: lib_strcmp_def)

theorem strcmp_correct_witness:
  "\<exists>r. lib_strcmp ((\<lambda>_. 0)(8 := 97, 9 := 98, 20 := 97, 21 := 200)) 8 20 = Some r \<and> r < 0"
  using strcmp_correct [of 8 20 "(\<lambda>_. 0)(8 := 97, 9 := 98, 20 := 97, 21 := 200)" "[97, 98]" "[97, 200]"]
  by auto

text \<open>\<open>lib_strncpy\<close> always leaves a NUL-terminated string in a buffer of \<open>n > 0\<close> bytes:
  the source cut to \<open>n - 1\<close> bytes. It writes no byte outside the \<open>n\<close> bytes of the buffer.\<close>

theorem strncpy_bounded:
  assumes "dest \<noteq> 0" "src \<noteq> 0" "n \<noteq> 0" "cstr m src xs" "length xs < unat (dest - src)"
  shows "cstr (snd (lib_strncpy m dest src n)) dest (take (unat n - 1) xs) \<and>
    (\<forall>a. unat n \<le> unat (a - dest) \<longrightarrow> snd (lib_strncpy m dest src n) a = m a)"
proof -
  define k where "k = min (length xs) (unat n - 1)"
  have "0 < unat n" using assms(3) by (simp add: unat_gt_0)
  then have kn: "k < unat n" "k \<le> length xs" unfolding k_def by linarith+
  then have k32: "k < 4294967296" using unat_less_2p32 [of n] by linarith
  have eq: "snd (lib_strncpy m dest src n) = (copy_bytes m dest src k)(dest + of_nat k := 0)"
    using strncpy_cstr [of m src xs dest n] assms by (simp add: k_def)
  have at: "copy_bytes m dest src k a = (if unat (a - dest) < k then m (src + (a - dest)) else m a)" for a
    using assms(5) kn k32 by (intro copy_bytes_at) auto
  have "length (take (unat n - 1) xs) = k" by (simp add: k_def min.commute)
  then have "cstr (snd (lib_strncpy m dest src n)) dest (take (unat n - 1) xs)"
    unfolding eq cstr_iff using kn k32 cstr_nth [OF assms(4)]
    by (auto simp: at of_nat_32_eq_iff)
  moreover have "snd (lib_strncpy m dest src n) a = m a" if "unat n \<le> unat (a - dest)" for a
    using that kn k32 unfolding eq by (auto simp: at offset_eq_iff)
  ultimately show ?thesis by blast
qed

theorem strncpy_bounded_witness:
  "cstr (snd (lib_strncpy ((\<lambda>_. 0)(8 := 97, 9 := 98, 10 := 99)) 100 8 3)) 100 [97, 98]"
  using strncpy_bounded [of 100 8 3 "(\<lambda>_. 0)(8 := 97, 9 := 98, 10 := 99)" "[97, 98, 99]"]
  by simp

text \<open>\<open>lib_strcat\<close> returns and leaves the concatenation of the two strings at the
  destination, writing nothing past its terminator, when the source does not lie in
  the bytes that are written and the result does not wrap around the address space.\<close>

theorem strcat_correct:
  assumes "cstr m dest xs" "cstr m src ys" "dest \<noteq> 0" "src \<noteq> 0"
    and "length ys < unat (dest + of_nat (length xs) - src)"
    and "unat dest + length xs + length ys < 4294967296"
  shows "\<exists>m'. lib_strcat m dest src = Some (dest, m') \<and> cstr m' dest (xs @ ys)
    \<and> (\<forall>a. length xs + length ys < unat (a - dest) \<longrightarrow> m' a = m a)"
  using strcat_cstr [OF assms] .

theorem strcat_correct_witness:
  "\<exists>m'. lib_strcat ((\<lambda>_. 0)(8 := 97, 9 := 98, 20 := 97, 21 := 200)) 8 20 = Some (8, m')
    \<and> cstr m' 8 [97, 98, 97, 200]"
  using strcat_correct [of "(\<lambda>_. 0)(8 := 97, 9 := 98, 20 := 97, 21 := 200)" 8 "[97, 98]" 20 "[97, 200]"]
  by auto

text \<open>\<open>lib_atoi\<close> returns on every string of blanks, an optional sign and decimal
  digits followed by anything else, with the signed value of the digits modulo \<open>2^32\<close>.\<close>

theorem atoi_correct:
  assumes "s \<noteq> 0" "cstr m s (sp @ sg @ ds @ rest)"
    and "\<forall>c\<in>set sp. c = 32 \<or> c = 9 \<or> c = 10"
    and "sg = [] \<or> sg = [43] \<or> sg = [45]"
    and "ds \<noteq> []" "\<forall>c\<in>set ds. 48 \<le> c \<and> c \<le> 57"
    and "rest = [] \<or> hd rest < 48 \<or> 57 < hd rest"
  shows "lib_atoi m s = Some (if sg = [45] then - of_nat (dec_value ds) else of_nat (dec_value ds))"
proof -
  let ?p = "s + of_nat (length sp)" and ?q = "s + of_nat (length sp) + of_nat (length sg)"
  have hd: "48 \<le> hd ds" "hd ds \<le> 57" using assms(5,6) by (cases ds; simp)+
  have nsp: "c \<noteq> 32 \<and> c \<noteq> 9 \<and> c \<noteq> 10 \<and> c \<noteq> 45 \<and> c \<noteq> 43" if "48 \<le> c" for c :: u8
    using that by auto
  have "atoi_skip m s = Some ?p"
    using assms(4,5) hd nsp [OF hd(1)]
    by (intro atoi_skip_cstr [OF assms(2,3)]) (cases ds; auto split: list.splits)
  moreover have c: "cstr m ?p (sg @ ds @ rest)"
    using cstr_drop [OF assms(2), of "length sp"] by simp
  moreover have "cstr m ?q (ds @ rest)"
    using cstr_drop [OF c, of "length sg"] by simp
  then have "atoi_digits m ?q 0 = Some (of_nat (dec_value ds))"
    using atoi_digits_cstr [of m ?q ds rest 0] assms(6,7)
    by (cases rest; auto simp: dec_value_def not_le)
  moreover have "m ?p = hd (sg @ ds)" using c assms(4,5) by (cases ds) auto
  ultimately show ?thesis
    using assms(1,4,5) nsp [OF hd(1)] by (auto simp: lib_atoi_def)
qed

theorem atoi_correct_witness:
  "lib_atoi ((\<lambda>_. 0)(8 := 32, 9 := 45, 10 := 52, 11 := 50, 12 := 120)) 8 = Some (- 42)"
  using atoi_correct [of 8 "(\<lambda>_. 0)(8 := 32, 9 := 45, 10 := 52, 11 := 50, 12 := 120)"
      "[32]" "[45]" "[52, 50]" "[120]"]
  by (simp add: dec_value_def)

end
