(* ===== verification/Kheap.thy ===== *)
theory Kheap
  imports Lib_String
begin

text \<open>
  The kernel heap of \<^verbatim>\<open>src/xnu_memory.c\<close>: a first-fit allocator over a static 4 MB buffer.
  Block headers live in the buffer itself, in the flat memory, and are chained by
  address; the record \<open>kheap\<close> holds that memory and the static variables of the file.
  The link-time address of the buffer \<open>kernel_heap\<close> is the argument \<open>kh\<close>. A taken spin
  lock is never released by anyone else here, so \<open>spin_lock\<close> on it is \<open>None\<close> (it spins
  forever), as is every list walk that does not end. Messages to the serial port are
  not part of the model.

  The abstract view is the list of blocks \<open>(size, free)\<close> that tile the buffer. The
  lemmas show that each operation refines an operation on that list, that payloads of
  allocated blocks are kept, and that allocation and release are inverse.
\<close>

section \<open>Spin locks\<close>

definition spin_lock :: "u32 \<Rightarrow> u32 option" where
  "spin_lock l = (if l \<noteq> 0 then None else Some 1)"

definition spin_unlock :: "u32 \<Rightarrow> u32" where
  "spin_unlock l = 0"

section \<open>Block headers\<close>

abbreviation KERNEL_HEAP_SIZE :: u32 where "KERNEL_HEAP_SIZE \<equiv> 0x00400000"
abbreviation KHEAP_CANARY :: u32 where "KHEAP_CANARY \<equiv> 0x48454150"
abbreviation KHEAP_ALIGN :: u32 where "KHEAP_ALIGN \<equiv> 8"
abbreviation KHEAP_MIN_SPLIT :: u32 where "KHEAP_MIN_SPLIT \<equiv> 16"
abbreviation sizeof_header :: u32 where "sizeof_header \<equiv> 16"

text \<open>
  The fields of a \<open>block_header_t\<close> at an address: \<open>size\<close> at offset 0, \<open>canary\<close> at 4,
  the byte \<open>free\<close> at 8, three bytes of padding, and \<open>next\<close> at 12.
\<close>

definition hdr_size :: "mem \<Rightarrow> u32 \<Rightarrow> u32" where "hdr_size m b = rd32 m b"
definition hdr_canary :: "mem \<Rightarrow> u32 \<Rightarrow> u32" where "hdr_canary m b = rd32 m (b + 4)"
definition hdr_free :: "mem \<Rightarrow> u32 \<Rightarrow> u8" where "hdr_free m b = m (b + 8)"
definition hdr_next :: "mem \<Rightarrow> u32 \<Rightarrow> u32" where "hdr_next m b = rd32 m (b + 12)"

definition set_size :: "u32 \<Rightarrow> u32 \<Rightarrow> mem \<Rightarrow> mem" where "set_size b v m = wr32 m b v"
definition set_canary :: "u32 \<Rightarrow> u32 \<Rightarrow> mem \<Rightarrow> mem" where "set_canary b v m = wr32 m (b + 4) v"
definition set_free :: "u32 \<Rightarrow> u8 \<Rightarrow> mem \<Rightarrow> mem" where "set_free b v m = m(b + 8 := v)"
definition set_next :: "u32 \<Rightarrow> u32 \<Rightarrow> mem \<Rightarrow> mem" where "set_next b v m = wr32 m (b + 12) v"

record kheap =
  kmem :: mem
  heap_head :: u32
  heap_initialized :: bool
  heap_lock :: u32
  heap_total_usable :: u32

text \<open>The statics as the loader leaves them, over arbitrary memory contents.\<close>

definition boot_heap :: "mem \<Rightarrow> kheap" where
  "boot_heap m = \<lparr>kmem = m, heap_head = 0, heap_initialized = False, heap_lock = 0, heap_total_usable = 0\<rparr>"

section \<open>Operations\<close>

definition align_up :: "u32 \<Rightarrow> u32 \<Rightarrow> u32" where
  "align_up v a = (if a = 0 then v else let mask = a - 1 in (v + mask) AND NOT mask)"

definition heap_init :: "u32 \<Rightarrow> kheap \<Rightarrow> kheap" where
  "heap_init kh h =
     (if heap_initialized h then h
      else let m = set_size kh (KERNEL_HEAP_SIZE - sizeof_header) (kmem h);
               m = set_canary kh KHEAP_CANARY m;
               m = set_free kh 1 m;
               m = set_next kh 0 m
           in h\<lparr>kmem := m, heap_head := kh, heap_total_usable := hdr_size m kh,
                heap_initialized := True\<rparr>)"

partial_function (option) kheap_check_loop :: "u32 \<Rightarrow> mem \<Rightarrow> u32 \<Rightarrow> int option" where
  "kheap_check_loop kh m cur =
     (if cur = 0 then Some 0
      else if hdr_canary m cur \<noteq> KHEAP_CANARY then Some (-1)
      else if cur < kh \<or> kh + KERNEL_HEAP_SIZE \<le> cur then Some (-1)
      else kheap_check_loop kh m (hdr_next m cur))"

definition kheap_check :: "u32 \<Rightarrow> kheap \<Rightarrow> int option" where
  "kheap_check kh h =
     (if \<not> heap_initialized h then Some 0 else kheap_check_loop kh (kmem h) (heap_head h))"

definition kheap_total :: "kheap \<Rightarrow> u32" where
  "kheap_total h = heap_total_usable h"

partial_function (option) kheap_used_loop :: "mem \<Rightarrow> u32 \<Rightarrow> u32 \<Rightarrow> u32 option" where
  "kheap_used_loop m cur used =
     (if cur = 0 then Some used
      else kheap_used_loop m (hdr_next m cur)
             (if hdr_free m cur = 0 then used + (hdr_size m cur + sizeof_header) else used))"

definition kheap_used :: "kheap \<Rightarrow> u32 option" where
  "kheap_used h =
     (if \<not> heap_initialized h then Some 0 else kheap_used_loop (kmem h) (heap_head h) 0)"

partial_function (option) kheap_free_loop :: "mem \<Rightarrow> u32 \<Rightarrow> u32 \<Rightarrow> u32 option" where
  "kheap_free_loop m cur freeb =
     (if cur = 0 then Some freeb
      else kheap_free_loop m (hdr_next m cur)
             (if hdr_free m cur \<noteq> 0 then freeb + hdr_size m cur else freeb))"

definition kheap_free :: "kheap \<Rightarrow> u32 option" where
  "kheap_free h =
     (if \<not> heap_initialized h then Some (KERNEL_HEAP_SIZE - sizeof_header)
      else kheap_free_loop (kmem h) (heap_head h) 0)"

partial_function (option) heap_coalesce :: "mem \<Rightarrow> u32 \<Rightarrow> mem option" where
  "heap_coalesce m cur =
     (if cur \<noteq> 0 \<and> hdr_next m cur \<noteq> 0 then
        let nxt = hdr_next m cur;
            cur_end = cur + sizeof_header + hdr_size m cur
        in if hdr_free m cur \<noteq> 0 \<and> hdr_free m nxt \<noteq> 0 \<and> cur_end = nxt then
             let m1 = set_size cur (hdr_size m cur + (sizeof_header + hdr_size m nxt)) m;
                 m2 = set_next cur (hdr_next m1 nxt) m1;
                 m3 = set_canary nxt 0 m2
             in heap_coalesce m3 cur
           else heap_coalesce m (hdr_next m cur)
      else Some m)"

text \<open>The list walk of \<open>kmalloc\<close>: the first free block that is large enough, or NULL.\<close>

partial_function (option) find_fit :: "mem \<Rightarrow> u32 \<Rightarrow> u32 \<Rightarrow> u32 option" where
  "find_fit m cur sz =
     (if cur = 0 then Some 0
      else if hdr_free m cur \<noteq> 0 \<and> sz \<le> hdr_size m cur then Some cur
      else find_fit m (hdr_next m cur) sz)"

definition take_block :: "u32 \<Rightarrow> u32 \<Rightarrow> mem \<Rightarrow> mem" where
  "take_block cur sz m =
     (let remaining = hdr_size m cur - sz;
          m = (if sizeof_header + KHEAP_MIN_SPLIT \<le> remaining then
                 let newb = cur + sizeof_header + sz;
                     m = set_size newb (remaining - sizeof_header) m;
                     m = set_canary newb KHEAP_CANARY m;
                     m = set_free newb 1 m;
                     m = set_next newb (hdr_next m cur) m;
                     m = set_size cur sz m
                 in set_next cur newb m
               else m);
          m = set_free cur 0 m
      in set_canary cur KHEAP_CANARY m)"

definition kmalloc :: "u32 \<Rightarrow> u32 \<Rightarrow> kheap \<Rightarrow> (u32 \<times> kheap) option" where
  "kmalloc kh sz h =
     (if sz = 0 then Some (0, h)
      else do {
        let h = (if heap_initialized h then h else heap_init kh h);
        let sz = align_up sz KHEAP_ALIGN;
        l \<leftarrow> spin_lock (heap_lock h);
        cur \<leftarrow> find_fit (kmem h) (heap_head h) sz;
        if cur = 0 then Some (0, h\<lparr>heap_lock := spin_unlock l\<rparr>)
        else Some (cur + sizeof_header,
                   h\<lparr>kmem := take_block cur sz (kmem h), heap_lock := spin_unlock l\<rparr>)
      })"

text \<open>The list walk of \<open>kfree\<close>: the candidate header if it is in the list, or NULL.\<close>

partial_function (option) find_block :: "mem \<Rightarrow> u32 \<Rightarrow> u32 \<Rightarrow> u32 option" where
  "find_block m it cand =
     (if it = 0 then Some 0 else if it = cand then Some it else find_block m (hdr_next m it) cand)"

text \<open>
  The checks \<open>kfree\<close> makes on a possible payload pointer \<open>p\<close>, in both of its places: \<open>p\<close> is
  past the first header and in the heap, its header lies in the heap, carries the
  canary and is in the list. The result is the header, or NULL.
\<close>

definition check_payload :: "u32 \<Rightarrow> kheap \<Rightarrow> u32 \<Rightarrow> u32 option" where
  "check_payload kh h p =
     (let heap_end = kh + KERNEL_HEAP_SIZE;
          cand = p - sizeof_header
      in if kh + sizeof_header \<le> p \<and> p < heap_end
            \<and> kh \<le> cand \<and> cand + sizeof_header \<le> heap_end
            \<and> hdr_canary (kmem h) cand = KHEAP_CANARY
         then do {
           it \<leftarrow> find_block (kmem h) (heap_head h) cand;
           Some (if it = cand then cand else 0)
         }
         else Some 0)"

text \<open>The release of the raw block of an aligned allocation.\<close>

definition release_raw :: "kheap \<Rightarrow> u32 \<Rightarrow> kheap option" where
  "release_raw h cand2 = do {
     l \<leftarrow> spin_lock (heap_lock h);
     if hdr_free (kmem h) cand2 \<noteq> 0 then Some (h\<lparr>heap_lock := spin_unlock l\<rparr>)
     else do {
       m \<leftarrow> heap_coalesce (set_free cand2 1 (kmem h)) (heap_head h);
       Some (h\<lparr>kmem := m, heap_lock := spin_unlock l\<rparr>)
     }
   }"

text \<open>The release of an ordinary block.\<close>

definition release_block :: "kheap \<Rightarrow> u32 \<Rightarrow> kheap option" where
  "release_block h hdr = do {
     l \<leftarrow> spin_lock (heap_lock h);
     if hdr_free (kmem h) hdr \<noteq> 0 then Some (h\<lparr>heap_lock := spin_unlock l\<rparr>)
     else if hdr_canary (kmem h) hdr \<noteq> KHEAP_CANARY then Some (h\<lparr>heap_lock := spin_unlock l\<rparr>)
     else do {
       m \<leftarrow> heap_coalesce (set_free hdr 1 (kmem h)) (heap_head h);
       Some (h\<lparr>kmem := m, heap_lock := spin_unlock l\<rparr>)
     }
   }"

definition kfree :: "u32 \<Rightarrow> u32 \<Rightarrow> kheap \<Rightarrow> kheap option" where
  "kfree kh p h =
     (if p = 0 then Some h
      else if \<not> heap_initialized h then Some h
      else do {
        hdr \<leftarrow> check_payload kh h p;
        if hdr = 0 then
          if kh \<le> p \<and> p < kh + KERNEL_HEAP_SIZE \<and> 4 \<le> p then do {
            let maybe_raw = rd32 (kmem h) (p - 4);
            cand2 \<leftarrow> check_payload kh h maybe_raw;
            if cand2 = 0 then Some h else release_raw h cand2
          }
          else Some h
        else release_block h hdr
      })"

definition kzalloc :: "u32 \<Rightarrow> u32 \<Rightarrow> kheap \<Rightarrow> (u32 \<times> kheap) option" where
  "kzalloc kh sz h = do {
     (ptr, h) \<leftarrow> kmalloc kh sz h;
     Some (ptr, if ptr \<noteq> 0 then h\<lparr>kmem := snd (lib_memset (kmem h) ptr 0 sz)\<rparr> else h)
   }"

partial_function (option) round_pow2 :: "u32 \<Rightarrow> u32 \<Rightarrow> u32 option" where
  "round_pow2 a align = (if a < align then round_pow2 (push_bit 1 a) align else Some a)"

definition kmalloc_aligned :: "u32 \<Rightarrow> u32 \<Rightarrow> u32 \<Rightarrow> kheap \<Rightarrow> (u32 \<times> kheap) option" where
  "kmalloc_aligned kh sz align h =
     (if sz = 0 then Some (0, h)
      else do {
        let align = (if align = 0 then KHEAP_ALIGN else align);
        align \<leftarrow> (if align AND (align - 1) \<noteq> 0 then round_pow2 1 align else Some align);
        if align \<le> KHEAP_ALIGN then kmalloc kh sz h
        else do {
          let extra = align - 1 + 4;
          (raw, h) \<leftarrow> kmalloc kh (sz + extra) h;
          if raw = 0 then Some (0, h)
          else do {
            let aligned = (raw + 4 + align - 1) AND NOT (align - 1);
            Some (aligned, h\<lparr>kmem := wr32 (kmem h) (aligned - 4) raw\<rparr>)
          }
        }
      })"

definition kfree_aligned :: "u32 \<Rightarrow> u32 \<Rightarrow> kheap \<Rightarrow> kheap option" where
  "kfree_aligned kh p h =
     (if p = 0 then Some h
      else let raw = rd32 (kmem h) (p - 4) in
        if raw < kh \<or> kh + KERNEL_HEAP_SIZE \<le> raw then kfree kh p h else kfree kh raw h)"

section \<open>Header accesses\<close>

lemmas hdr_defs = hdr_size_def hdr_canary_def hdr_free_def hdr_next_def
  set_size_def set_canary_def set_free_def set_next_def

lemma hdr_get_set [simp, mem_simps]:
  "hdr_size (set_size b v m) b = v" "hdr_size (set_canary b v m) b = hdr_size m b"
  "hdr_size (set_free b w m) b = hdr_size m b" "hdr_size (set_next b v m) b = hdr_size m b"
  "hdr_canary (set_size b v m) b = hdr_canary m b" "hdr_canary (set_canary b v m) b = v"
  "hdr_canary (set_free b w m) b = hdr_canary m b" "hdr_canary (set_next b v m) b = hdr_canary m b"
  "hdr_free (set_size b v m) b = hdr_free m b" "hdr_free (set_canary b v m) b = hdr_free m b"
  "hdr_free (set_free b w m) b = w" "hdr_free (set_next b v m) b = hdr_free m b"
  "hdr_next (set_size b v m) b = hdr_next m b" "hdr_next (set_canary b v m) b = hdr_next m b"
  "hdr_next (set_free b w m) b = hdr_next m b" "hdr_next (set_next b v m) b = v"
  by (simp_all add: hdr_defs rd32_wr32_apart wr32_other) (simp_all add: rd32_def)

lemma set_hdr_other:
  assumes "16 \<le> unat (x - b)"
  shows "set_size b v m x = m x" "set_canary b v m x = m x"
    "set_free b w m x = m x" "set_next b v m x = m x"
proof -
  have u: "unat (x - (b + of_nat k)) = unat (x - b) - k" if "k < 16" for k
  proof -
    have "of_nat k \<le> x - b" using assms that by (simp add: word_le_nat_alt)
    then show ?thesis using that unfolding diff_diff_eq [symmetric] by (simp add: unat_sub_no_wrap)
  qed
  from u [of 4] u [of 8] u [of 12] assms
  show "set_size b v m x = m x" "set_canary b v m x = m x" "set_next b v m x = m x"
    by (simp_all add: hdr_defs wr32_other)
  show "set_free b w m x = m x" using u [of 8] assms by (auto simp: hdr_defs)
qed

lemma hdr_cong:
  assumes "\<And>x. unat (x - b) < 16 \<Longrightarrow> m x = m' x"
  shows "hdr_size m b = hdr_size m' b" "hdr_canary m b = hdr_canary m' b"
    "hdr_free m b = hdr_free m' b" "hdr_next m b = hdr_next m' b"
proof -
  have b: "m (b + of_nat k) = m' (b + of_nat k)" if "k < 16" for k
    using that by (intro assms) simp
  show "hdr_size m b = hdr_size m' b"
    using b [of 0] b [of 1] b [of 2] b [of 3] by (auto simp: hdr_defs intro!: rd32_cong)
  show "hdr_canary m b = hdr_canary m' b"
    using b [of 4] b [of 5] b [of 6] b [of 7] by (auto simp: hdr_defs add.assoc intro!: rd32_cong)
  show "hdr_free m b = hdr_free m' b"
    using b [of 8] by (simp add: hdr_defs)
  show "hdr_next m b = hdr_next m' b"
    using b [of 12] b [of 13] b [of 14] b [of 15] by (auto simp: hdr_defs add.assoc intro!: rd32_cong)
qed

lemma unat_off_less:
  assumes "a + n \<le> 4294967296"
  shows "unat (x - of_nat a :: u32) < n \<longleftrightarrow> a \<le> unat x \<and> unat x < a + n"
proof (cases "a < 4294967296")
  case True
  then have "unat (x - of_nat a) = (if a \<le> unat x then unat x - a else unat x + 4294967296 - a)"
    by (simp add: unat_sub_if')
  then show ?thesis using assms by auto
qed (use assms unat_less_2p32 [of x] in \<open>auto simp del: unat_less_2p32\<close>)

lemma apart_region:
  assumes "n \<le> unat (b - a :: u32)" "n \<le> unat (a - b)" "unat (x - b) < n"
  shows "n \<le> unat (x - a)"
proof (rule ccontr)
  assume "\<not> ?thesis"
  then have j: "unat (x - a) < n" by simp
  show False
  proof (cases "x - b \<le> x - a")
    case True
    then have "unat ((x - a) - (x - b)) = unat (x - a) - unat (x - b)" by (rule unat_sub_no_wrap)
    then show False using assms(1) j by simp
  next
    case False
    then have "unat ((x - b) - (x - a)) = unat (x - b) - unat (x - a)"
      by (intro unat_sub_no_wrap) simp
    then show False using assms by simp
  qed
qed

lemma hdr_get_set_apart:
  assumes "16 \<le> unat (b - c)" "16 \<le> unat (c - b)"
  shows "hdr_size (set_size c v m) b = hdr_size m b" "hdr_size (set_canary c v m) b = hdr_size m b"
    "hdr_size (set_free c w m) b = hdr_size m b" "hdr_size (set_next c v m) b = hdr_size m b"
    "hdr_canary (set_size c v m) b = hdr_canary m b" "hdr_canary (set_canary c v m) b = hdr_canary m b"
    "hdr_canary (set_free c w m) b = hdr_canary m b" "hdr_canary (set_next c v m) b = hdr_canary m b"
    "hdr_free (set_size c v m) b = hdr_free m b" "hdr_free (set_canary c v m) b = hdr_free m b"
    "hdr_free (set_free c w m) b = hdr_free m b" "hdr_free (set_next c v m) b = hdr_free m b"
    "hdr_next (set_size c v m) b = hdr_next m b" "hdr_next (set_canary c v m) b = hdr_next m b"
    "hdr_next (set_free c w m) b = hdr_next m b" "hdr_next (set_next c v m) b = hdr_next m b"
  by (rule hdr_cong; simp add: set_hdr_other apart_region [OF assms])+

lemma apart16_nat:
  assumes "a + 16 \<le> b" "b + 16 \<le> 4294967296"
  shows "16 \<le> unat (of_nat b - of_nat a :: u32)" "16 \<le> unat (of_nat a - of_nat b :: u32)"
  using assms by (simp_all add: unat_sub_if')

section \<open>The abstract heap\<close>

text \<open>A block is its payload size and whether it is free; the heap is the list of its blocks.\<close>

type_synonym block = "nat \<times> bool"

text \<open>The address after the blocks of a list that starts at \<open>a\<close>, and the addresses of their headers.\<close>

primrec blocks_end :: "nat \<Rightarrow> block list \<Rightarrow> nat" where
  "blocks_end a [] = a"
| "blocks_end a (b # bs) = blocks_end (a + 16 + fst b) bs"

primrec hdrs :: "nat \<Rightarrow> block list \<Rightarrow> nat set" where
  "hdrs a [] = {}"
| "hdrs a (b # bs) = {a..<a + 16} \<union> hdrs (a + 16 + fst b) bs"

definition hdr_rep :: "mem \<Rightarrow> nat \<Rightarrow> block \<Rightarrow> u32 \<Rightarrow> bool" where
  "hdr_rep m a b nxt \<longleftrightarrow> hdr_size m (of_nat a) = of_nat (fst b) \<and> hdr_canary m (of_nat a) = KHEAP_CANARY
     \<and> hdr_free m (of_nat a) = (if snd b then 1 else 0) \<and> hdr_next m (of_nat a) = nxt"

primrec blocks_at :: "mem \<Rightarrow> nat \<Rightarrow> block list \<Rightarrow> bool" where
  "blocks_at m a [] = True"
| "blocks_at m a (b # bs) =
     (hdr_rep m a b (if bs = [] then 0 else of_nat (a + 16 + fst b)) \<and> blocks_at m (a + 16 + fst b) bs)"

text \<open>First fit with splitting: the offset of the block and the new list.\<close>

fun a_alloc :: "nat \<Rightarrow> block list \<Rightarrow> (nat \<times> block list) option" where
  "a_alloc n [] = None"
| "a_alloc n (b # bs) =
     (if snd b \<and> n \<le> fst b then
        Some (0, if 32 \<le> fst b - n then (n, False) # (fst b - n - 16, True) # bs
                 else (fst b, False) # bs)
      else map_option (\<lambda>(ofs, bs'). (16 + fst b + ofs, b # bs')) (a_alloc n bs))"

fun a_coalesce :: "block list \<Rightarrow> block list" where
  "a_coalesce (b1 # b2 # bs) =
     (if snd b1 \<and> snd b2 then a_coalesce ((fst b1 + 16 + fst b2, True) # bs)
      else b1 # a_coalesce (b2 # bs))"
| "a_coalesce bs = bs"

text \<open>The block whose header is at an offset, and releasing it.\<close>

primrec a_at :: "nat \<Rightarrow> block list \<Rightarrow> block option" where
  "a_at ofs [] = None"
| "a_at ofs (b # bs) =
     (if ofs = 0 then Some b else if ofs < 16 + fst b then None else a_at (ofs - (16 + fst b)) bs)"

primrec a_mark :: "nat \<Rightarrow> block list \<Rightarrow> block list" where
  "a_mark ofs [] = []"
| "a_mark ofs (b # bs) =
     (if ofs = 0 then (fst b, True) # bs else b # a_mark (ofs - (16 + fst b)) bs)"

lemma blocks_end_ge: "a + 16 * length bs \<le> blocks_end a bs"
proof (induction bs arbitrary: a)
  case (Cons b bs)
  show ?case using Cons.IH [of "a + 16 + fst b"] by simp
qed simp

lemma blocks_end_start: "a \<le> blocks_end a bs"
  using blocks_end_ge [of a bs] by simp

lemma hdrs_bounds: "x \<in> hdrs a bs \<Longrightarrow> a \<le> x \<and> x < blocks_end a bs"
proof (induction bs arbitrary: a)
  case (Cons b bs)
  then show ?case using blocks_end_start [of "a + 16 + fst b" bs] by (auto dest!: Cons.IH)
qed simp

lemma hdr_rep_cong:
  assumes "\<And>x. a \<le> unat x \<Longrightarrow> unat x < a + 16 \<Longrightarrow> m x = m' x" "a + 16 \<le> 4294967296"
  shows "hdr_rep m a b nxt = hdr_rep m' a b nxt"
proof -
  have "m x = m' x" if "unat (x - of_nat a) < 16" for x
    using assms that by (simp add: unat_off_less)
  note c = hdr_cong [of "of_nat a" m m', OF this]
  show ?thesis unfolding hdr_rep_def using c by simp
qed

lemma blocks_at_cong:
  "(\<And>x. unat x \<in> hdrs a bs \<Longrightarrow> m x = m' x) \<Longrightarrow> blocks_end a bs \<le> 4294967296 \<Longrightarrow>
    blocks_at m a bs = blocks_at m' a bs"
proof (induction bs arbitrary: a)
  case (Cons b bs)
  have "a + 16 \<le> 4294967296" using Cons.prems(2) blocks_end_start [of "a + 16 + fst b" bs] by simp
  then have "hdr_rep m a b nxt = hdr_rep m' a b nxt" for nxt
    using Cons.prems(1) by (intro hdr_rep_cong) auto
  moreover have "blocks_at m (a + 16 + fst b) bs = blocks_at m' (a + 16 + fst b) bs"
    using Cons.prems by (intro Cons.IH) auto
  ultimately show ?case by simp
qed simp

lemma a_alloc_end: "a_alloc n bs = Some (ofs, bs') \<Longrightarrow> blocks_end a bs' = blocks_end a bs"
proof (induction bs arbitrary: a ofs bs')
  case (Cons b bs)
  show ?case
  proof (cases "snd b \<and> n \<le> fst b")
    case True
    then show ?thesis using Cons.prems by (auto split: if_splits simp: add_ac)
  qed (use Cons in \<open>auto split: if_splits\<close>)
qed simp

lemma a_alloc_nonempty: "a_alloc n bs = Some (ofs, bs') \<Longrightarrow> bs \<noteq> [] \<and> bs' \<noteq> []"
  by (cases bs) (auto split: if_splits)

lemma take_block_frame:
  assumes "16 \<le> unat (x - cur)"
    and "32 \<le> hdr_size m cur - n \<Longrightarrow> 16 \<le> unat (x - (cur + 16 + n))"
  shows "take_block cur n m x = m x"
  using assms by (auto simp: take_block_def Let_def set_hdr_other)

text \<open>Taking the first block of a list.\<close>

lemma take_block_head:
  assumes "blocks_at m a (b # bs)" "snd b" "unat n \<le> fst b" "blocks_end a (b # bs) < 4294967296"
  shows "blocks_at (take_block (of_nat a) n m) a
    (if 32 \<le> fst b - unat n then (unat n, False) # (fst b - unat n - 16, True) # bs else (fst b, False) # bs)"
proof -
  let ?A = "of_nat a :: u32" and ?c = "a + 16 + fst b"
  have e: "?c < 4294967296" using assms(4) blocks_end_start [of ?c bs] by simp
  have sz: "hdr_size m ?A = of_nat (fst b)" "hdr_next m ?A = (if bs = [] then 0 else of_nat ?c)"
    "blocks_at m ?c bs"
    using assms(1) by (simp_all add: hdr_rep_def)
  have rem: "of_nat (fst b) - n = of_nat (fst b - unat n)" using assms(3) by (simp add: of_nat_diff)
  have cond: "32 \<le> (of_nat (fst b) - n) \<longleftrightarrow> 32 \<le> fst b - unat n"
    unfolding rem using e by (simp add: word_le_nat_alt)
  have rest: "blocks_at (take_block ?A n m) ?c bs"
  proof -
    have "take_block ?A n m x = m x" if "unat x \<in> hdrs ?c bs" for x
    proof -
      have x: "?c \<le> unat x" using hdrs_bounds [OF that] by simp
      show ?thesis
      proof (rule take_block_frame)
        show "16 \<le> unat (x - ?A)" using x e unat_off_less [of a 16 x] by simp
        assume "32 \<le> hdr_size m ?A - n"
        then have "32 \<le> fst b - unat n" using sz cond by simp
        then have "a + 16 + unat n + 16 \<le> ?c" by arith
        then show "16 \<le> unat (x - (?A + 16 + n))"
          using x e unat_off_less [of "a + 16 + unat n" 16 x] by simp
      qed
    qed
    then show ?thesis using blocks_at_cong [of ?c bs "take_block ?A n m" m] sz(3) assms(4) by auto
  qed
  show ?thesis
  proof (cases "32 \<le> fst b - unat n")
    case True
    let ?N = "?A + 16 + n"
    have N: "?N = of_nat (a + 16 + unat n)" by simp
    have ap: "16 \<le> unat (?N - ?A)" "16 \<le> unat (?A - ?N)"
      using apart16_nat [of a "a + 16 + unat n"] True e unfolding N by simp_all
    have "of_nat (fst b) - n - 16 = (of_nat (fst b - unat n - 16) :: u32)"
      unfolding rem using True by (simp add: of_nat_diff)
    then show ?thesis
      using True cond rest ap sz by (auto simp: take_block_def Let_def hdr_rep_def hdr_get_set_apart add.assoc)
  next
    case False
    then show ?thesis using cond rest sz by (auto simp: take_block_def Let_def hdr_rep_def)
  qed
qed

section \<open>kmalloc refines first fit\<close>

lemma take_block_head_frame:
  assumes "blocks_at m a (b # bs)" "unat n \<le> fst b" "blocks_end a (b # bs) < 4294967296"
    and "unat x \<notin> hdrs a (if 32 \<le> fst b - unat n then (unat n, False) # (fst b - unat n - 16, True) # bs
                      else (fst b, False) # bs)"
  shows "take_block (of_nat a) n m x = m x"
proof (rule take_block_frame)
  let ?c = "a + 16 + fst b"
  have e: "?c < 4294967296" using assms(3) blocks_end_start [of ?c bs] by simp
  have sz: "hdr_size m (of_nat a) = of_nat (fst b)" using assms(1) by (simp add: hdr_rep_def)
  have rem: "of_nat (fst b) - n = of_nat (fst b - unat n)" using assms(2) by (simp add: of_nat_diff)
  show "16 \<le> unat (x - of_nat a)"
    using assms(4) e unat_off_less [of a 16 x] by (auto split: if_splits)
  assume "32 \<le> hdr_size m (of_nat a) - n"
  then have "32 \<le> fst b - unat n" unfolding sz rem using e by (simp add: word_le_nat_alt)
  moreover from this have "a + 16 + unat n + 16 \<le> ?c" by arith
  ultimately show "16 \<le> unat (x - (of_nat a + 16 + n))"
    using assms(4) e unat_off_less [of "a + 16 + unat n" 16 x] by auto
qed

lemma find_fit_abs:
  assumes "blocks_at m a bs" "bs \<noteq> []" "0 < a" "blocks_end a bs < 4294967296"
  shows "find_fit m (of_nat a) n =
    Some (case a_alloc (unat n) bs of None \<Rightarrow> 0 | Some (ofs, _) \<Rightarrow> of_nat (a + ofs))"
  using assms
proof (induction bs arbitrary: a)
  case (Cons b bs)
  let ?c = "a + 16 + fst b"
  have e: "?c < 4294967296" using Cons.prems(4) blocks_end_start [of ?c bs] by simp
  have h: "hdr_size m (of_nat a) = of_nat (fst b)" "hdr_free m (of_nat a) = (if snd b then 1 else 0)"
    "hdr_next m (of_nat a) = (if bs = [] then 0 else of_nat ?c)" "blocks_at m ?c bs"
    using Cons.prems(1) by (simp_all add: hdr_rep_def)
  have a0: "(of_nat a :: u32) \<noteq> 0" using Cons.prems(3) e of_nat_32_eq_iff [of a 0] by simp
  have fit: "n \<le> of_nat (fst b) \<longleftrightarrow> unat n \<le> fst b" using e by (simp add: word_le_nat_alt)
  show ?case
  proof (cases "snd b \<and> unat n \<le> fst b")
    case True
    then show ?thesis using a0 h fit by (subst find_fit.simps) simp
  next
    case False
    have "find_fit m (of_nat a) n = find_fit m (if bs = [] then 0 else of_nat ?c) n"
      using False a0 h fit by (subst find_fit.simps) auto
    also have "\<dots> = Some (case a_alloc (unat n) bs of None \<Rightarrow> 0 | Some (ofs, _) \<Rightarrow> of_nat (?c + ofs))"
    proof (cases "bs = []")
      case True
      then show ?thesis by (subst find_fit.simps) simp
    next
      case bs: False
      then show ?thesis using Cons.IH [OF h(4) bs] Cons.prems(4) by simp
    qed
    finally show ?thesis using False by (auto split: option.splits simp: add_ac)
  qed
qed simp

lemma take_block_abs:
  assumes "blocks_at m a bs" "a_alloc (unat n) bs = Some (ofs, bs')" "blocks_end a bs < 4294967296"
  shows "blocks_at (take_block (of_nat (a + ofs)) n m) a bs' \<and>
    (\<forall>x. unat x \<notin> hdrs a bs' \<longrightarrow> take_block (of_nat (a + ofs)) n m x = m x)"
  using assms
proof (induction bs arbitrary: a ofs bs')
  case (Cons b bs)
  let ?c = "a + 16 + fst b"
  have e: "?c < 4294967296" using Cons.prems(3) blocks_end_start [of ?c bs] by simp
  show ?case
  proof (cases "snd b \<and> unat n \<le> fst b")
    case True
    then show ?thesis
      using take_block_head [of m a b bs n] take_block_head_frame [of m a b bs n] Cons.prems
      by (simp split: if_splits del: blocks_at.simps hdrs.simps)
  next
    case False
    then obtain o1 bs1 where al: "a_alloc (unat n) bs = Some (o1, bs1)" and o: "ofs = 16 + fst b + o1" "bs' = b # bs1"
      using Cons.prems(2) by (auto split: if_splits)
    have p: "of_nat (a + ofs) = (of_nat (?c + o1) :: u32)" by (simp add: o add_ac)
    have IH: "blocks_at (take_block (of_nat (a + ofs)) n m) ?c bs1"
      "\<forall>x. unat x \<notin> hdrs ?c bs1 \<longrightarrow> take_block (of_nat (a + ofs)) n m x = m x"
      unfolding p using Cons.IH [OF _ al, of ?c] Cons.prems by simp_all
    have "take_block (of_nat (a + ofs)) n m x = m x" if "unat x < a + 16" for x
      using IH(2) hdrs_bounds [of "unat x" ?c bs1] that by (metis add_leD1 linorder_not_le)
    then have "hdr_rep (take_block (of_nat (a + ofs)) n m) a b nxt = hdr_rep m a b nxt" for nxt
      using e by (intro hdr_rep_cong) auto
    then show ?thesis
      using Cons.prems(1) IH a_alloc_nonempty [OF al] by (simp add: o)
  qed
qed simp

text \<open>Payload sizes are positive multiples of 8.\<close>

definition block_ok :: "block \<Rightarrow> bool" where
  "block_ok b \<longleftrightarrow> 0 < fst b \<and> 8 dvd fst b"

text \<open>The heap in memory, with its lock free, whose blocks are \<open>bs\<close>.\<close>

definition heap_rep :: "u32 \<Rightarrow> kheap \<Rightarrow> block list \<Rightarrow> bool" where
  "heap_rep kh h bs \<longleftrightarrow> kh \<noteq> 0 \<and> unat kh + 0x400000 < 4294967296 \<and> heap_initialized h
     \<and> heap_lock h = 0 \<and> heap_head h = kh \<and> heap_total_usable h = KERNEL_HEAP_SIZE - sizeof_header
     \<and> bs \<noteq> [] \<and> blocks_end (unat kh) bs = unat kh + 0x400000 \<and> (\<forall>b\<in>set bs. block_ok b)
     \<and> blocks_at (kmem h) (unat kh) bs"

lemma heap_init_rep:
  assumes "kh \<noteq> 0" "unat kh + 0x400000 < 4294967296" "heap_lock h = 0" "\<not> heap_initialized h"
  shows "heap_rep kh (heap_init kh h) [(0x3FFFF0, True)]"
  using assms by (simp add: heap_rep_def heap_init_def Let_def hdr_rep_def block_ok_def)

lemma unat_and_not_mask:
  assumes "k < 32"
  shows "unat (x AND NOT (2 ^ k - 1) :: u32) = unat x div 2 ^ k * 2 ^ k"
proof -
  have "x AND NOT (mask k) = push_bit k (drop_bit k x)"
    by (rule bit_word_eqI) (auto simp: bit_simps)
  then have "unat (x AND NOT (2 ^ k - 1)) = unat (push_bit k (drop_bit k x))"
    by (simp add: mask_eq_exp_minus_1)
  also have "\<dots> = take_bit 32 (unat x div 2 ^ k * 2 ^ k)"
  proof -
    have "take_bit 32 (unat x) = unat x" by (simp add: take_bit_nat_eq_self_iff)
    then show ?thesis
      by (simp only: unsigned_push_bit_eq unsigned_drop_bit_eq) (simp add: push_bit_eq_mult drop_bit_eq_div)
  qed
  also have "\<dots> = unat x div 2 ^ k * 2 ^ k"
    using unat_less_2p32 [of x] by (simp add: take_bit_nat_eq_self_iff del: unat_less_2p32)
      (metis div_times_less_eq_dividend order_le_less_trans)
  finally show ?thesis .
qed

lemma align_up_8:
  assumes "unat v \<le> 4294967288"
  shows "unat (align_up v 8) = (unat v + 7) div 8 * 8"
proof -
  have "unat (v + 7) = unat v + 7" using assms by (simp add: unat_add_no_wrap)
  then show ?thesis using unat_and_not_mask [of 3 "v + 7"] by (simp add: align_up_def)
qed

lemma a_alloc_ok:
  assumes "a_alloc n bs = Some (ofs, bs')" "block_ok (n, False)" "\<forall>b\<in>set bs. block_ok b"
  shows "\<forall>b\<in>set bs'. block_ok b"
  using assms
proof (induction bs arbitrary: ofs bs')
  case (Cons b bs)
  show ?case
  proof (cases "snd b \<and> n \<le> fst b")
    case True
    have "block_ok (fst b - n - 16, True)" if "32 \<le> fst b - n"
      using that Cons.prems(2,3) by (auto simp: block_ok_def intro!: dvd_diff_nat)
    moreover have "block_ok (fst b, False)" using Cons.prems(3) by (simp add: block_ok_def)
    ultimately show ?thesis using True Cons.prems by (auto split: if_splits)
  next
    case False
    then obtain o1 bs1 where "a_alloc n bs = Some (o1, bs1)" "bs' = b # bs1"
      using Cons.prems(1) by (auto split: if_splits)
    then show ?thesis using Cons.IH [of o1 bs1] Cons.prems by simp
  qed
qed simp

definition round8 :: "nat \<Rightarrow> nat" where
  "round8 n = (n + 7) div 8 * 8"

lemma round8_ok: "0 < n \<Longrightarrow> block_ok (round8 n, f)"
  by (simp add: block_ok_def round8_def div_greater_zero_iff)

lemma a_at_bound: "a_at ofs bs = Some b \<Longrightarrow> a + ofs + 16 + fst b \<le> blocks_end a bs"
proof (induction bs arbitrary: a ofs)
  case (Cons c bs)
  show ?case
  proof (cases "ofs = 0")
    case True
    then show ?thesis using Cons.prems blocks_end_start [of "a + 16 + fst c" bs] by simp
  next
    case False
    then show ?thesis
      using Cons.prems Cons.IH [of "ofs - (16 + fst c)" "a + 16 + fst c"] by (auto split: if_splits)
  qed
qed simp

lemma a_alloc_at:
  "a_alloc n bs = Some (ofs, bs') \<Longrightarrow> \<exists>s s'. a_at ofs bs = Some (s, True) \<and> n \<le> s
    \<and> a_at ofs bs' = Some (s', False) \<and> n \<le> s' \<and> s' < n + 32"
proof (induction bs arbitrary: ofs bs')
  case (Cons b bs)
  show ?case
  proof (cases "snd b \<and> n \<le> fst b")
    case True
    then show ?thesis using Cons.prems by (cases b) (auto split: if_splits)
  next
    case False
    then obtain o1 bs1 where "a_alloc n bs = Some (o1, bs1)" "ofs = 16 + fst b + o1" "bs' = b # bs1"
      using Cons.prems by (auto split: if_splits)
    then show ?thesis using Cons.IH [of o1 bs1] by auto
  qed
qed simp

lemma kmalloc_abs:
  assumes "heap_rep kh h bs" "sz \<noteq> 0" "unat sz \<le> 4294967288"
  shows "case a_alloc (round8 (unat sz)) bs of
      None \<Rightarrow> kmalloc kh sz h = Some (0, h)
    | Some (ofs, bs') \<Rightarrow> \<exists>m. kmalloc kh sz h = Some (of_nat (unat kh + ofs + 16), h\<lparr>kmem := m\<rparr>)
        \<and> heap_rep kh (h\<lparr>kmem := m\<rparr>) bs' \<and> (\<forall>x. unat x \<notin> hdrs (unat kh) bs' \<longrightarrow> m x = kmem h x)"
proof -
  let ?a = "unat kh" and ?n = "align_up sz 8"
  note R = assms(1) [unfolded heap_rep_def]
  have n: "unat ?n = round8 (unat sz)" using align_up_8 [OF assms(3)] by (simp add: round8_def)
  have a: "0 < ?a" "blocks_end ?a bs < 4294967296" "of_nat ?a = kh"
    using R by (simp_all add: unat_gt_0)
  note ff = find_fit_abs [of "kmem h" ?a bs ?n, unfolded n a(3)]
  show ?thesis
  proof (cases "a_alloc (round8 (unat sz)) bs")
    case None
    then show ?thesis using ff R a assms(2) by (simp add: kmalloc_def spin_lock_def spin_unlock_def)
  next
    case (Some r)
    obtain ofs bs' where r: "r = (ofs, bs')" by force
    let ?p = "of_nat (?a + ofs) :: u32"
    obtain s where "a_at ofs bs = Some (s, True)" using a_alloc_at [of _ bs ofs bs'] Some r by auto
    then have "?a + ofs + 16 \<le> blocks_end ?a bs" using a_at_bound [of ofs bs "(s, True)" ?a] by simp
    then have p0: "?p \<noteq> 0" using a of_nat_32_eq_iff [of "?a + ofs" 0] by simp
    let ?m = "take_block ?p ?n (kmem h)"
    note tb = take_block_abs [of "kmem h" ?a bs ?n ofs bs', unfolded n]
    have "kmalloc kh sz h = Some (of_nat (?a + ofs + 16), h\<lparr>kmem := ?m\<rparr>)"
      using ff R a assms(2) Some r p0 by (simp add: kmalloc_def spin_lock_def spin_unlock_def)
    moreover have "heap_rep kh (h\<lparr>kmem := ?m\<rparr>) bs'"
      using tb R Some r a a_alloc_ok [of _ bs ofs bs'] round8_ok [of "unat sz" False] assms(2) a_alloc_end [of _ bs ofs bs' ?a] a_alloc_nonempty [of _ bs ofs bs']
      by (simp add: heap_rep_def unat_gt_0)
    ultimately show ?thesis using tb R Some r a by auto
  qed
qed

section \<open>kfree refines release and coalescing\<close>

lemma merge_step:
  assumes "blocks_at m a (b1 # b2 # bs)" "snd b1" "snd b2" "blocks_end a (b1 # b2 # bs) < 4294967296"
  defines "A \<equiv> of_nat a :: u32" and "N \<equiv> of_nat (a + 16 + fst b1) :: u32"
  defines "m1 \<equiv> set_size A (hdr_size m A + (16 + hdr_size m N)) m"
  defines "m3 \<equiv> set_canary N 0 (set_next A (hdr_next m1 N) m1)"
  shows "blocks_at m3 a ((fst b1 + 16 + fst b2, True) # bs)
    \<and> (\<forall>x. unat x \<notin> hdrs a (b1 # b2 # bs) \<longrightarrow> m3 x = m x)"
proof -
  let ?n = "a + 16 + fst b1" and ?c = "a + 16 + fst b1 + 16 + fst b2"
  have e: "?c < 4294967296" using assms(4) blocks_end_start [of ?c bs] by simp
  have h: "hdr_size m A = of_nat (fst b1)" "hdr_canary m A = KHEAP_CANARY" "hdr_free m A = 1"
    "hdr_size m N = of_nat (fst b2)" "hdr_next m N = (if bs = [] then 0 else of_nat ?c)" "blocks_at m ?c bs"
    using assms(1-3) unfolding A_def N_def by (simp_all add: hdr_rep_def add_ac)
  have ap: "16 \<le> unat (N - A)" "16 \<le> unat (A - N)"
    using apart16_nat [of a ?n] e unfolding A_def N_def by simp_all
  have far: "m3 x = m x" if "unat x \<notin> {a..<a + 16}" "unat x \<notin> {?n..<?n + 16}" for x
  proof -
    have "16 \<le> unat (x - A)" "16 \<le> unat (x - N)"
      using that e unat_off_less [of a 16 x] unat_off_less [of ?n 16 x] unfolding A_def N_def by auto
    then show ?thesis by (simp add: m3_def m1_def set_hdr_other)
  qed
  have "m3 x = m x" if "unat x \<in> hdrs ?c bs" for x
    using hdrs_bounds [OF that] by (intro far) auto
  then have "blocks_at m3 ?c bs" using blocks_at_cong [of ?c bs m3 m] h(6) assms(4) by simp
  moreover have "hdr_rep m3 a (fst b1 + 16 + fst b2, True) (if bs = [] then 0 else of_nat ?c)"
    unfolding hdr_rep_def A_def [symmetric] using h ap by (simp add: m3_def m1_def hdr_get_set_apart add_ac)
  ultimately show ?thesis using far by (cases "bs = []") (simp_all add: add_ac)
qed

lemma heap_coalesce_abs:
  assumes "blocks_at m a bs" "bs \<noteq> []" "0 < a" "blocks_end a bs < 4294967296"
  shows "\<exists>m'. heap_coalesce m (of_nat a) = Some m' \<and> blocks_at m' a (a_coalesce bs)
    \<and> (\<forall>x. unat x \<notin> hdrs a bs \<longrightarrow> m' x = m x)"
  using assms
proof (induction bs arbitrary: m a rule: a_coalesce.induct [case_names more none one])
  case (more b1 b2 bs)
  let ?n = "a + 16 + fst b1"
  have e: "?n + 16 + fst b2 < 4294967296" using more(6) blocks_end_start [of "?n + 16 + fst b2" bs] by simp
  have nz: "(of_nat a :: u32) \<noteq> 0" "(of_nat ?n :: u32) \<noteq> 0"
    using e more(5) of_nat_32_eq_iff [of a 0] of_nat_32_eq_iff [of ?n 0] by simp_all
  have h: "hdr_size m (of_nat a) = of_nat (fst b1)" "hdr_next m (of_nat a) = of_nat ?n"
    "hdr_free m (of_nat a) = (if snd b1 then 1 else 0)" "hdr_free m (of_nat ?n) = (if snd b2 then 1 else 0)"
    using more(3) by (simp_all add: hdr_rep_def)
  show ?case
  proof (cases "snd b1 \<and> snd b2")
    case True
    define m1 where "m1 = set_size (of_nat a) (hdr_size m (of_nat a) + (16 + hdr_size m (of_nat ?n))) m"
    define m3 where "m3 = set_canary (of_nat ?n) 0 (set_next (of_nat a) (hdr_next m1 (of_nat ?n)) m1)"
    have st: "heap_coalesce m (of_nat a) = heap_coalesce m3 (of_nat a)"
      using True h nz by (subst heap_coalesce.simps) (simp add: Let_def m1_def m3_def)
    have ms: "blocks_at m3 a ((fst b1 + 16 + fst b2, True) # bs)"
      "\<forall>x. unat x \<notin> hdrs a (b1 # b2 # bs) \<longrightarrow> m3 x = m x"
      using merge_step [OF more(3) _ _ more(6)] True unfolding m1_def m3_def by blast+
    from more(1) [OF True ms(1)] more(5,6) obtain m' where "heap_coalesce m3 (of_nat a) = Some m'"
      "blocks_at m' a (a_coalesce ((fst b1 + 16 + fst b2, True) # bs))"
      "\<forall>x. unat x \<notin> hdrs a ((fst b1 + 16 + fst b2, True) # bs) \<longrightarrow> m' x = m3 x"
      by (auto simp: add_ac)
    then show ?thesis using ms st True by (auto simp: add_ac)
  next
    case False
    have "heap_coalesce m (of_nat a) = heap_coalesce m (of_nat ?n)"
      using False h nz by (subst heap_coalesce.simps) (auto simp: Let_def)
    moreover obtain m' where "heap_coalesce m (of_nat ?n) = Some m'"
      "blocks_at m' ?n (a_coalesce (b2 # bs))" "\<forall>x. unat x \<notin> hdrs ?n (b2 # bs) \<longrightarrow> m' x = m x"
      using more(2) [OF False, of m ?n] more(3,5,6) by (auto simp del: a_coalesce.simps)
    moreover have "hdr_rep m' a b1 nxt = hdr_rep m a b1 nxt" for nxt
    proof (rule hdr_rep_cong)
      fix x :: u32
      assume "unat x < a + 16"
      then have "unat x \<notin> hdrs ?n (b2 # bs)" using hdrs_bounds [of "unat x" ?n "b2 # bs"] by auto
      then show "m' x = m x" using calculation by blast
    qed (use e in simp)
    moreover have "a_coalesce (b2 # bs) \<noteq> []" by (induction "b2 # bs" arbitrary: b2 bs rule: a_coalesce.induct) auto
    ultimately show ?thesis using False more(3) by (auto simp del: hdrs.simps simp: hdrs.simps(2) [of a])
  qed
next
  case none
  then show ?case by simp
next
  case (one b)
  then have "heap_coalesce m (of_nat a) = Some m" by (subst heap_coalesce.simps) (simp add: hdr_rep_def)
  then show ?case using one by simp
qed


lemma a_mark_end: "a_at ofs bs \<noteq> None \<Longrightarrow> blocks_end a (a_mark ofs bs) = blocks_end a bs \<and> hdrs a (a_mark ofs bs) = hdrs a bs"
  by (induction bs arbitrary: a ofs) (auto split: if_splits)

lemma set_free_abs:
  assumes "blocks_at m a bs" "a_at ofs bs \<noteq> None" "blocks_end a bs < 4294967296"
  shows "blocks_at (set_free (of_nat (a + ofs)) 1 m) a (a_mark ofs bs)
    \<and> (\<forall>x. unat x \<notin> hdrs a bs \<longrightarrow> set_free (of_nat (a + ofs)) 1 m x = m x)"
  using assms
proof (induction bs arbitrary: a ofs)
  case (Cons b bs)
  let ?c = "a + 16 + fst b" and ?m = "set_free (of_nat (a + ofs)) 1 m"
  have e: "?c < 4294967296" using Cons.prems(3) blocks_end_start [of ?c bs] by simp
  show ?case
  proof (cases "ofs = 0")
    case True
    have far: "?m x = m x" if "unat x \<notin> {a..<a + 16}" for x
      using that e unat_off_less [of a 16 x] True by (auto simp: set_hdr_other)
    have "blocks_at ?m ?c bs = blocks_at m ?c bs"
      using Cons.prems(3) by (intro blocks_at_cong far) (auto dest: hdrs_bounds)
    then show ?thesis using Cons.prems(1) far True by (simp add: hdr_rep_def)
  next
    case False
    then have at: "a_at (ofs - (16 + fst b)) bs \<noteq> None" "16 + fst b \<le> ofs"
      using Cons.prems(2) by (auto split: if_splits)
    have p: "of_nat (a + ofs) = (of_nat (?c + (ofs - (16 + fst b))) :: u32)" using at(2) by simp
    have IH: "blocks_at ?m ?c (a_mark (ofs - (16 + fst b)) bs)"
      "\<forall>x. unat x \<notin> hdrs ?c bs \<longrightarrow> ?m x = m x"
      unfolding p using Cons.IH [of ?c "ofs - (16 + fst b)"] Cons.prems at by simp_all
    have "hdr_rep ?m a b nxt = hdr_rep m a b nxt" for nxt
    proof (rule hdr_rep_cong)
      fix x :: u32
      assume "unat x < a + 16"
      then have "unat x \<notin> hdrs ?c bs" using hdrs_bounds [of "unat x" ?c bs] by auto
      then show "?m x = m x" using IH(2) by blast
    qed (use e in simp)
    moreover have "a_mark (ofs - (16 + fst b)) bs = [] \<longleftrightarrow> bs = []" by (cases bs) auto
    ultimately show ?thesis using IH Cons.prems(1) False by simp
  qed
qed simp

lemma a_at_in: "a_at ofs bs = Some b \<Longrightarrow> b \<in> set bs"
  by (induction bs arbitrary: ofs) (auto split: if_splits)

lemma a_at_hdr: "blocks_at m a bs \<Longrightarrow> a_at ofs bs = Some b \<Longrightarrow> \<exists>nxt. hdr_rep m (a + ofs) b nxt"
proof (induction bs arbitrary: a ofs)
  case (Cons c bs)
  show ?case
  proof (cases "ofs = 0")
    case False
    then have "16 + fst c \<le> ofs" "a_at (ofs - (16 + fst c)) bs = Some b"
      using Cons.prems(2) by (auto split: if_splits)
    then show ?thesis using Cons.IH [of "a + 16 + fst c" "ofs - (16 + fst c)"] Cons.prems(1) by simp
  qed (use Cons.prems in auto)
qed simp

lemma find_block_abs:
  assumes "blocks_at m a bs" "bs \<noteq> []" "0 < a" "blocks_end a bs < 4294967296" "c < 4294967296"
  shows "find_block m (of_nat a) (of_nat c) = Some (if c < a \<or> a_at (c - a) bs = None then 0 else of_nat c)"
  using assms
proof (induction bs arbitrary: a)
  case (Cons b bs)
  let ?n = "a + 16 + fst b"
  have e: "?n < 4294967296" using Cons.prems(4) blocks_end_start [of ?n bs] by simp
  have nz: "(of_nat a :: u32) \<noteq> 0" using e Cons.prems(3) of_nat_32_eq_iff [of a 0] by simp
  have nxt: "hdr_next m (of_nat a) = (if bs = [] then 0 else of_nat ?n)" "blocks_at m ?n bs"
    using Cons.prems(1) by (simp_all add: hdr_rep_def)
  show ?case
  proof (cases "c = a")
    case True
    then show ?thesis using nz by (subst find_block.simps) simp
  next
    case False
    then have "(of_nat a :: u32) \<noteq> of_nat c" using e Cons.prems(5) by (simp add: of_nat_32_eq_iff)
    then have "find_block m (of_nat a) (of_nat c) = find_block m (if bs = [] then 0 else of_nat ?n) (of_nat c)"
      using nz nxt by (subst find_block.simps) simp
    also have "\<dots> = Some (if c < ?n \<or> a_at (c - ?n) bs = None then 0 else of_nat c)"
    proof (cases "bs = []")
      case True
      then show ?thesis by (subst find_block.simps) simp
    next
      case bs: False
      then show ?thesis using Cons.IH [OF nxt(2) bs _ _ Cons.prems(5)] Cons.prems(4) by simp
    qed
    also have "(c < ?n \<or> a_at (c - ?n) bs = None) \<longleftrightarrow> (c < a \<or> a_at (c - a) (b # bs) = None)"
    proof -
      have "c - a - (16 + fst b) = c - ?n" by simp
      then show ?thesis using False by auto
    qed
    finally show ?thesis .
  qed
qed simp

lemma check_payload_abs:
  assumes "heap_rep kh h bs"
  shows "check_payload kh h p =
    Some (if unat kh + 16 \<le> unat p \<and> a_at (unat p - 16 - unat kh) bs \<noteq> None then p - 16 else 0)"
proof -
  let ?a = "unat kh" and ?c = "unat p - 16"
  note R = assms [unfolded heap_rep_def]
  have a: "0 < ?a" "blocks_end ?a bs < 4294967296" "of_nat ?a = kh" using R by (simp_all add: unat_gt_0)
  have he: "unat (kh + KERNEL_HEAP_SIZE) = ?a + 4194304" "unat (kh + 16) = ?a + 16"
    using R by (simp_all add: unat_add_no_wrap)
  show ?thesis
  proof (cases "?a + 16 \<le> unat p")
    case True
    then have c: "unat (p - 16) = ?c" "of_nat ?c = p - 16"
      using unat_sub_no_wrap [of 16 p] by (simp_all add: word_le_nat_alt of_nat_diff)
    have fb: "find_block (kmem h) kh (p - 16) = Some (if a_at (?c - ?a) bs = None then 0 else p - 16)"
      using find_block_abs [of "kmem h" ?a bs ?c] R a c True unat_less_2p32 [of p] by (simp del: unat_less_2p32) linarith
    have "unat (p - 16) \<noteq> 0" unfolding c(1) using True a(1) by linarith
    then have nz: "p - 16 \<noteq> 0" by (metis unat_0)
    show ?thesis
    proof (cases "a_at (?c - ?a) bs")
      case None
      then show ?thesis using True R fb by (auto simp: check_payload_def Let_def)
    next
      case (Some b)
      have "?a + (?c - ?a) + 16 + fst b \<le> ?a + 4194304" using a_at_bound [OF Some, of ?a] R by simp
      moreover have "0 < fst b" using a_at_in [OF Some] R by (auto simp: block_ok_def)
      moreover have "hdr_canary (kmem h) (p - 16) = KHEAP_CANARY"
        using a_at_hdr [OF _ Some, of "kmem h" ?a] R c True by (auto simp: hdr_rep_def)
      ultimately show ?thesis using Some True R fb he c nz
        by (auto simp: check_payload_def Let_def word_le_nat_alt word_less_nat_alt)
    qed
  next
    case False
    then show ?thesis using he by (simp add: check_payload_def Let_def word_le_nat_alt)
  qed
qed


lemma a_coalesce_end: "blocks_end a (a_coalesce bs) = blocks_end a bs"
  by (induction bs arbitrary: a rule: a_coalesce.induct) (auto simp: add_ac)

lemma a_coalesce_ok: "\<forall>b\<in>set bs. block_ok b \<Longrightarrow> \<forall>b\<in>set (a_coalesce bs). block_ok b"
  by (induction bs rule: a_coalesce.induct) (auto simp: block_ok_def)

lemma a_coalesce_nonempty [simp]: "a_coalesce bs = [] \<longleftrightarrow> bs = []"
  by (induction bs rule: a_coalesce.induct) auto

lemma a_mark_ok: "\<forall>b\<in>set bs. block_ok b \<Longrightarrow> \<forall>b\<in>set (a_mark ofs bs). block_ok b"
proof (induction bs arbitrary: ofs)
  case (Cons b bs)
  have "block_ok (fst b, True)" using Cons.prems by (simp add: block_ok_def)
  then show ?case using Cons by simp
qed simp

lemma a_mark_nonempty [simp]: "a_mark ofs bs = [] \<longleftrightarrow> bs = []"
  by (cases bs) auto

definition a_free :: "nat \<Rightarrow> block list \<Rightarrow> block list" where
  "a_free ofs bs = a_coalesce (a_mark ofs bs)"

text \<open>Releasing the block whose header is at an offset, by either path of \<open>kfree\<close>.\<close>

lemma release_abs:
  assumes "heap_rep kh h bs" "a_at ofs bs = Some (s, False)"
  shows "\<exists>m. heap_coalesce (set_free (of_nat (unat kh + ofs)) 1 (kmem h)) (heap_head h) = Some m
    \<and> heap_rep kh (h\<lparr>kmem := m\<rparr>) (a_free ofs bs)
    \<and> (\<forall>x. unat x \<notin> hdrs (unat kh) bs \<longrightarrow> m x = kmem h x)"
proof -
  let ?a = "unat kh" and ?bs = "a_mark ofs bs"
  note R = assms(1) [unfolded heap_rep_def]
  have a: "0 < ?a" "blocks_end ?a bs < 4294967296" "of_nat ?a = kh" using R by (simp_all add: unat_gt_0)
  note me = a_mark_end [of ofs bs ?a]
  let ?m = "set_free (of_nat (?a + ofs)) 1 (kmem h)"
  have sf: "blocks_at ?m ?a ?bs" "\<forall>x. unat x \<notin> hdrs ?a bs \<longrightarrow> ?m x = kmem h x"
    using set_free_abs [of "kmem h" ?a bs ofs] R a assms(2) by simp_all
  from heap_coalesce_abs [OF sf(1)] me a R assms(2) obtain m where
    m: "heap_coalesce ?m kh = Some m" "blocks_at m ?a (a_coalesce ?bs)"
      "\<forall>x. unat x \<notin> hdrs ?a bs \<longrightarrow> m x = ?m x" by auto
  moreover have "heap_rep kh (h\<lparr>kmem := m\<rparr>) (a_free ofs bs)"
    using R m(2) me assms(2) a_coalesce_ok [OF a_mark_ok, of bs ofs]
    by (simp add: heap_rep_def a_free_def a_coalesce_end)
  ultimately show ?thesis using R sf by auto
qed

lemma a_at_hdr_free:
  assumes "heap_rep kh h bs" "a_at ofs bs = Some (s, f)"
  shows "hdr_free (kmem h) (of_nat (unat kh + ofs)) = (if f then 1 else 0)"
    "hdr_canary (kmem h) (of_nat (unat kh + ofs)) = KHEAP_CANARY"
    "hdr_size (kmem h) (of_nat (unat kh + ofs)) = of_nat s"
    "unat (of_nat (unat kh + ofs) :: u32) = unat kh + ofs" "unat kh + ofs + 16 + s \<le> unat kh + 0x400000"
proof -
  note R = assms(1) [unfolded heap_rep_def]
  from a_at_hdr [of "kmem h" "unat kh" bs ofs "(s, f)"] R assms(2)
  obtain nxt where "hdr_rep (kmem h) (unat kh + ofs) (s, f) nxt" by blast
  then show "hdr_free (kmem h) (of_nat (unat kh + ofs)) = (if f then 1 else 0)"
    "hdr_canary (kmem h) (of_nat (unat kh + ofs)) = KHEAP_CANARY"
    "hdr_size (kmem h) (of_nat (unat kh + ofs)) = of_nat s" by (simp_all add: hdr_rep_def)
  show b: "unat kh + ofs + 16 + s \<le> unat kh + 0x400000"
    using a_at_bound [OF assms(2), of "unat kh"] R by simp
  show "unat (of_nat (unat kh + ofs) :: u32) = unat kh + ofs"
    using b R by (intro unat_of_nat_32) simp
qed

lemma release_block_abs:
  assumes "heap_rep kh h bs" "a_at ofs bs = Some (s, f)"
  shows "if f then release_block h (of_nat (unat kh + ofs)) = Some h \<and> release_raw h (of_nat (unat kh + ofs)) = Some h
    else \<exists>m. release_block h (of_nat (unat kh + ofs)) = Some (h\<lparr>kmem := m\<rparr>)
        \<and> release_raw h (of_nat (unat kh + ofs)) = Some (h\<lparr>kmem := m\<rparr>)
        \<and> heap_rep kh (h\<lparr>kmem := m\<rparr>) (a_free ofs bs)
        \<and> (\<forall>x. unat x \<notin> hdrs (unat kh) bs \<longrightarrow> m x = kmem h x)"
proof -
  have l: "heap_lock h = 0" using assms(1) by (simp add: heap_rep_def)
  note hf = a_at_hdr_free [OF assms]
  show ?thesis
  proof (cases f)
    case True
    then show ?thesis using hf l by (simp add: release_block_def release_raw_def spin_lock_def spin_unlock_def)
  next
    case False
    from release_abs [OF assms(1), of ofs s] assms(2) False obtain m where
      "heap_coalesce (set_free (of_nat (unat kh + ofs)) 1 (kmem h)) (heap_head h) = Some m"
      "heap_rep kh (h\<lparr>kmem := m\<rparr>) (a_free ofs bs)"
      "\<forall>x. unat x \<notin> hdrs (unat kh) bs \<longrightarrow> m x = kmem h x" by auto
    moreover have "h\<lparr>kmem := m, heap_lock := 0\<rparr> = h\<lparr>kmem := m\<rparr>" using l by simp
    ultimately show ?thesis using hf l False
      by (auto intro!: exI [of _ m] simp: release_block_def release_raw_def spin_lock_def spin_unlock_def)
  qed
qed

text \<open>The pointer to the payload of the block at an offset.\<close>

definition payload :: "u32 \<Rightarrow> nat \<Rightarrow> u32" where
  "payload kh ofs = of_nat (unat kh + ofs + 16)"

lemma payload_props:
  assumes "heap_rep kh h bs" "a_at ofs bs = Some (s, f)"
  shows "unat (payload kh ofs) = unat kh + ofs + 16" "payload kh ofs \<noteq> 0"
    "payload kh ofs - 16 = of_nat (unat kh + ofs)" "0 < s"
proof -
  have b: "unat kh + ofs + 16 + s \<le> unat kh + 0x400000" "unat kh + 0x400000 < 4294967296"
    using a_at_hdr_free [OF assms] assms(1) by (simp_all add: heap_rep_def)
  then show u: "unat (payload kh ofs) = unat kh + ofs + 16" unfolding payload_def by (intro unat_of_nat_32) simp
  show "payload kh ofs \<noteq> 0" using u by auto
  show "payload kh ofs - 16 = of_nat (unat kh + ofs)" by (simp add: payload_def)
  show "0 < s" using a_at_in [OF assms(2)] assms(1) by (auto simp: heap_rep_def block_ok_def)
qed

lemma check_payload_hit:
  assumes "heap_rep kh h bs" "a_at ofs bs = Some (s, f)"
  shows "check_payload kh h (payload kh ofs) = Some (of_nat (unat kh + ofs))" "(of_nat (unat kh + ofs) :: u32) \<noteq> 0"
proof -
  note pp = payload_props [OF assms]
  show "check_payload kh h (payload kh ofs) = Some (of_nat (unat kh + ofs))"
    using check_payload_abs [OF assms(1), of "payload kh ofs"] assms(2) pp by simp
  have "0 < unat kh" using assms(1) by (simp add: heap_rep_def unat_gt_0)
  then show "(of_nat (unat kh + ofs) :: u32) \<noteq> 0" using a_at_hdr_free(4) [OF assms] by (metis add_gr_0 less_irrefl unat_0)
qed

lemma kfree_abs:
  assumes "heap_rep kh h bs" "a_at ofs bs = Some (s, f)"
  shows "kfree kh (payload kh ofs) h = release_block h (of_nat (unat kh + ofs))"
  using check_payload_hit [OF assms] payload_props [OF assms] assms(1)
  by (simp add: kfree_def heap_rep_def)

section \<open>The abstract heap: live blocks and coalescing\<close>

lemma a_at_payload_hdrs:
  "a_at ofs bs = Some (s, f) \<Longrightarrow> a + ofs + 16 \<le> x \<Longrightarrow> x < a + ofs + 16 + s \<Longrightarrow> x \<notin> hdrs a bs"
proof (induction bs arbitrary: a ofs)
  case (Cons b bs)
  let ?n = "a + 16 + fst b"
  show ?case
  proof (cases "ofs = 0")
    case True
    then have "x < ?n" "a + 16 \<le> x" using Cons.prems by auto
    then show ?thesis using hdrs_bounds [of x ?n bs] by auto
  next
    case False
    then have at: "16 + fst b \<le> ofs" "a_at (ofs - (16 + fst b)) bs = Some (s, f)"
      using Cons.prems(1) by (auto split: if_splits)
    then have "x \<notin> hdrs ?n bs" using Cons.IH [OF at(2), of ?n] Cons.prems by simp
    then show ?thesis using at(1) Cons.prems(2) by auto
  qed
qed simp

lemma a_at_disjoint:
  "a_at o1 bs = Some (s1, f1) \<Longrightarrow> a_at o2 bs = Some (s2, f2) \<Longrightarrow> o1 < o2 \<Longrightarrow> o1 + 16 + s1 \<le> o2"
proof (induction bs arbitrary: o1 o2)
  case (Cons b bs)
  have at2: "16 + fst b \<le> o2" "a_at (o2 - (16 + fst b)) bs = Some (s2, f2)"
    using Cons.prems by (auto split: if_splits)
  show ?case
  proof (cases "o1 = 0")
    case False
    then have at1: "16 + fst b \<le> o1" "a_at (o1 - (16 + fst b)) bs = Some (s1, f1)"
      using Cons.prems by (auto split: if_splits)
    moreover have "o1 - (16 + fst b) < o2 - (16 + fst b)" using at1(1) at2(1) Cons.prems(3) by linarith
    ultimately show ?thesis using Cons.IH [OF at1(2) at2(2)] at2(1) by linarith
  qed (use at2 Cons.prems in auto)
qed simp

text \<open>First fit changes the block it takes and no other allocated block.\<close>

lemma a_alloc_live:
  "a_alloc n bs = Some (ofs, bs') \<Longrightarrow>
   a_at p bs' = Some (s, False) \<longleftrightarrow> (if p = ofs then a_at ofs bs' = Some (s, False) else a_at p bs = Some (s, False))"
proof (induction bs arbitrary: p ofs bs')
  case (Cons b bs)
  show ?case
  proof (cases "snd b \<and> n \<le> fst b")
    case True
    then show ?thesis using Cons.prems by (cases b) (auto split: if_splits)
  next
    case False
    then obtain o1 bs1 where o: "a_alloc n bs = Some (o1, bs1)" "ofs = 16 + fst b + o1" "bs' = b # bs1"
      using Cons.prems by (auto split: if_splits)
    show ?thesis using Cons.IH [OF o(1), of "p - (16 + fst b)"] o(2,3) by auto
  qed
qed simp

lemma a_coalesce_live:
  "a_at p (a_coalesce bs) = Some (s, False) \<longleftrightarrow> a_at p bs = Some (s, False)"
proof (induction bs arbitrary: p rule: a_coalesce.induct)
  case (1 b1 b2 bs)
  show ?case
  proof (cases "snd b1 \<and> snd b2")
    case True
    then show ?thesis using "1.IH"(1) [OF True, of p] by (auto simp: diff_diff_eq add_ac)
  next
    case False
    then show ?thesis using "1.IH"(2) [OF False, of "p - (16 + fst b1)"] by auto
  qed
qed simp_all

lemma a_mark_live:
  "a_at ofs bs \<noteq> None \<Longrightarrow>
   a_at p (a_mark ofs bs) = Some (s, False) \<longleftrightarrow> p \<noteq> ofs \<and> a_at p bs = Some (s, False)"
proof (induction bs arbitrary: p ofs)
  case (Cons b bs)
  show ?case
  proof (cases "ofs = 0")
    case False
    then have "16 + fst b \<le> ofs" "a_at (ofs - (16 + fst b)) bs \<noteq> None"
      using Cons.prems by (auto split: if_splits)
    then show ?thesis using Cons.IH [of "ofs - (16 + fst b)" "p - (16 + fst b)"] False by auto
  qed auto
qed simp

lemma a_free_live:
  "a_at ofs bs \<noteq> None \<Longrightarrow>
   a_at p (a_free ofs bs) = Some (s, False) \<longleftrightarrow> p \<noteq> ofs \<and> a_at p bs = Some (s, False)"
  by (simp add: a_free_def a_coalesce_live a_mark_live)

text \<open>No two free blocks are neighbours.\<close>

fun coalesced :: "block list \<Rightarrow> bool" where
  "coalesced (b1 # b2 # bs) = (\<not> (snd b1 \<and> snd b2) \<and> coalesced (b2 # bs))"
| "coalesced bs = True"

lemma a_coalesce_hd: "snd (hd (a_coalesce (b # bs))) = snd b"
  by (induction "b # bs" arbitrary: b bs rule: a_coalesce.induct) auto

lemma coalesced_a_coalesce: "coalesced (a_coalesce bs)"
proof (induction bs rule: a_coalesce.induct)
  case (1 b1 b2 bs)
  show ?case
  proof (cases "snd b1 \<and> snd b2")
    case False
    show ?thesis using 1(2) [OF False] False a_coalesce_hd [of b2 bs] by (cases "a_coalesce (b2 # bs)") auto
  qed (use 1 in auto)
qed simp_all

lemma a_coalesce_id: "coalesced bs \<Longrightarrow> a_coalesce bs = bs"
  by (induction bs rule: coalesced.induct) auto

lemma a_alloc_coalesced:
  "a_alloc n bs = Some (ofs, bs') \<Longrightarrow> coalesced bs \<Longrightarrow> coalesced bs'
    \<and> (bs' \<noteq> [] \<longrightarrow> snd (hd bs') \<longrightarrow> bs \<noteq> [] \<and> snd (hd bs))"
proof (induction bs arbitrary: ofs bs')
  case (Cons b bs)
  show ?case
  proof (cases "snd b \<and> n \<le> fst b")
    case True
    then show ?thesis using Cons.prems by (cases bs) (auto split: if_splits)
  next
    case False
    then obtain o1 bs1 where o: "a_alloc n bs = Some (o1, bs1)" "bs' = b # bs1"
      using Cons.prems by (auto split: if_splits)
    have "coalesced bs" using Cons.prems(2) by (cases bs) auto
    then have IH: "coalesced bs1" "bs1 \<noteq> [] \<longrightarrow> snd (hd bs1) \<longrightarrow> bs \<noteq> [] \<and> snd (hd bs)"
      using Cons.IH [OF o(1)] by simp_all
    show ?thesis using IH o(2) Cons.prems(2) by (cases bs1; cases bs) auto
  qed
qed simp

lemma a_coalesce_Cons:
  "xs \<noteq> [] \<Longrightarrow> \<not> (snd b \<and> snd (hd xs)) \<Longrightarrow> a_coalesce (b # xs) = b # a_coalesce xs"
  by (cases xs) auto

lemma a_free_alloc:
  "a_alloc n bs = Some (ofs, bs') \<Longrightarrow> coalesced bs \<Longrightarrow> a_free ofs bs' = bs"
proof (induction bs arbitrary: ofs bs')
  case (Cons b bs)
  show ?case
  proof (cases "snd b \<and> n \<le> fst b")
    case True
    have "n + 16 + (fst b - n - 16) = fst b" if "32 \<le> fst b - n" using that by simp
    then have "a_free ofs bs' = a_coalesce ((fst b, True) # bs)"
      using True Cons.prems(1) by (auto simp: a_free_def split: if_splits)
    then show ?thesis using a_coalesce_id [OF Cons.prems(2)] True by (cases b) simp
  next
    case False
    then obtain o1 bs1 where o: "a_alloc n bs = Some (o1, bs1)" "ofs = 16 + fst b + o1" "bs' = b # bs1"
      using Cons.prems by (auto split: if_splits)
    have ne: "bs \<noteq> []" "bs1 \<noteq> []" using a_alloc_nonempty [OF o(1)] by simp_all
    then have co: "coalesced bs" "\<not> (snd b \<and> snd (hd bs))" using Cons.prems(2) by (cases bs; simp)+
    have IH: "a_coalesce (a_mark o1 bs1) = bs" using Cons.IH [OF o(1) co(1)] by (simp add: a_free_def)
    obtain c cs where c: "a_mark o1 bs1 = c # cs" using ne(2) by (cases "a_mark o1 bs1") auto
    have "snd (hd (a_mark o1 bs1)) = snd (hd bs)"
      using a_coalesce_hd [of c cs] by (simp only: IH [unfolded c] c list.sel)
    then have "a_coalesce (b # a_mark o1 bs1) = b # bs"
      using co(2) ne IH by (simp add: a_coalesce_Cons)
    then show ?thesis by (simp add: o a_free_def)
  qed
qed simp

section \<open>Any release, any request\<close>

text \<open>Whatever pointer it is given, \<open>kfree\<close> returns, and either changes nothing or releases one allocated block.\<close>

lemma kfree_any:
  assumes "heap_rep kh h bs"
  shows "kfree kh p h = Some h \<or>
    (\<exists>m ofs s. kfree kh p h = Some (h\<lparr>kmem := m\<rparr>) \<and> a_at ofs bs = Some (s, False)
      \<and> heap_rep kh (h\<lparr>kmem := m\<rparr>) (a_free ofs bs) \<and> (\<forall>x. unat x \<notin> hdrs (unat kh) bs \<longrightarrow> m x = kmem h x))"
proof -
  have hit: "a_at (unat q - 16 - unat kh) bs \<noteq> None \<and> unat kh + 16 \<le> unat q \<and> q = payload kh (unat q - 16 - unat kh)"
    if "check_payload kh h q = Some b" "b \<noteq> 0" for q b
    using that check_payload_abs [OF assms, of q] by (auto simp: payload_def split: if_splits)
  have rel: "release_block h b = Some h \<and> release_raw h b = Some h \<or>
      (\<exists>m ofs s. release_block h b = Some (h\<lparr>kmem := m\<rparr>) \<and> release_raw h b = Some (h\<lparr>kmem := m\<rparr>)
        \<and> a_at ofs bs = Some (s, False) \<and> heap_rep kh (h\<lparr>kmem := m\<rparr>) (a_free ofs bs)
        \<and> (\<forall>x. unat x \<notin> hdrs (unat kh) bs \<longrightarrow> m x = kmem h x))"
    if "check_payload kh h q = Some b" "b \<noteq> 0" for q b
  proof -
    define ofs where "ofs = unat q - 16 - unat kh"
    note q = hit [OF that]
    from q obtain s f where at: "a_at ofs bs = Some (s, f)" by (auto simp: ofs_def)
    have "b = of_nat (unat kh + ofs)"
      using check_payload_hit [OF assms at] q that(1) by (simp add: ofs_def)
    then show ?thesis using release_block_abs [OF assms at] at by (cases f) auto
  qed
  obtain b where b: "check_payload kh h p = Some b" using check_payload_abs [OF assms] by blast
  obtain c where c: "check_payload kh h (rd32 (kmem h) (p - 4)) = Some c" using check_payload_abs [OF assms] by blast
  have init: "heap_initialized h" using assms by (simp add: heap_rep_def)
  show ?thesis
    using rel [OF b] rel [OF c] b c init unfolding kfree_def by (cases "b = 0"; cases "c = 0") auto
qed

text \<open>The allocated blocks, read off the memory by the check \<open>kfree\<close> makes.\<close>

definition live :: "u32 \<Rightarrow> kheap \<Rightarrow> u32 \<Rightarrow> nat option" where
  "live kh h p = (case check_payload kh h p of
     Some b \<Rightarrow> if b \<noteq> 0 \<and> hdr_free (kmem h) b = 0 then Some (unat (hdr_size (kmem h) b)) else None
   | None \<Rightarrow> None)"

lemma live_abs:
  assumes "heap_rep kh h bs"
  shows "live kh h p = Some s \<longleftrightarrow> (\<exists>ofs. p = payload kh ofs \<and> a_at ofs bs = Some (s, False))"
proof
  assume l: "live kh h p = Some s"
  define ofs where "ofs = unat p - 16 - unat kh"
  have cp: "unat kh + 16 \<le> unat p" "a_at ofs bs \<noteq> None" "check_payload kh h p = Some (p - 16)"
    using l check_payload_abs [OF assms, of p] unfolding live_def ofs_def by (auto split: if_splits option.splits)
  then obtain t f where at: "a_at ofs bs = Some (t, f)" by auto
  have p: "p = payload kh ofs" using cp(1) by (simp add: payload_def ofs_def)
  note hf = a_at_hdr_free [OF assms at]
  have "t < 4294967296" using hf(5) assms by (simp add: heap_rep_def)
  then have "t = s \<and> \<not> f" using l cp(3) p hf payload_props [OF assms at]
    by (auto simp: live_def split: if_splits)
  then show "\<exists>ofs. p = payload kh ofs \<and> a_at ofs bs = Some (s, False)" using p at by auto
next
  assume "\<exists>ofs. p = payload kh ofs \<and> a_at ofs bs = Some (s, False)"
  then obtain ofs where p: "p = payload kh ofs" and at: "a_at ofs bs = Some (s, False)" by blast
  note hf = a_at_hdr_free [OF assms at]
  have "s < 4294967296" using hf(5) assms by (simp add: heap_rep_def)
  then show "live kh h p = Some s"
    using check_payload_hit [OF assms at] hf p by (simp add: live_def)
qed

lemma live_rep_eq:
  assumes "heap_rep kh h bs" "heap_rep kh h' bs"
  shows "live kh h = live kh h'"
  by (intro ext option_eqI) (simp only: live_abs [OF assms(1)] live_abs [OF assms(2)])

definition heap_inv :: "u32 \<Rightarrow> kheap \<Rightarrow> bool" where
  "heap_inv kh h \<longleftrightarrow> (\<exists>bs. heap_rep kh h bs \<and> coalesced bs)"

lemma payload_inj:
  assumes "heap_rep kh h bs" "a_at o1 bs = Some (s1, f1)" "a_at o2 bs = Some (s2, f2)"
    "payload kh o1 = payload kh o2"
  shows "o1 = o2"
proof -
  have "unat (payload kh o1) = unat (payload kh o2)" by (simp only: assms(4))
  then show ?thesis unfolding payload_props(1) [OF assms(1,2)] payload_props(1) [OF assms(1,3)] by simp
qed

text \<open>Payload bytes of an allocated block are no header bytes.\<close>

lemma payload_not_hdr:
  assumes "heap_rep kh h bs" "a_at ofs bs = Some (s, f)" "i < s"
  shows "unat (payload kh ofs + of_nat i) \<notin> hdrs (unat kh) bs"
    "unat (payload kh ofs + of_nat i) = unat kh + ofs + 16 + i"
proof -
  have b: "unat kh + ofs + 16 + s \<le> unat kh + 0x400000" "unat kh + 0x400000 < 4294967296"
    using a_at_hdr_free [OF assms(1,2)] assms(1) by (simp_all add: heap_rep_def)
  then show u: "unat (payload kh ofs + of_nat i) = unat kh + ofs + 16 + i"
    using payload_props(1) [OF assms(1,2)] assms(3) by (simp add: unat_add_no_wrap)
  show "unat (payload kh ofs + of_nat i) \<notin> hdrs (unat kh) bs"
    unfolding u using a_at_payload_hdrs [OF assms(2)] assms(3) by simp
qed


section \<open>The allocator interface\<close>

text \<open>
  What the clients of a heap rely on. \<open>live h p\<close> is the size of the allocated buffer
  at \<open>p\<close>; \<open>ok\<close> says which request sizes are served.
\<close>

locale allocator =
  fixes inv :: "'h \<Rightarrow> bool"
    and live_at :: "'h \<Rightarrow> u32 \<Rightarrow> nat option"
    and memory :: "'h \<Rightarrow> mem"
    and alloc :: "u32 \<Rightarrow> 'h \<Rightarrow> (u32 \<times> 'h) option"
    and free :: "u32 \<Rightarrow> 'h \<Rightarrow> 'h option"
    and ok :: "u32 \<Rightarrow> bool"
  assumes live_range: "inv h \<Longrightarrow> live_at h p = Some s \<Longrightarrow> p \<noteq> 0 \<and> 0 < s \<and> unat p + s < 4294967296"
    and live_disjoint: "inv h \<Longrightarrow> live_at h p = Some s \<Longrightarrow> live_at h q = Some t \<Longrightarrow> p \<noteq> q \<Longrightarrow>
      unat p + s \<le> unat q \<or> unat q + t \<le> unat p"
    and alloc_law: "inv h \<Longrightarrow> ok n \<Longrightarrow> \<exists>p h'. alloc n h = Some (p, h') \<and> inv h'
      \<and> (p = 0 \<and> h' = h \<or> p \<noteq> 0 \<and> live_at h p = None
          \<and> (\<exists>s. unat n \<le> s \<and> live_at h' = (live_at h)(p \<mapsto> s))
          \<and> (\<forall>q t i. live_at h q = Some t \<longrightarrow> i < t \<longrightarrow> memory h' (q + of_nat i) = memory h (q + of_nat i)))"
    and free_law: "inv h \<Longrightarrow> live_at h p = Some s \<Longrightarrow> \<exists>h'. free p h = Some h' \<and> inv h'
      \<and> live_at h' = (live_at h)(p := None)
      \<and> (\<forall>q t i. live_at h' q = Some t \<longrightarrow> i < t \<longrightarrow> memory h' (q + of_nat i) = memory h (q + of_nat i))"
begin

lemma alloc_cases:
  assumes "inv h" "ok n" "alloc n h = Some (p, h')"
  obtains "p = 0" "h' = h" | s where "p \<noteq> 0" "inv h'" "live_at h p = None" "unat n \<le> s"
    "live_at h' = (live_at h)(p \<mapsto> s)"
    "\<And>q t i. live_at h q = Some t \<Longrightarrow> i < t \<Longrightarrow> memory h' (q + of_nat i) = memory h (q + of_nat i)"
  using alloc_law [OF assms(1,2)] assms(3) by auto

text \<open>A fresh buffer is disjoint from every buffer that was allocated before.\<close>

lemma fresh_disjoint:
  assumes "inv h" "ok n" "alloc n h = Some (p, h')" "p \<noteq> 0" "live_at h q = Some t"
  shows "unat p + unat n \<le> unat q \<or> unat q + t \<le> unat p"
proof (rule alloc_cases [OF assms(1-3)])
  fix s
  assume a: "inv h'" "live_at h p = None" "unat n \<le> s" "live_at h' = (live_at h)(p \<mapsto> s)"
  then have "p \<noteq> q" using assms(5) by auto
  then show ?thesis using live_disjoint [of h' p s q t] a assms(5) by auto
qed (use assms in simp)

text \<open>Allocating and releasing again gives back the set of buffers, with their contents.\<close>

lemma alloc_free:
  assumes "inv h" "ok n" "alloc n h = Some (p, h')" "p \<noteq> 0"
  shows "\<exists>h''. free p h' = Some h'' \<and> inv h'' \<and> live_at h'' = live_at h
    \<and> (\<forall>q t i. live_at h q = Some t \<longrightarrow> i < t \<longrightarrow> memory h'' (q + of_nat i) = memory h (q + of_nat i))"
proof (rule alloc_cases [OF assms(1-3)])
  fix s
  assume a: "inv h'" "live_at h p = None" "live_at h' = (live_at h)(p \<mapsto> s)"
    and m: "\<And>q t i. live_at h q = Some t \<Longrightarrow> i < t \<Longrightarrow> memory h' (q + of_nat i) = memory h (q + of_nat i)"
  then have "live_at h' p = Some s" by simp
  from free_law [OF a(1) this] obtain h'' where f: "free p h' = Some h''" "inv h''"
    "live_at h'' = (live_at h')(p := None)"
    "\<forall>q t i. live_at h'' q = Some t \<longrightarrow> i < t \<longrightarrow> memory h'' (q + of_nat i) = memory h' (q + of_nat i)" by blast
  have "live_at h'' = live_at h" using f(3) a(2,3) by (auto simp: fun_eq_iff)
  then show ?thesis using f m by auto
qed (use assms in simp)

end

text \<open>The sizes \<open>kmalloc\<close> serves: rounding a larger one up to a multiple of 8 wraps to 0.\<close>

definition kmalloc_ok :: "u32 \<Rightarrow> bool" where
  "kmalloc_ok sz \<longleftrightarrow> sz \<noteq> 0 \<and> unat sz \<le> 4294967288"

lemma live_kmalloc:
  assumes "heap_rep kh h bs" "a_alloc n bs = Some (ofs, bs')" "heap_rep kh h' bs'"
  shows "live kh h (payload kh ofs) = None \<and>
    (\<exists>s\<ge>n. live kh h' = (live kh h)(payload kh ofs \<mapsto> s))"
proof -
  from a_alloc_at [OF assms(2)] obtain s s' where at: "a_at ofs bs = Some (s, True)" "n \<le> s"
    "a_at ofs bs' = Some (s', False)" "n \<le> s'" by blast
  have n: "live kh h (payload kh ofs) = None"
  proof (rule ccontr)
    assume "\<not> ?thesis"
    then obtain t o2 where "payload kh ofs = payload kh o2" "a_at o2 bs = Some (t, False)"
      using live_abs [OF assms(1)] by auto
    then show False using payload_inj [OF assms(1) at(1)] at(1) by auto
  qed
  have "live kh h' q = Some t \<longleftrightarrow> ((live kh h)(payload kh ofs \<mapsto> s')) q = Some t" for q t
  proof (cases "q = payload kh ofs")
    case True
    then have "live kh h' q = Some s'" using live_abs [OF assms(3), of q s'] at(3) by blast
    then show ?thesis using True by simp
  next
    case False
    then have "a_at o2 bs' = Some (t, False) \<longleftrightarrow> a_at o2 bs = Some (t, False)" if "q = payload kh o2" for o2
      using that a_alloc_live [OF assms(2), of o2 t] by (cases "o2 = ofs") simp_all
    then have "live kh h' q = Some t \<longleftrightarrow> live kh h q = Some t"
      unfolding live_abs [OF assms(3)] live_abs [OF assms(1)] by blast
    then show ?thesis using False by simp
  qed
  then have "live kh h' = (live kh h)(payload kh ofs \<mapsto> s')"
    by (intro ext option_eqI) simp
  then show ?thesis using n at(4) by blast
qed


lemma kmalloc_law:
  assumes "heap_inv kh h" "kmalloc_ok n"
  shows "\<exists>p h'. kmalloc kh n h = Some (p, h') \<and> heap_inv kh h'
    \<and> (p = 0 \<and> h' = h \<or> p \<noteq> 0 \<and> live kh h p = None \<and> (\<exists>s. unat n \<le> s \<and> live kh h' = (live kh h)(p \<mapsto> s))
      \<and> (\<forall>q t i. live kh h q = Some t \<longrightarrow> i < t \<longrightarrow> kmem h' (q + of_nat i) = kmem h (q + of_nat i)))"
proof -
  from assms(1) obtain bs where R: "heap_rep kh h bs" "coalesced bs" unfolding heap_inv_def by blast
  have n: "n \<noteq> 0" "unat n \<le> 4294967288" using assms(2) by (simp_all add: kmalloc_ok_def)
  note ka = kmalloc_abs [OF R(1) n]
  show ?thesis
  proof (cases "a_alloc (round8 (unat n)) bs")
    case None
    then show ?thesis using ka assms(1) by simp
  next
    case (Some r)
    then obtain ofs bs' where al: "a_alloc (round8 (unat n)) bs = Some (ofs, bs')" by (cases r) auto
    from ka al obtain m where k: "kmalloc kh n h = Some (payload kh ofs, h\<lparr>kmem := m\<rparr>)"
      "heap_rep kh (h\<lparr>kmem := m\<rparr>) bs'" "\<forall>x. unat x \<notin> hdrs (unat kh) bs' \<longrightarrow> m x = kmem h x"
      by (auto simp: payload_def)
    from a_alloc_at [OF al] obtain s' where at: "a_at ofs bs' = Some (s', False)" by blast
    have keep: "m (q + of_nat i) = kmem h (q + of_nat i)" if "live kh h q = Some t" "i < t" for q t i
    proof -
      have lq: "live kh (h\<lparr>kmem := m\<rparr>) q = Some t"
        using live_kmalloc [OF R(1) al k(2)] that(1) by auto
      then obtain o2 where "q = payload kh o2" "a_at o2 bs' = Some (t, False)"
        using live_abs [OF k(2)] by blast
      then show ?thesis using payload_not_hdr(1) [OF k(2) _ that(2)] k(3) by blast
    qed
    have "unat n \<le> round8 (unat n)" by (simp add: round8_def)
    then have "\<exists>s. unat n \<le> s \<and> live kh (h\<lparr>kmem := m\<rparr>) = (live kh h)(payload kh ofs \<mapsto> s)"
      using live_kmalloc [OF R(1) al k(2)] order_trans by blast
    moreover have "heap_inv kh (h\<lparr>kmem := m\<rparr>)"
      using k(2) a_alloc_coalesced [OF al R(2)] by (auto simp: heap_inv_def)
    ultimately show ?thesis
      using k(1) payload_props(2) [OF k(2) at] live_kmalloc [OF R(1) al k(2)] keep by auto
  qed
qed

lemma live_kfree:
  assumes "heap_rep kh h bs" "a_at ofs bs = Some (s, False)" "heap_rep kh h' (a_free ofs bs)"
  shows "live kh h' = (live kh h)(payload kh ofs := None)"
proof -
  have "live kh h' q = Some t \<longleftrightarrow> ((live kh h)(payload kh ofs := None)) q = Some t" for q t
  proof (cases "q = payload kh ofs")
    case True
    have "a_at o2 (a_free ofs bs) \<noteq> Some (t, False)" if "q = payload kh o2" for o2
      using a_free_live [of ofs bs o2 t] payload_inj [OF assms(1,2), of o2] assms(2) that True by auto
    then show ?thesis using True unfolding live_abs [OF assms(3)] by auto
  next
    case False
    then have "a_at o2 (a_free ofs bs) = Some (t, False) \<longleftrightarrow> a_at o2 bs = Some (t, False)" if "q = payload kh o2" for o2
      using that a_free_live [of ofs bs o2 t] assms(2) by (cases "o2 = ofs") simp_all
    then have "live kh h' q = Some t \<longleftrightarrow> live kh h q = Some t"
      unfolding live_abs [OF assms(3)] live_abs [OF assms(1)] by blast
    then show ?thesis using False by simp
  qed
  then show ?thesis by (intro ext option_eqI) simp
qed

lemma kfree_law:
  assumes "heap_inv kh h" "live kh h p = Some s"
  shows "\<exists>h'. kfree kh p h = Some h' \<and> heap_inv kh h' \<and> live kh h' = (live kh h)(p := None)
    \<and> (\<forall>q t i. live kh h' q = Some t \<longrightarrow> i < t \<longrightarrow> kmem h' (q + of_nat i) = kmem h (q + of_nat i))"
proof -
  from assms(1) obtain bs where R: "heap_rep kh h bs" "coalesced bs" unfolding heap_inv_def by blast
  from assms(2) obtain ofs where p: "p = payload kh ofs" and at: "a_at ofs bs = Some (s, False)"
    unfolding live_abs [OF R(1)] by blast
  from release_block_abs [OF R(1) at] kfree_abs [OF R(1) at] obtain m where
    k: "kfree kh p h = Some (h\<lparr>kmem := m\<rparr>)" "heap_rep kh (h\<lparr>kmem := m\<rparr>) (a_free ofs bs)"
      "\<forall>x. unat x \<notin> hdrs (unat kh) bs \<longrightarrow> m x = kmem h x" by (auto simp: p)
  have l: "live kh (h\<lparr>kmem := m\<rparr>) = (live kh h)(p := None)"
    using live_kfree [OF R(1) at k(2)] by (simp add: p)
  have "m (q + of_nat i) = kmem h (q + of_nat i)" if "live kh (h\<lparr>kmem := m\<rparr>) q = Some t" "i < t" for q t i
  proof -
    have "live kh h q = Some t" using that(1) l by (simp split: if_splits)
    then obtain o2 where "q = payload kh o2" "a_at o2 bs = Some (t, False)" unfolding live_abs [OF R(1)] by blast
    then show ?thesis using payload_not_hdr(1) [OF R(1) _ that(2)] k(3) by blast
  qed
  then show ?thesis using k l by (auto simp: heap_inv_def a_free_def coalesced_a_coalesce)
qed

interpretation kheap: allocator "heap_inv kh" "live kh" kmem "kmalloc kh" "kfree kh" kmalloc_ok for kh
proof
  fix h p s
  assume i: "heap_inv kh h" and l: "live kh h p = Some s"
  then obtain bs ofs where R: "heap_rep kh h bs" "p = payload kh ofs" "a_at ofs bs = Some (s, False)"
    unfolding heap_inv_def using live_abs by blast
  note pp = payload_props [OF R(1,3)]
  show "p \<noteq> 0 \<and> 0 < s \<and> unat p + s < 4294967296"
    using a_at_hdr_free(5) [OF R(1,3)] pp R(1,2) by (simp add: heap_rep_def)
  show "\<exists>h'. kfree kh p h = Some h' \<and> heap_inv kh h' \<and> live kh h' = (live kh h)(p := None)
    \<and> (\<forall>q t i. live kh h' q = Some t \<longrightarrow> i < t \<longrightarrow> kmem h' (q + of_nat i) = kmem h (q + of_nat i))"
    by (rule kfree_law [OF i l])
  fix q t
  assume lq: "live kh h q = Some t" and ne: "p \<noteq> q"
  then obtain o2 where R2: "q = payload kh o2" "a_at o2 bs = Some (t, False)"
    using live_abs [OF R(1)] by blast
  note pq = payload_props [OF R(1) R2(2)]
  have "ofs \<noteq> o2" using ne R(2) R2(1) by blast
  then show "unat p + s \<le> unat q \<or> unat q + t \<le> unat p"
    using a_at_disjoint [OF R(3) R2(2)] a_at_disjoint [OF R2(2) R(3)] pp(1) pq(1)
    unfolding R(2) R2(1) by linarith
qed (rule kmalloc_law)

section \<open>Walks over the whole list\<close>

lemma kheap_check_loop_abs:
  "blocks_at m a bs \<Longrightarrow> bs \<noteq> [] \<Longrightarrow> unat kh \<le> a \<Longrightarrow> 0 < a \<Longrightarrow> blocks_end a bs \<le> unat kh + 0x400000 \<Longrightarrow>
    unat kh + 0x400000 < 4294967296 \<Longrightarrow> kheap_check_loop kh m (of_nat a) = Some 0"
proof (induction bs arbitrary: a)
  case (Cons b bs)
  let ?n = "a + 16 + fst b"
  have e: "?n \<le> unat kh + 0x400000" using Cons.prems(5) blocks_end_start [of ?n bs] by simp
  have u: "unat (of_nat a :: u32) = a" "unat (kh + KERNEL_HEAP_SIZE) = unat kh + 0x400000"
    using e Cons.prems(6) by (simp_all add: unat_add_no_wrap)
  then have nz: "(of_nat a :: u32) \<noteq> 0" using Cons.prems(4) by auto
  have h: "hdr_canary m (of_nat a) = KHEAP_CANARY" "hdr_next m (of_nat a) = (if bs = [] then 0 else of_nat ?n)"
    "blocks_at m ?n bs"
    using Cons.prems(1) by (simp_all add: hdr_rep_def)
  have "kheap_check_loop kh m (of_nat a) = kheap_check_loop kh m (if bs = [] then 0 else of_nat ?n)"
    using h nz u e Cons.prems(3) by (subst kheap_check_loop.simps) (simp add: word_less_nat_alt word_le_nat_alt)
  also have "\<dots> = Some 0"
  proof (cases "bs = []")
    case True
    then show ?thesis by (subst kheap_check_loop.simps) simp
  next
    case False
    then show ?thesis using Cons.IH [OF h(3) False] Cons.prems(3,5,6) by simp
  qed
  finally show ?case .
qed simp

definition used_bytes :: "block list \<Rightarrow> nat" where
  "used_bytes bs = sum_list (map (\<lambda>b. if snd b then 0 else fst b + 16) bs)"

definition free_bytes :: "block list \<Rightarrow> nat" where
  "free_bytes bs = sum_list (map (\<lambda>b. if snd b then fst b else 0) bs)"

lemma kheap_used_loop_abs:
  "blocks_at m a bs \<Longrightarrow> 0 < a \<Longrightarrow> blocks_end a bs < 4294967296 \<Longrightarrow>
    kheap_used_loop m (if bs = [] then 0 else of_nat a) u = Some (u + of_nat (used_bytes bs))"
proof (induction bs arbitrary: a u)
  case Nil
  then show ?case by (subst kheap_used_loop.simps) (simp add: used_bytes_def)
next
  case (Cons b bs)
  let ?n = "a + 16 + fst b"
  have e: "?n < 4294967296" using Cons.prems(3) blocks_end_start [of ?n bs] by simp
  have nz: "(of_nat a :: u32) \<noteq> 0" using e Cons.prems(2) of_nat_32_eq_iff [of a 0] by simp
  have h: "hdr_size m (of_nat a) = of_nat (fst b)" "hdr_free m (of_nat a) = (if snd b then 1 else 0)"
    "hdr_next m (of_nat a) = (if bs = [] then 0 else of_nat ?n)" "blocks_at m ?n bs"
    using Cons.prems(1) by (simp_all add: hdr_rep_def)
  have "kheap_used_loop m (of_nat a) u = kheap_used_loop m (if bs = [] then 0 else of_nat ?n) (if snd b then u else u + (of_nat (fst b) + 16))"
    by (subst kheap_used_loop.simps) (simp add: nz h(1-3))
  also have "\<dots> = Some ((if snd b then u else u + (of_nat (fst b) + 16)) + of_nat (used_bytes bs))"
    using Cons.prems(3) by (intro Cons.IH [OF h(4)]) simp_all
  finally show ?case by (simp add: used_bytes_def add_ac)
qed

lemma kheap_free_loop_abs:
  "blocks_at m a bs \<Longrightarrow> 0 < a \<Longrightarrow> blocks_end a bs < 4294967296 \<Longrightarrow>
    kheap_free_loop m (if bs = [] then 0 else of_nat a) u = Some (u + of_nat (free_bytes bs))"
proof (induction bs arbitrary: a u)
  case Nil
  then show ?case by (subst kheap_free_loop.simps) (simp add: free_bytes_def)
next
  case (Cons b bs)
  let ?n = "a + 16 + fst b"
  have e: "?n < 4294967296" using Cons.prems(3) blocks_end_start [of ?n bs] by simp
  have nz: "(of_nat a :: u32) \<noteq> 0" using e Cons.prems(2) of_nat_32_eq_iff [of a 0] by simp
  have h: "hdr_size m (of_nat a) = of_nat (fst b)" "hdr_free m (of_nat a) = (if snd b then 1 else 0)"
    "hdr_next m (of_nat a) = (if bs = [] then 0 else of_nat ?n)" "blocks_at m ?n bs"
    using Cons.prems(1) by (simp_all add: hdr_rep_def)
  have "kheap_free_loop m (of_nat a) u = kheap_free_loop m (if bs = [] then 0 else of_nat ?n) (if snd b then u + of_nat (fst b) else u)"
    by (subst kheap_free_loop.simps) (simp add: nz h(1-3))
  also have "\<dots> = Some ((if snd b then u + of_nat (fst b) else u) + of_nat (free_bytes bs))"
    using Cons.prems(3) by (intro Cons.IH [OF h(4)]) simp_all
  finally show ?case by (simp add: free_bytes_def add_ac)
qed

lemma bytes_total: "a + used_bytes bs + free_bytes bs + 16 * length (filter snd bs) = blocks_end a bs"
proof (induction bs arbitrary: a)
  case (Cons b bs)
  show ?case using Cons.IH [of "a + 16 + fst b"] by (auto simp: used_bytes_def free_bytes_def)
qed (simp add: used_bytes_def free_bytes_def)

section \<open>Reachable heaps\<close>

text \<open>
  The heaps the kernel can reach: from the zeroed statics, by requests, by releases of
  any pointer, and by stores into an allocated buffer or outside the heap.
\<close>

inductive heap_reach :: "u32 \<Rightarrow> kheap \<Rightarrow> bool" for kh where
  boot: "\<not> heap_initialized h \<Longrightarrow> heap_lock h = 0 \<Longrightarrow> heap_head h = 0 \<Longrightarrow> heap_reach kh h"
| malloc: "heap_reach kh h \<Longrightarrow> kmalloc_ok n \<Longrightarrow> kmalloc kh n h = Some (p, h') \<Longrightarrow> heap_reach kh h'"
| release: "heap_reach kh h \<Longrightarrow> kfree kh p h = Some h' \<Longrightarrow> heap_reach kh h'"
| store_live: "heap_reach kh h \<Longrightarrow> live kh h p = Some s \<Longrightarrow> i < s \<Longrightarrow>
    heap_reach kh (h\<lparr>kmem := (kmem h)(p + of_nat i := v)\<rparr>)"
| store_outside: "heap_reach kh h \<Longrightarrow> \<not> (kh \<le> x \<and> x < kh + KERNEL_HEAP_SIZE) \<Longrightarrow>
    heap_reach kh (h\<lparr>kmem := (kmem h)(x := v)\<rparr>)"

lemma heap_rep_store:
  assumes "heap_rep kh h bs" "unat x \<notin> hdrs (unat kh) bs"
  shows "heap_rep kh (h\<lparr>kmem := (kmem h)(x := v)\<rparr>) bs"
proof -
  have "blocks_at ((kmem h)(x := v)) (unat kh) bs = blocks_at (kmem h) (unat kh) bs"
    using assms by (intro blocks_at_cong) (auto simp: heap_rep_def)
  then show ?thesis using assms(1) by (simp add: heap_rep_def)
qed

lemma kfree_inv:
  assumes "heap_inv kh h"
  shows "\<exists>h'. kfree kh p h = Some h' \<and> heap_inv kh h'"
proof -
  from assms obtain bs where R: "heap_rep kh h bs" "coalesced bs" unfolding heap_inv_def by blast
  show ?thesis using kfree_any [OF R(1), of p] assms
    by (auto simp: heap_inv_def a_free_def) (use coalesced_a_coalesce in blast)
qed

definition heap_site :: "u32 \<Rightarrow> bool" where
  "heap_site kh \<longleftrightarrow> kh \<noteq> 0 \<and> unat kh + 0x400000 < 4294967296"

lemma kmalloc_uninit:
  assumes "\<not> heap_initialized h" "n \<noteq> 0"
  shows "kmalloc kh n h = kmalloc kh n (heap_init kh h)"
  using assms by (simp add: kmalloc_def heap_init_def Let_def)

lemma heap_init_inv:
  assumes "heap_site kh" "\<not> heap_initialized h" "heap_lock h = 0"
  shows "heap_inv kh (heap_init kh h)"
  using heap_init_rep [of kh h] assms by (auto simp: heap_inv_def heap_site_def)

lemma heap_reach_inv:
  assumes "heap_reach kh h" "heap_site kh"
  shows "heap_inv kh h \<or> \<not> heap_initialized h \<and> heap_lock h = 0 \<and> heap_head h = 0"
  using assms
proof (induction rule: heap_reach.induct)
  case (malloc h n p h')
  then consider "heap_inv kh h" | "\<not> heap_initialized h" "heap_lock h = 0" by blast
  then show ?case
  proof cases
    case 1
    then show ?thesis using kmalloc_law [OF 1 malloc.hyps(2)] malloc.hyps(3) by auto
  next
    case 2
    then have "kmalloc kh n (heap_init kh h) = Some (p, h')"
      using kmalloc_uninit [of h n kh] malloc.hyps(2,3) by (simp add: kmalloc_ok_def)
    then show ?thesis using kmalloc_law [OF heap_init_inv [OF malloc.prems 2] malloc.hyps(2)] by auto
  qed
next
  case (release h p h')
  then show ?case using kfree_inv [of kh h p] by (auto simp: kfree_def split: if_splits)
next
  case (store_live h p s i v)
  have "heap_inv kh h"
  proof (rule ccontr)
    assume "\<not> heap_inv kh h"
    then have "heap_head h = 0" using store_live by blast
    then show False using store_live.hyps(2)
      by (auto simp: live_def check_payload_def Let_def find_block.simps [of _ 0] split: if_splits)
  qed
  then obtain bs ofs where R: "heap_rep kh h bs" "coalesced bs" "p = payload kh ofs" "a_at ofs bs = Some (s, False)"
    unfolding heap_inv_def using live_abs store_live.hyps(2) by blast
  then show ?case
    using heap_rep_store [OF R(1) payload_not_hdr(1) [OF R(1,4) store_live.hyps(3)]] by (auto simp: heap_inv_def)
next
  case (store_outside h x v)
  show ?case
  proof (cases "heap_inv kh h")
    case True
    then obtain bs where R: "heap_rep kh h bs" "coalesced bs" unfolding heap_inv_def by blast
    have "unat (kh + KERNEL_HEAP_SIZE) = unat kh + 0x400000"
      using store_outside.prems by (simp add: heap_site_def unat_add_no_wrap)
    then have "unat x \<notin> hdrs (unat kh) bs"
      using store_outside.hyps(2) hdrs_bounds [of "unat x" "unat kh" bs] R(1)
      by (auto simp: heap_rep_def word_le_nat_alt word_less_nat_alt)
    then show ?thesis using heap_rep_store [OF R(1)] R(2) by (auto simp: heap_inv_def)
  qed (use store_outside in simp)
qed simp

section \<open>Aligned allocation\<close>

lemma heap_rep_agree:
  assumes "heap_rep kh h bs" "\<And>x. unat x \<in> hdrs (unat kh) bs \<Longrightarrow> m x = kmem h x"
  shows "heap_rep kh (h\<lparr>kmem := m\<rparr>) bs"
proof -
  have "blocks_at m (unat kh) bs = blocks_at (kmem h) (unat kh) bs"
    using assms by (intro blocks_at_cong) (auto simp: heap_rep_def)
  then show ?thesis using assms(1) by (simp add: heap_rep_def)
qed

text \<open>Stores inside an allocated buffer keep the heap and the set of buffers.\<close>

lemma heap_store:
  assumes "heap_inv kh h" "live kh h p = Some s" "\<And>x. s \<le> unat (x - p) \<Longrightarrow> m x = kmem h x"
  shows "heap_inv kh (h\<lparr>kmem := m\<rparr>)" and "live kh (h\<lparr>kmem := m\<rparr>) = live kh h"
proof -
  from assms(1) obtain bs where R: "heap_rep kh h bs" "coalesced bs" unfolding heap_inv_def by blast
  from assms(2) obtain ofs where a: "p = payload kh ofs" "a_at ofs bs = Some (s, False)"
    using live_abs [OF R(1)] by blast
  have "m x = kmem h x" if "unat x \<in> hdrs (unat kh) bs" for x
  proof (rule ccontr)
    assume "m x \<noteq> kmem h x"
    then have i: "unat (x - p) < s" using assms(3) not_le by blast
    have "p + of_nat (unat (x - p)) = x" by simp
    then show False using payload_not_hdr(1) [OF R(1) a(2) i] that by (simp add: a(1) [symmetric])
  qed
  then have R': "heap_rep kh (h\<lparr>kmem := m\<rparr>) bs" by (rule heap_rep_agree [OF R(1)])
  then show "heap_inv kh (h\<lparr>kmem := m\<rparr>)" using R(2) by (auto simp: heap_inv_def)
  show "live kh (h\<lparr>kmem := m\<rparr>) = live kh h" by (rule live_rep_eq [OF R' R(1)])
qed




lemma kmalloc_abs_payload:
  assumes "heap_rep kh h bs" "coalesced bs" "kmalloc_ok n" "kmalloc kh n h = Some (p, h')" "p \<noteq> 0"
  obtains ofs bs' s m where "p = payload kh ofs" "h' = h\<lparr>kmem := m\<rparr>" "heap_rep kh h' bs'" "coalesced bs'"
    "a_alloc (round8 (unat n)) bs = Some (ofs, bs')" "a_at ofs bs' = Some (s, False)" "unat n \<le> s"
    "\<forall>x. unat x \<notin> hdrs (unat kh) bs' \<longrightarrow> m x = kmem h x"
proof -
  have n: "n \<noteq> 0" "unat n \<le> 4294967288" using assms(3) by (simp_all add: kmalloc_ok_def)
  note ka = kmalloc_abs [OF assms(1) n]
  show thesis
  proof (cases "a_alloc (round8 (unat n)) bs")
    case None
    then show thesis using ka assms(4,5) by simp
  next
    case (Some r)
    then obtain ofs bs' where al: "a_alloc (round8 (unat n)) bs = Some (ofs, bs')" by (cases r) auto
    from ka al obtain m where k: "kmalloc kh n h = Some (payload kh ofs, h\<lparr>kmem := m\<rparr>)"
      "heap_rep kh (h\<lparr>kmem := m\<rparr>) bs'" "\<forall>x. unat x \<notin> hdrs (unat kh) bs' \<longrightarrow> m x = kmem h x"
      by (auto simp: payload_def)
    from a_alloc_at [OF al] obtain s where at: "a_at ofs bs' = Some (s, False)" "round8 (unat n) \<le> s" by blast
    moreover have "unat n \<le> round8 (unat n)" by (simp add: round8_def)
    ultimately show thesis using that k al a_alloc_coalesced [OF al assms(2)] assms(4) by auto
  qed
qed




lemma a_alloc_None: "a_alloc n bs = None \<longleftrightarrow> (\<forall>b\<in>set bs. snd b \<longrightarrow> fst b < n)"
  by (induction bs) auto



section \<open>Zeroed allocation and bad alignments\<close>

lemma kzalloc_law:
  assumes "heap_inv kh h" "kmalloc_ok sz"
  shows "\<exists>p h'. kzalloc kh sz h = Some (p, h') \<and> heap_inv kh h' \<and> (p \<noteq> 0 \<longrightarrow>
    (\<exists>s\<ge>unat sz. live kh h' = (live kh h)(p \<mapsto> s)) \<and> (\<forall>i<unat sz. kmem h' (p + of_nat i) = 0))"
proof -
  from assms(1) obtain bs where R: "heap_rep kh h bs" "coalesced bs" unfolding heap_inv_def by blast
  from kmalloc_law [OF assms] obtain p h1 where k: "kmalloc kh sz h = Some (p, h1)" "heap_inv kh h1" by blast
  show ?thesis
  proof (cases "p = 0")
    case True
    then show ?thesis using k by (simp add: kzalloc_def)
  next
    case False
    from kmalloc_abs_payload [OF R assms(2) k(1) False] obtain ofs bs' s m where
      a: "p = payload kh ofs" "h1 = h\<lparr>kmem := m\<rparr>" "heap_rep kh h1 bs'" "coalesced bs'"
        "a_alloc (round8 (unat sz)) bs = Some (ofs, bs')" "a_at ofs bs' = Some (s, False)" "unat sz \<le> s" by metis
    define m' where "m' = (\<lambda>x. if unat (x - p) < unat sz then 0 else kmem h1 x)"
    have kz: "kzalloc kh sz h = Some (p, h1\<lparr>kmem := m'\<rparr>)"
      using k(1) False by (simp add: kzalloc_def memset_correct m'_def cong: if_cong)
    have "m' x = kmem h1 x" if "unat x \<in> hdrs (unat kh) bs'" for x
    proof (rule ccontr)
      assume "m' x \<noteq> kmem h1 x"
      then have i: "unat (x - p) < unat sz" by (auto simp: m'_def split: if_splits)
      define j where "j = unat (x - p)"
      have x: "p + of_nat j = x" and "j < s" using i a(7) by (simp_all add: j_def)
      then show False using payload_not_hdr(1) [OF a(3,6), of j] that by (simp add: a(1) [symmetric] x)
    qed
    then have R': "heap_rep kh (h1\<lparr>kmem := m'\<rparr>) bs'" by (rule heap_rep_agree [OF a(3)])
    have "live kh (h1\<lparr>kmem := m'\<rparr>) = live kh h1"
      by (rule live_rep_eq [OF R' a(3)])
    moreover have "unat sz \<le> round8 (unat sz)" by (simp add: round8_def)
    then have "\<exists>s\<ge>unat sz. live kh h1 = (live kh h)(p \<mapsto> s)"
      using live_kmalloc [OF R(1) a(5,3)] order_trans unfolding a(1) by blast
    ultimately have l: "\<exists>s\<ge>unat sz. live kh (h1\<lparr>kmem := m'\<rparr>) = (live kh h)(p \<mapsto> s)" by simp
    have "kmem (h1\<lparr>kmem := m'\<rparr>) (p + of_nat i) = 0" if "i < unat sz" for i
      using that order_less_trans [OF that unat_less_2p32] by (simp add: m'_def)
    moreover have "heap_inv kh (h1\<lparr>kmem := m'\<rparr>)" using R' a(4) by (auto simp: heap_inv_def)
    ultimately show ?thesis using kz l by blast
  qed
qed

text \<open>Powers of two never reach an alignment between \<open>2^31\<close> and \<open>2^32\<close>.\<close>

lemma pow2_or_0_le:
  assumes "a = 0 \<or> (\<exists>k. a = (2 :: u32) ^ k)"
  shows "a \<le> 0x80000000"
proof (cases "a = 0")
  case False
  then obtain k where k: "a = 2 ^ k" using assms by blast
  have k32: "k < 32"
  proof (rule ccontr)
    assume "\<not> k < 32"
    then have "(2 :: u32) ^ k = 0" by (intro exp_eq_zero_iff [THEN iffD2]) simp
    then show False using False k by simp
  qed
  then have "(2 :: nat) ^ k \<le> 2 ^ 31" by (intro power_increasing) simp_all
  then show ?thesis using unat_pow2_32 [OF k32] by (simp add: k word_le_nat_alt)
qed simp

lemma pow2_or_0_double:
  assumes "a = 0 \<or> (\<exists>k. a = (2 :: u32) ^ k)"
  shows "push_bit 1 a = 0 \<or> (\<exists>k. push_bit 1 a = 2 ^ k)"
proof (cases "a = 0")
  case False
  then obtain k where "a = 2 ^ k" using assms by blast
  then have "push_bit 1 a = 2 ^ Suc k" by (simp add: push_bit_eq_mult)
  then show ?thesis by blast
qed simp

lemma round_pow2_large:
  assumes "round_pow2 a al = Some r" "a = 0 \<or> (\<exists>k. a = 2 ^ k)"
  shows "al \<le> 0x80000000"
proof -
  have "(a = 0 \<or> (\<exists>k. a = 2 ^ k)) \<longrightarrow> al \<le> 0x80000000"
  proof (rule round_pow2.raw_induct [where P = "\<lambda>a al r. (a = 0 \<or> (\<exists>k. a = 2 ^ k)) \<longrightarrow> al \<le> 0x80000000"])
    fix f and a al r :: u32
    assume IH: "\<And>a al r. f a al = Some r \<Longrightarrow> (a = 0 \<or> (\<exists>k. a = 2 ^ k)) \<longrightarrow> al \<le> 0x80000000"
      and eq: "(if a < al then f (push_bit 1 a) al else Some a) = Some r"
    show "(a = 0 \<or> (\<exists>k. a = 2 ^ k)) \<longrightarrow> al \<le> 0x80000000"
    proof
      assume as: "a = 0 \<or> (\<exists>k. a = 2 ^ k)"
      show "al \<le> 0x80000000"
      proof (cases "a < al")
        case True
        then show ?thesis using eq IH [of "push_bit 1 a" al r] pow2_or_0_double [OF as] by auto
      next
        case False
        then show ?thesis using pow2_or_0_le [OF as] by auto
      qed
    qed
  qed (rule assms(1))
  then show ?thesis using assms(2) by blast
qed

lemma round_pow2_diverges: "0x80000000 < al \<Longrightarrow> round_pow2 1 al = None"
proof (rule ccontr)
  assume l: "0x80000000 < al" and "round_pow2 1 al \<noteq> None"
  then obtain r where "round_pow2 1 al = Some r" by auto
  moreover have "(1 :: u32) = 2 ^ 0" by simp
  ultimately show False using round_pow2_large [of 1 al r] l by (metis linorder_not_le)
qed

section \<open>Properties\<close>

text \<open>A concrete heap for the witnesses: the buffer at 2 MB, zeroed memory, just initialised.\<close>

definition demo_heap :: kheap where
  "demo_heap = heap_init 0x200000 (boot_heap (\<lambda>_. 0))"

lemma demo_heap_rep: "heap_rep 0x200000 demo_heap [(0x3FFFF0, True)]"
  unfolding demo_heap_def by (rule heap_init_rep) (simp_all add: boot_heap_def)

lemma demo_heap_inv: "heap_inv 0x200000 demo_heap"
  using demo_heap_rep by (auto simp: heap_inv_def)

text \<open>C1. \<open>kmalloc\<close> refines first fit on the list of blocks. On every well-formed heap, and for
  every request that does not wrap when rounded up, it returns: NULL and an unchanged
  heap exactly when no free block is large enough, and otherwise the payload of the
  first free block that is, split when 32 bytes or more are left over. No byte
  outside the headers of the new list changes.\<close>

theorem kmalloc_refines_first_fit:
  assumes "heap_rep kh h bs" "sz \<noteq> 0" "unat sz \<le> 4294967288"
  shows "case a_alloc (round8 (unat sz)) bs of
      None \<Rightarrow> kmalloc kh sz h = Some (0, h) \<and> (\<forall>b\<in>set bs. snd b \<longrightarrow> fst b < round8 (unat sz))
    | Some (ofs, bs') \<Rightarrow> \<exists>m. kmalloc kh sz h = Some (payload kh ofs, h\<lparr>kmem := m\<rparr>) \<and> payload kh ofs \<noteq> 0
        \<and> heap_rep kh (h\<lparr>kmem := m\<rparr>) bs' \<and> (\<forall>x. unat x \<notin> hdrs (unat kh) bs' \<longrightarrow> m x = kmem h x)"
proof (cases "a_alloc (round8 (unat sz)) bs")
  case None
  then show ?thesis using kmalloc_abs [OF assms] a_alloc_None [THEN iffD1, OF None] by simp
next
  case (Some r)
  obtain ofs bs' where r: "r = (ofs, bs')" by force
  obtain s' where at: "a_at ofs bs' = Some (s', False)" using a_alloc_at [of _ bs ofs bs'] Some r by blast
  show ?thesis using kmalloc_abs [OF assms] Some r payload_props(2) [OF _ at] by (auto simp: payload_def)
qed

theorem kmalloc_refines_first_fit_witness:
  "\<exists>m. kmalloc 0x200000 100 demo_heap = Some (0x200010, demo_heap\<lparr>kmem := m\<rparr>)
    \<and> heap_rep 0x200000 (demo_heap\<lparr>kmem := m\<rparr>) [(104, False), (0x3FFF78, True)]"
  using kmalloc_refines_first_fit [OF demo_heap_rep, of 100] by (auto simp: round8_def payload_def)

text \<open>C2. \<open>kfree\<close> of the payload of a block refines release with coalescing: an allocated
  block becomes free and all runs of neighbouring free blocks are merged, with only
  header bytes changed; a block that is already free is left alone.\<close>

theorem kfree_refines_release:
  assumes "heap_rep kh h bs" "a_at ofs bs = Some (s, f)"
  shows "if f then kfree kh (payload kh ofs) h = Some h
    else \<exists>m. kfree kh (payload kh ofs) h = Some (h\<lparr>kmem := m\<rparr>)
      \<and> heap_rep kh (h\<lparr>kmem := m\<rparr>) (a_coalesce (a_mark ofs bs)) \<and> coalesced (a_coalesce (a_mark ofs bs))
      \<and> (\<forall>x. unat x \<notin> hdrs (unat kh) bs \<longrightarrow> m x = kmem h x)"
  using release_block_abs [OF assms] kfree_abs [OF assms]
  by (auto simp: a_free_def coalesced_a_coalesce)

theorem kfree_refines_release_witness:
  "kfree 0x200000 0x200010 demo_heap = Some demo_heap"
  using kfree_refines_release [OF demo_heap_rep, of 0 "0x3FFFF0" True] by (simp add: payload_def)

text \<open>C6. A request followed by the release of what it returned restores the list of blocks.\<close>

theorem kmalloc_kfree_roundtrip:
  assumes "heap_rep kh h bs" "coalesced bs" "kmalloc_ok sz" "kmalloc kh sz h = Some (p, h')" "p \<noteq> 0"
  shows "\<exists>h''. kfree kh p h' = Some h'' \<and> heap_rep kh h'' bs"
proof -
  from kmalloc_abs_payload [OF assms] obtain ofs bs' s where
    a: "p = payload kh ofs" "heap_rep kh h' bs'" "a_alloc (round8 (unat sz)) bs = Some (ofs, bs')"
      "a_at ofs bs' = Some (s, False)" by metis
  from release_block_abs [OF a(2,4)] kfree_abs [OF a(2,4)] obtain h'' where
    "kfree kh p h' = Some h''" "heap_rep kh h'' (a_free ofs bs')" by (auto simp: a(1))
  then show ?thesis using a_free_alloc [OF a(3) assms(2)] by auto
qed

theorem kmalloc_kfree_roundtrip_witness:
  "\<exists>h' h''. kmalloc 0x200000 100 demo_heap = Some (0x200010, h') \<and> kfree 0x200000 0x200010 h' = Some h''
    \<and> heap_rep 0x200000 h'' [(0x3FFFF0, True)]"
proof -
  obtain m where k: "kmalloc 0x200000 100 demo_heap = Some (0x200010, demo_heap\<lparr>kmem := m\<rparr>)"
    using kmalloc_abs [OF demo_heap_rep, of 100] by (auto simp: round8_def)
  show ?thesis using kmalloc_kfree_roundtrip [OF demo_heap_rep _ _ k] k by (auto simp: kmalloc_ok_def)
qed

text \<open>C7. Isolation: a buffer \<open>kmalloc\<close> returns does not overlap any buffer that is still
  allocated, and the contents of those buffers are kept.\<close>

theorem kmalloc_isolation:
  assumes "heap_inv kh h" "kmalloc_ok n" "kmalloc kh n h = Some (p, h')" "p \<noteq> 0" "live kh h q = Some t"
  shows "(unat p + unat n \<le> unat q \<or> unat q + t \<le> unat p) \<and> live kh h' q = Some t
    \<and> (\<forall>i<t. kmem h' (q + of_nat i) = kmem h (q + of_nat i))"
proof (rule kheap.alloc_cases [OF assms(1-3)])
  fix s
  assume "live kh h p = None" "live kh h' = (live kh h)(p \<mapsto> s)"
    "\<And>q t i. live kh h q = Some t \<Longrightarrow> i < t \<Longrightarrow> kmem h' (q + of_nat i) = kmem h (q + of_nat i)"
  then show ?thesis using kheap.fresh_disjoint [OF assms] assms(5) by auto
qed (use assms in simp)

theorem kmalloc_isolation_witness:
  "\<exists>h1 h2 p. kmalloc 0x200000 100 demo_heap = Some (0x200010, h1) \<and> kmalloc 0x200000 8 h1 = Some (p, h2) \<and> p \<noteq> 0
    \<and> (unat p + 8 \<le> 0x200010 \<or> 0x200010 + 104 \<le> unat p) \<and> live 0x200000 h2 0x200010 = Some 104"
proof -
  obtain m where k: "kmalloc 0x200000 100 demo_heap = Some (0x200010, demo_heap\<lparr>kmem := m\<rparr>)"
    and R: "heap_rep 0x200000 (demo_heap\<lparr>kmem := m\<rparr>) [(104, False), (0x3FFF78, True)]"
    using kmalloc_abs [OF demo_heap_rep, of 100] by (auto simp: round8_def)
  obtain m2 where k2: "kmalloc 0x200000 8 (demo_heap\<lparr>kmem := m\<rparr>) = Some (0x200088, demo_heap\<lparr>kmem := m2\<rparr>)"
    using kmalloc_abs [OF R, of 8] by (auto simp: round8_def)
  have "heap_inv 0x200000 (demo_heap\<lparr>kmem := m\<rparr>)" using R by (force simp: heap_inv_def)
  moreover have "live 0x200000 (demo_heap\<lparr>kmem := m\<rparr>) 0x200010 = Some 104"
    unfolding live_abs [OF R] by (rule exI [of _ 0]) (simp add: payload_def)
  ultimately show ?thesis using kmalloc_isolation [OF _ _ k2] k k2 by (auto simp: kmalloc_ok_def)
qed

text \<open>C8. Every heap the kernel can reach is sound: \<open>kheap_check\<close> finds no corruption, every
  request in range and every release, of whatever pointer, returns.\<close>

theorem heap_reach_sound:
  assumes "heap_reach kh h" "heap_site kh"
  shows "kheap_check kh h = Some 0 \<and> (\<forall>n. kmalloc_ok n \<longrightarrow> (\<exists>r. kmalloc kh n h = Some r))
    \<and> (\<forall>p. \<exists>h'. kfree kh p h = Some h')"
proof -
  from heap_reach_inv [OF assms] consider "heap_inv kh h" | "\<not> heap_initialized h" "heap_lock h = 0" by blast
  then show ?thesis
  proof cases
    case 1
    then obtain bs where R: "heap_rep kh h bs" unfolding heap_inv_def by blast
    then have "kheap_check kh h = Some 0"
      using kheap_check_loop_abs [of "kmem h" "unat kh" bs kh] by (simp add: heap_rep_def kheap_check_def unat_gt_0)
    then show ?thesis using kmalloc_law [OF 1] kfree_inv [OF 1] by blast
  next
    case 2
    then have "\<exists>r. kmalloc kh n h = Some r" if "kmalloc_ok n" for n
      using kmalloc_law [OF heap_init_inv [OF assms(2) 2] that] kmalloc_uninit [of h n kh] that
      by (auto simp: kmalloc_ok_def)
    then show ?thesis using 2 by (simp add: kheap_check_def kfree_def)
  qed
qed

theorem heap_reach_sound_witness:
  "kheap_check 0x200000 (boot_heap (\<lambda>_. 7)) = Some 0 \<and> (\<exists>r. kmalloc 0x200000 64 (boot_heap (\<lambda>_. 7)) = Some r)"
  using heap_reach_sound [of "0x200000" "boot_heap (\<lambda>_. 7)"]
    heap_reach.boot [of "boot_heap (\<lambda>_. 7)" "0x200000"]
  by (auto simp: heap_site_def boot_heap_def kmalloc_ok_def)

text \<open>Accounting: the bytes \<open>kheap_used\<close> and \<open>kheap_free\<close> report and the headers of the free
  blocks add up to the 4 MB buffer.\<close>

theorem kheap_accounting:
  assumes "heap_rep kh h bs"
  shows "\<exists>u f. kheap_used h = Some u \<and> kheap_free h = Some f
    \<and> unat u + unat f + 16 * length (filter snd bs) = 0x400000"
proof -
  let ?a = "unat kh"
  note R = assms [unfolded heap_rep_def]
  have a: "0 < ?a" "blocks_end ?a bs < 4294967296" using R by (simp_all add: unat_gt_0)
  have t: "used_bytes bs + free_bytes bs + 16 * length (filter snd bs) = 0x400000"
    using bytes_total [of ?a bs] R by simp
  have "kheap_used h = Some (of_nat (used_bytes bs))" "kheap_free h = Some (of_nat (free_bytes bs))"
    using kheap_used_loop_abs [of "kmem h" ?a bs 0] kheap_free_loop_abs [of "kmem h" ?a bs 0] R a
    by (simp_all add: kheap_used_def kheap_free_def)
  moreover have "unat (of_nat (used_bytes bs) :: u32) = used_bytes bs" "unat (of_nat (free_bytes bs) :: u32) = free_bytes bs"
    using t by (intro unat_of_nat_32; linarith)+
  ultimately show ?thesis using t by auto
qed

theorem kheap_accounting_witness:
  "\<exists>u f. kheap_used demo_heap = Some u \<and> kheap_free demo_heap = Some f \<and> unat u + unat f = 0x3FFFF0"
  using kheap_accounting [OF demo_heap_rep] by auto



text \<open>\<open>kzalloc\<close> returns for every request in range, and the \<open>sz\<close> bytes of a buffer it
  returns are all zero.\<close>

theorem kzalloc_zeroed:
  assumes "heap_inv kh h" "kmalloc_ok sz"
  shows "\<exists>p h'. kzalloc kh sz h = Some (p, h') \<and> heap_inv kh h' \<and> (p \<noteq> 0 \<longrightarrow>
    (\<exists>s\<ge>unat sz. live kh h' = (live kh h)(p \<mapsto> s)) \<and> (\<forall>i<unat sz. kmem h' (p + of_nat i) = 0))"
  using kzalloc_law [OF assms] .

theorem kzalloc_zeroed_witness:
  "\<exists>p h'. kzalloc 0x200000 24 demo_heap = Some (p, h') \<and> (p \<noteq> 0 \<longrightarrow> kmem h' (p + 23) = 0)"
proof -
  obtain p h' where k: "kzalloc 0x200000 24 demo_heap = Some (p, h')"
    "p \<noteq> 0 \<longrightarrow> (\<forall>i<24. kmem h' (p + of_nat i) = 0)"
    using kzalloc_zeroed [OF demo_heap_inv, of 24] by (auto simp: kmalloc_ok_def)
  then have "p \<noteq> 0 \<longrightarrow> kmem h' (p + of_nat 23) = 0" by (auto dest: spec [of _ 23])
  then show ?thesis using k(1) by auto
qed

text \<open>C34. The limit of \<open>kmalloc\<close>: for the seven largest sizes the rounding to a multiple of 8
  wraps to 0, and when the first block of the heap is free and has at least 32 bytes, the request
  succeeds with a block of no bytes at all.\<close>

theorem kmalloc_size_wraps:
  assumes "0xFFFFFFF9 \<le> sz" "heap_rep kh h ((s, True) # bs)" "32 \<le> s"
  shows "\<exists>h'. kmalloc kh sz h = Some (kh + 16, h') \<and> hdr_size (kmem h') kh = 0 \<and> hdr_free (kmem h') kh = 0"
proof -
  have "unat (sz + 7) = unat sz + 7 - 4294967296"
    using assms(1) less_imp_le [OF unat_less_2p32 [of sz]] by (simp add: unat_word_ariths word_le_nat_alt mod_if)
  then have "unat (align_up sz 8) = 0"
    using unat_and_not_mask [of 3 "sz + 7"] unat_less_2p32 [of sz] by (simp add: align_up_def)
  then have au: "align_up sz 8 = 0" by (simp add: unat_eq_zero)
  note R = assms(2) [unfolded heap_rep_def]
  have a: "0 < unat kh" "blocks_end (unat kh) ((s, True) # bs) < 4294967296" using R by (simp_all add: unat_gt_0)
  have f: "find_fit (kmem h) kh 0 = Some kh"
    using find_fit_abs [of "kmem h" "unat kh" "(s, True) # bs" 0] R a by simp
  have "blocks_at (take_block kh 0 (kmem h)) (unat kh) ((0, False) # (s - 16, True) # bs)"
    using take_block_head [of "kmem h" "unat kh" "(s, True)" bs 0] R a(2) assms(3) by simp
  then have "hdr_size (take_block kh 0 (kmem h)) kh = 0 \<and> hdr_free (take_block kh 0 (kmem h)) kh = 0"
    by (simp add: hdr_rep_def)
  moreover have "sz \<noteq> 0" using assms(1) by auto
  ultimately show ?thesis using R f
    by (simp add: kmalloc_def au spin_lock_def spin_unlock_def)
qed

theorem kmalloc_size_wraps_witness:
  "\<exists>h'. kmalloc 0x200000 0xFFFFFFFF demo_heap = Some (0x200010, h') \<and> hdr_size (kmem h') 0x200000 = 0"
  using kmalloc_size_wraps [OF _ demo_heap_rep, of "0xFFFFFFFF"] by auto

text \<open>An alignment above \<open>2^31\<close> that is no power of two makes \<open>kmalloc_aligned\<close> loop forever:
  the doubling that should reach it wraps to 0 first.\<close>

theorem kmalloc_aligned_hangs:
  assumes "0x80000000 < align" "align AND (align - 1) \<noteq> 0" "sz \<noteq> 0"
  shows "kmalloc_aligned kh sz align h = None"
  using round_pow2_diverges [OF assms(1)] assms by (auto simp: kmalloc_aligned_def Let_def)

theorem kmalloc_aligned_hangs_witness:
  "kmalloc_aligned 0x200000 16 0x80000001 demo_heap = None"
  by (rule kmalloc_aligned_hangs) simp_all

end
