(* ===== verification/Vm_Map.thy ===== *)
theory Vm_Map
  imports Kheap
begin

text \<open>
  The virtual memory maps of \<^verbatim>\<open>src/xnu_memory.c\<close> (\<open>vm_map_init\<close>, \<open>vm_map_enter\<close>, \<open>vm_map_remove\<close>,
  \<open>vm_map_protect\<close>, \<open>vm_map_lookup\<close>). The doubly linked list of entries is the list of its
  nodes in order; each entry carries the address of its node, which comes from \<open>kmalloc\<close>
  and goes back through \<open>kfree\<close>, so the kernel heap is threaded through the operations.
  Pointer arguments that may be NULL are options. Addresses and sizes wrap at 32 bits.

  The lemmas show that the entries stay sorted, disjoint and inside the map, that
  \<open>vm_map_enter\<close> is a complete first-fit search, that \<open>vm_map_remove\<close> and \<open>vm_map_protect\<close>
  change the mapping exactly on the given range, and that no entry node leaks.
\<close>

section \<open>Definitions\<close>

type_synonym kern_return = int

abbreviation KERN_SUCCESS :: kern_return where "KERN_SUCCESS \<equiv> 0"
abbreviation KERN_NOT_FOUND :: kern_return where "KERN_NOT_FOUND \<equiv> 5"
abbreviation KERN_NO_SPACE :: kern_return where "KERN_NO_SPACE \<equiv> 6"
abbreviation KERN_RESOURCE_SHORTAGE :: kern_return where "KERN_RESOURCE_SHORTAGE \<equiv> 7"
abbreviation KERN_FAILURE :: kern_return where "KERN_FAILURE \<equiv> 9"
abbreviation KERN_INVALID_ARGUMENT :: kern_return where "KERN_INVALID_ARGUMENT \<equiv> 10"

abbreviation PAGE_SIZE :: u32 where "PAGE_SIZE \<equiv> 4096"
abbreviation sizeof_vm_map_entry :: u32 where "sizeof_vm_map_entry \<equiv> 32"

record vm_map_entry =
  e_node :: u32
  e_start :: u32
  e_end :: u32
  e_protection :: u32
  e_inheritance :: u32
  e_is_mapped :: bool
  e_is_wired :: bool

record vm_map =
  m_entries :: "vm_map_entry list"
  m_num_entries :: u32
  m_size :: u32
  m_base :: u32
  m_ref_count :: u32
  m_lock :: u32

definition vm_map_init :: "vm_map option \<Rightarrow> u32 \<Rightarrow> u32 \<Rightarrow> kern_return \<times> vm_map option" where
  "vm_map_init vm base sz =
     (case vm of
        None \<Rightarrow> (KERN_INVALID_ARGUMENT, vm)
      | Some _ \<Rightarrow>
          if sz = 0 then (KERN_INVALID_ARGUMENT, vm)
          else (KERN_SUCCESS, Some \<lparr>m_entries = [], m_num_entries = 0, m_size = sz, m_base = base,
                                    m_ref_count = 1, m_lock = 0\<rparr>))"

text \<open>The first-fit walk of \<open>vm_map_enter\<close>: where the candidate address ends up.\<close>

fun first_fit :: "u32 \<Rightarrow> u32 \<Rightarrow> u32 \<Rightarrow> vm_map_entry list \<Rightarrow> u32" where
  "first_fit cur sz align [] = cur"
| "first_fit cur sz align (e # es) =
     (if cur + sz \<le> e_start e then cur
      else first_fit (if cur < e_end e then align_up (e_end e) align else cur) sz align es)"

definition overlaps_any :: "u32 \<Rightarrow> u32 \<Rightarrow> vm_map_entry list \<Rightarrow> bool" where
  "overlaps_any a sz es = list_ex (\<lambda>e. \<not> (a + sz \<le> e_start e \<or> e_end e \<le> a)) es"

fun insert_entry :: "vm_map_entry \<Rightarrow> vm_map_entry list \<Rightarrow> vm_map_entry list" where
  "insert_entry ne [] = [ne]"
| "insert_entry ne (e # es) =
     (if e_start e < e_start ne then e # insert_entry ne es else ne # e # es)"

definition eff_align :: "u32 \<Rightarrow> u32" where
  "eff_align msk =
     (let align = (if msk \<noteq> 0 then msk + 1 else PAGE_SIZE)
      in if align AND (align - 1) \<noteq> 0 then PAGE_SIZE else align)"

definition choose_address :: "vm_map \<Rightarrow> u32 \<Rightarrow> u32 \<Rightarrow> u32 \<Rightarrow> u32 \<Rightarrow> kern_return + u32" where
  "choose_address vm req sz msk flags =
     (let align = eff_align msk;
          anywhere = (flags AND 1 \<noteq> 0 \<or> req = 0)
      in if anywhere then
           let cur = first_fit (align_up (m_base vm) align) sz align (m_entries vm)
           in if m_base vm + m_size vm < cur + sz then Inl KERN_NO_SPACE else Inr cur
         else
           let a = align_up req align
           in if a < m_base vm \<or> m_base vm + m_size vm < a + sz then Inl KERN_INVALID_ARGUMENT
              else if overlaps_any a sz (m_entries vm) then Inl KERN_NO_SPACE
              else Inr a)"

text \<open>The results: the status, the vm, the address variable and the heap.\<close>

definition vm_map_enter ::
  "u32 \<Rightarrow> vm_map option \<Rightarrow> u32 option \<Rightarrow> u32 \<Rightarrow> u32 \<Rightarrow> u32 \<Rightarrow> u32 \<Rightarrow> u32 \<Rightarrow> kheap
     \<Rightarrow> (kern_return \<times> vm_map option \<times> u32 option \<times> kheap) option" where
  "vm_map_enter kh vm addr sz msk flags prot inherit h =
     (case (vm, addr) of
        (Some mp, Some req) \<Rightarrow>
          if sz = 0 then Some (KERN_INVALID_ARGUMENT, vm, addr, h)
          else let sz = align_up sz PAGE_SIZE in
            if sz = 0 then Some (KERN_INVALID_ARGUMENT, vm, addr, h)
            else do {
              l \<leftarrow> spin_lock (m_lock mp);
              case choose_address mp req sz msk flags of
                Inl r \<Rightarrow> Some (r, Some (mp\<lparr>m_lock := spin_unlock l\<rparr>), addr, h)
              | Inr chosen \<Rightarrow> do {
                  (ne, h) \<leftarrow> kmalloc kh sizeof_vm_map_entry h;
                  if ne = 0 then Some (KERN_RESOURCE_SHORTAGE, Some (mp\<lparr>m_lock := spin_unlock l\<rparr>), addr, h)
                  else let e = \<lparr>e_node = ne, e_start = chosen, e_end = chosen + sz, e_protection = prot,
                                e_inheritance = inherit, e_is_mapped = True, e_is_wired = False\<rparr>
                       in Some (KERN_SUCCESS,
                                Some (mp\<lparr>m_entries := insert_entry e (m_entries mp),
                                         m_num_entries := m_num_entries mp + 1,
                                         m_lock := spin_unlock l\<rparr>),
                                Some chosen, h)
                }
            }
      | _ \<Rightarrow> Some (KERN_INVALID_ARGUMENT, vm, addr, h))"

fun remove_loop ::
  "u32 \<Rightarrow> u32 \<Rightarrow> u32 \<Rightarrow> vm_map_entry list \<Rightarrow> u32 \<Rightarrow> kheap
     \<Rightarrow> (kern_return \<times> vm_map_entry list \<times> u32 \<times> kheap) option" where
  "remove_loop kh st en [] n h = Some (KERN_SUCCESS, [], n, h)"
| "remove_loop kh st en (e # es) n h =
     (if e_end e \<le> st \<or> en \<le> e_start e then do {
        (r, es', n, h) \<leftarrow> remove_loop kh st en es n h;
        Some (r, e # es', n, h)
      }
      else if st \<le> e_start e \<and> e_end e \<le> en then do {
        h \<leftarrow> kfree kh (e_node e) h;
        remove_loop kh st en es (n - 1) h
      }
      else if e_start e < st \<and> en < e_end e then do {
        (right, h) \<leftarrow> kmalloc kh sizeof_vm_map_entry h;
        if right = 0 then Some (KERN_RESOURCE_SHORTAGE, e # es, n, h)
        else do {
          (r, es', n, h) \<leftarrow> remove_loop kh st en es (n + 1) h;
          Some (r, e\<lparr>e_end := st\<rparr> # e\<lparr>e_node := right, e_start := en\<rparr> # es', n, h)
        }
      }
      else if st \<le> e_start e then do {
        (r, es', n, h) \<leftarrow> remove_loop kh st en es n h;
        Some (r, e\<lparr>e_start := en\<rparr> # es', n, h)
      }
      else do {
        (r, es', n, h) \<leftarrow> remove_loop kh st en es n h;
        Some (r, e\<lparr>e_end := st\<rparr> # es', n, h)
      })"

definition vm_map_remove ::
  "u32 \<Rightarrow> vm_map option \<Rightarrow> u32 \<Rightarrow> u32 \<Rightarrow> kheap \<Rightarrow> (kern_return \<times> vm_map option \<times> kheap) option" where
  "vm_map_remove kh vm st en h =
     (case vm of
        None \<Rightarrow> Some (KERN_INVALID_ARGUMENT, vm, h)
      | Some mp \<Rightarrow>
          if en \<le> st then Some (KERN_INVALID_ARGUMENT, vm, h)
          else if st < m_base mp \<or> m_base mp + m_size mp < en then Some (KERN_INVALID_ARGUMENT, vm, h)
          else do {
            l \<leftarrow> spin_lock (m_lock mp);
            (r, es, n, h) \<leftarrow> remove_loop kh st en (m_entries mp) (m_num_entries mp) h;
            Some (r, Some (mp\<lparr>m_entries := es, m_num_entries := n, m_lock := spin_unlock l\<rparr>), h)
          })"

text \<open>
  The loop of \<open>vm_map_protect\<close>. The part cut off on the right starts at \<open>en\<close>, so the visit
  the code makes to it next finds no overlap and passes on; the recursion goes on with
  the entries after it.
\<close>

fun protect_loop ::
  "u32 \<Rightarrow> u32 \<Rightarrow> u32 \<Rightarrow> u32 \<Rightarrow> vm_map_entry list \<Rightarrow> u32 \<Rightarrow> bool \<Rightarrow> kheap
     \<Rightarrow> (kern_return \<times> vm_map_entry list \<times> u32 \<times> kheap) option" where
  "protect_loop kh st en prot [] n found h =
     Some (if found then KERN_SUCCESS else KERN_NOT_FOUND, [], n, h)"
| "protect_loop kh st en prot (e # es) n found h =
     (if e_end e \<le> st \<or> en \<le> e_start e then do {
        (r, es', n, h) \<leftarrow> protect_loop kh st en prot es n found h;
        Some (r, e # es', n, h)
      }
      else do {
        (p1, h) \<leftarrow> (if e_start e < st then kmalloc kh sizeof_vm_map_entry h else Some (e_node e, h));
        if p1 = 0 \<and> e_start e < st then Some (KERN_RESOURCE_SHORTAGE, e # es, n, h)
        else do {
          let pre = (if e_start e < st then [e\<lparr>e_end := st\<rparr>] else []);
          let n = (if e_start e < st then n + 1 else n);
          let e = (if e_start e < st then e\<lparr>e_node := p1, e_start := st\<rparr> else e);
          (p2, h) \<leftarrow> (if en < e_end e then kmalloc kh sizeof_vm_map_entry h else Some (e_node e, h));
          if p2 = 0 \<and> en < e_end e then Some (KERN_RESOURCE_SHORTAGE, pre @ e # es, n, h)
          else do {
            let post = (if en < e_end e then [e\<lparr>e_node := p2, e_start := en\<rparr>] else []);
            let n = (if en < e_end e then n + 1 else n);
            let e = (if en < e_end e then e\<lparr>e_end := en\<rparr> else e);
            (r, es', n, h) \<leftarrow> protect_loop kh st en prot es n True h;
            Some (r, pre @ e\<lparr>e_protection := prot\<rparr> # post @ es', n, h)
          }
        }
      })"

definition vm_map_protect ::
  "u32 \<Rightarrow> vm_map option \<Rightarrow> u32 \<Rightarrow> u32 \<Rightarrow> u32 \<Rightarrow> bool \<Rightarrow> kheap
     \<Rightarrow> (kern_return \<times> vm_map option \<times> kheap) option" where
  "vm_map_protect kh vm st en new_prot set_max h =
     (case vm of
        None \<Rightarrow> Some (KERN_INVALID_ARGUMENT, vm, h)
      | Some mp \<Rightarrow>
          if en \<le> st then Some (KERN_INVALID_ARGUMENT, vm, h)
          else do {
            l \<leftarrow> spin_lock (m_lock mp);
            (r, es, n, h) \<leftarrow> protect_loop kh st en new_prot (m_entries mp) (m_num_entries mp) False h;
            Some (r, Some (mp\<lparr>m_entries := es, m_num_entries := n, m_lock := spin_unlock l\<rparr>), h)
          })"

definition covers :: "u32 \<Rightarrow> vm_map_entry \<Rightarrow> bool" where
  "covers a e \<longleftrightarrow> e_start e \<le> a \<and> a < e_end e"

text \<open>\<open>entry_out\<close> is the NULL test of the last argument; the entry found is part of the result.\<close>

definition vm_map_lookup ::
  "vm_map option \<Rightarrow> u32 \<Rightarrow> bool \<Rightarrow> (kern_return \<times> vm_map_entry option \<times> vm_map option) option" where
  "vm_map_lookup vm addr entry_out =
     (case vm of
        None \<Rightarrow> Some (KERN_INVALID_ARGUMENT, None, vm)
      | Some mp \<Rightarrow>
          if \<not> entry_out then Some (KERN_INVALID_ARGUMENT, None, vm)
          else do {
            l \<leftarrow> spin_lock (m_lock mp);
            let mp = mp\<lparr>m_lock := spin_unlock l\<rparr>;
            case find (covers addr) (m_entries mp) of
              Some e \<Rightarrow> Some (KERN_SUCCESS, Some e, Some mp)
            | None \<Rightarrow> Some (KERN_NOT_FOUND, None, Some mp)
          })"

section \<open>Rounding up to a power of two\<close>

lemma align_up_pow2:
  assumes "k < 32" "unat v + 2 ^ k \<le> 4294967296"
  shows "unat (align_up v (2 ^ k)) = (unat v + 2 ^ k - 1) div 2 ^ k * 2 ^ k"
proof -
  have nz: "(2 ^ k :: u32) \<noteq> 0" using unat_pow2_32 [OF assms(1)] by (metis power_not_zero unat_0 zero_neq_numeral)
  have e1: "(of_nat (2 ^ k - 1) :: u32) = 2 ^ k - 1" by (simp add: of_nat_diff)
  have e: "v + (2 ^ k - 1) = of_nat (unat v + (2 ^ k - 1))" by (simp only: of_nat_add e1) simp
  have p: "(0 :: nat) < 2 ^ k" by simp
  have "unat (v + (2 ^ k - 1)) = unat v + (2 ^ k - 1)"
    unfolding e using assms(2) p by (intro unat_of_nat_32) linarith
  then show ?thesis using nz unat_and_not_mask [OF assms(1)] by (simp add: align_up_def Let_def)
qed

lemma align_up_bounds:
  assumes "k < 32" "unat v + 2 ^ k \<le> 4294967296"
  shows "2 ^ k dvd unat (align_up v (2 ^ k))" "unat v \<le> unat (align_up v (2 ^ k))"
    "unat (align_up v (2 ^ k)) < unat v + 2 ^ k"
    "2 ^ k dvd unat a \<Longrightarrow> unat v \<le> unat a \<Longrightarrow> unat (align_up v (2 ^ k)) \<le> unat a"
proof -
  let ?r = "(unat v + 2 ^ k - 1) div 2 ^ k * 2 ^ k"
  note e = align_up_pow2 [OF assms]
  have m: "?r + (unat v + 2 ^ k - 1) mod 2 ^ k = unat v + 2 ^ k - 1" by (rule div_mult_mod_eq)
  have l: "(unat v + 2 ^ k - 1) mod 2 ^ k < 2 ^ k" by simp
  show d: "2 ^ k dvd unat (align_up v (2 ^ k))" unfolding e by simp
  show "unat v \<le> unat (align_up v (2 ^ k))" unfolding e using m l by linarith
  show lt: "unat (align_up v (2 ^ k)) < unat v + 2 ^ k" unfolding e using m l by linarith
  assume a: "2 ^ k dvd unat a" "unat v \<le> unat a"
  show "unat (align_up v (2 ^ k)) \<le> unat a"
  proof (rule ccontr)
    assume "\<not> ?thesis"
    then have "2 ^ k dvd unat (align_up v (2 ^ k)) - unat a" "0 < unat (align_up v (2 ^ k)) - unat a"
      using d a(1) by (simp_all add: dvd_diff_nat)
    then show False using dvd_imp_le [of "2 ^ k" "unat (align_up v (2 ^ k)) - unat a"] lt a(2) by linarith
  qed
qed

lemma eff_align_pow2:
  assumes "msk = 0 \<and> k = 12 \<or> msk = 2 ^ k - 1 \<and> 0 < k" "k < 32"
  shows "eff_align msk = 2 ^ k"
proof -
  have p: "(2 ^ k :: u32) AND (2 ^ k - 1) = 0"
    unfolding mask_eq_exp_minus_1 [symmetric] by (rule bit_word_eqI) (auto simp: bit_simps)
  have "unat (2 ^ k :: u32) \<noteq> unat (1 :: u32)" if "0 < k"
    using unat_pow2_32 [OF assms(2)] one_less_power [of "2 :: nat" k] that by simp
  then have "(2 ^ k :: u32) - 1 \<noteq> 0" if "0 < k" using that by auto
  then show ?thesis using assms(1) p by (auto simp: eff_align_def Let_def)
qed

section \<open>The invariant\<close>

text \<open>Entries in order, not empty, not overlapping, between two addresses.\<close>

fun es_ok :: "u32 \<Rightarrow> u32 \<Rightarrow> vm_map_entry list \<Rightarrow> bool" where
  "es_ok lo hi [] = (lo \<le> hi)"
| "es_ok lo hi (e # es) = (lo \<le> e_start e \<and> e_start e < e_end e \<and> es_ok (e_end e) hi es)"

definition vm_map_ok :: "vm_map \<Rightarrow> bool" where
  "vm_map_ok mp \<longleftrightarrow> unat (m_base mp) + unat (m_size mp) < 4294967296 \<and> m_lock mp = 0
     \<and> es_ok (m_base mp) (m_base mp + m_size mp) (m_entries mp)
     \<and> m_num_entries mp = of_nat (length (m_entries mp))"

lemma es_ok_le: "es_ok lo hi es \<Longrightarrow> lo \<le> hi"
  by (induction es arbitrary: lo) (auto, meson less_imp_le order_trans)

lemma es_ok_mem: "es_ok lo hi es \<Longrightarrow> e \<in> set es \<Longrightarrow> lo \<le> e_start e \<and> e_start e < e_end e \<and> e_end e \<le> hi"
proof (induction es arbitrary: lo)
  case (Cons x es)
  show ?case
  proof (cases "e = x")
    case False
    then have "e_end x \<le> e_start e \<and> e_start e < e_end e \<and> e_end e \<le> hi"
      using Cons.IH [of "e_end x"] Cons.prems by simp
    moreover have "lo \<le> e_end x" using Cons.prems(1) by (auto intro: order_trans less_imp_le)
    ultimately show ?thesis by (meson order_trans)
  qed (use Cons.prems es_ok_le in auto)
qed simp

lemma es_ok_mono: "es_ok lo hi es \<Longrightarrow> lo' \<le> lo \<Longrightarrow> es_ok lo' hi es"
  by (cases es) (auto intro: order_trans)

section \<open>First fit\<close>

text \<open>\<open>a\<close> fits beside the entries.\<close>

definition fits :: "u32 \<Rightarrow> u32 \<Rightarrow> vm_map_entry list \<Rightarrow> bool" where
  "fits a sz es \<longleftrightarrow> (\<forall>e\<in>set es. unat a + unat sz \<le> unat (e_start e) \<or> e_end e \<le> a)"

lemma fits_later:
  assumes "es_ok lo hi (e # es)" "unat a + unat sz \<le> unat (e_start e)"
  shows "fits a sz (e # es)"
  unfolding fits_def
proof
  fix x
  assume "x \<in> set (e # es)"
  then have "e_start e \<le> e_start x"
    using assms(1) es_ok_mem [of "e_end e" hi es x] by (auto intro: order_trans less_imp_le)
  then show "unat a + unat sz \<le> unat (e_start x) \<or> e_end x \<le> a" using assms(2) by (simp add: word_le_nat_alt)
qed

lemma first_fit_correct:
  assumes "k < 32" "unat hi + 2 ^ k + unat sz < 4294967296" "es_ok lo hi es"
    "unat cur \<le> unat hi + 2 ^ k" "2 ^ k dvd unat cur"
  shows "fits (first_fit cur sz (2 ^ k) es) sz es \<and> cur \<le> first_fit cur sz (2 ^ k) es
    \<and> unat (first_fit cur sz (2 ^ k) es) \<le> unat hi + 2 ^ k \<and> 2 ^ k dvd unat (first_fit cur sz (2 ^ k) es)
    \<and> (\<forall>a. 2 ^ k dvd unat a \<longrightarrow> cur \<le> a \<longrightarrow> fits a sz es \<longrightarrow> first_fit cur sz (2 ^ k) es \<le> a)"
  using assms(3-5)
proof (induction es arbitrary: cur lo)
  case Nil
  then show ?case by (simp add: fits_def)
next
  case (Cons e es)
  have nw: "unat (cur + sz) = unat cur + unat sz"
    using assms(2) Cons.prems(2) by (intro unat_add_no_wrap) linarith
  show ?case
  proof (cases "cur + sz \<le> e_start e")
    case True
    then have "fits cur sz (e # es)"
      using fits_later [OF Cons.prems(1)] nw by (simp add: word_le_nat_alt)
    then show ?thesis using True Cons.prems by simp
  next
    case False
    define c where "c = (if cur < e_end e then align_up (e_end e) (2 ^ k) else cur)"
    have ee: "e_end e \<le> hi" "es_ok (e_end e) hi es" using Cons.prems(1) es_ok_le by auto
    have av: "unat (e_end e) + 2 ^ k \<le> 4294967296" using ee(1) assms(2) by (simp add: word_le_nat_alt)
    note ab = align_up_bounds [OF assms(1) av]
    have c: "unat c \<le> unat hi + 2 ^ k" "2 ^ k dvd unat c" "cur \<le> c" "e_end e \<le> c"
      using ab(1-3) ee(1) Cons.prems(2,3) unfolding c_def by (auto simp: word_le_nat_alt word_less_nat_alt)
    have IH: "fits (first_fit c sz (2 ^ k) es) sz es" "c \<le> first_fit c sz (2 ^ k) es"
      "unat (first_fit c sz (2 ^ k) es) \<le> unat hi + 2 ^ k" "2 ^ k dvd unat (first_fit c sz (2 ^ k) es)"
      "\<forall>a. 2 ^ k dvd unat a \<longrightarrow> c \<le> a \<longrightarrow> fits a sz es \<longrightarrow> first_fit c sz (2 ^ k) es \<le> a"
      using Cons.IH [OF ee(2) c(1,2)] by blast+
    have ff: "first_fit cur sz (2 ^ k) (e # es) = first_fit c sz (2 ^ k) es" using False by (simp add: c_def)
    have "c \<le> a" if "2 ^ k dvd unat a" "cur \<le> a" "fits a sz (e # es)" for a
    proof -
      have "e_end e \<le> a" using that False nw by (auto simp: fits_def word_le_nat_alt)
      then show ?thesis using ab(4) [OF that(1)] that(2) unfolding c_def by (simp add: word_le_nat_alt)
    qed
    then have "first_fit c sz (2 ^ k) es \<le> a" if "2 ^ k dvd unat a" "cur \<le> a" "fits a sz (e # es)" for a
      using IH(5) that by (simp add: fits_def)
    moreover have "e_end e \<le> first_fit c sz (2 ^ k) es" "cur \<le> first_fit c sz (2 ^ k) es"
      using c IH(2) by (meson order_trans)+
    ultimately show ?thesis unfolding ff using IH by (auto simp: fits_def)
  qed
qed


lemma insert_entry_ok:
  assumes "es_ok lo hi es" "lo \<le> e_start ne" "e_start ne < e_end ne" "e_end ne \<le> hi"
    "\<forall>e\<in>set es. e_end ne \<le> e_start e \<or> e_end e \<le> e_start ne"
  shows "es_ok lo hi (insert_entry ne es)"
  using assms
proof (induction es arbitrary: lo)
  case (Cons e es)
  show ?case
  proof (cases "e_start e < e_start ne")
    case True
    then have "e_end e \<le> e_start ne"
      using Cons.prems by (auto simp: word_le_nat_alt word_less_nat_alt)
    then show ?thesis using True Cons.prems Cons.IH [of "e_end e"] by simp
  next
    case False
    then have "e_end ne \<le> e_start e"
      using Cons.prems by (auto simp: word_le_nat_alt word_less_nat_alt)
    then show ?thesis using False Cons.prems by simp
  qed
qed simp

lemma set_insert_entry: "set (insert_entry ne es) = insert ne (set es)"
  by (induction es) auto

lemma length_insert_entry: "length (insert_entry ne es) = Suc (length es)"
  by (induction es) auto

text \<open>What a map says of an address: protection and inheritance, or nothing.\<close>

definition prot_at :: "vm_map_entry list \<Rightarrow> u32 \<Rightarrow> (u32 \<times> u32) option" where
  "prot_at es a = map_option (\<lambda>e. (e_protection e, e_inheritance e)) (find (covers a) es)"

lemma prot_at_simps [simp]:
  "prot_at [] a = None"
  "prot_at (e # es) a = (if covers a e then Some (e_protection e, e_inheritance e) else prot_at es a)"
  by (simp_all add: prot_at_def)

lemma prot_at_None: "prot_at es a = None \<longleftrightarrow> (\<forall>e\<in>set es. \<not> covers a e)"
  by (induction es) auto

lemma prot_at_below: "es_ok lo hi es \<Longrightarrow> a < lo \<Longrightarrow> prot_at es a = None"
  unfolding prot_at_None covers_def by (meson es_ok_mem leD order_less_le_trans)

lemma prot_at_insert:
  assumes "es_ok lo hi (insert_entry ne es)"
  shows "prot_at (insert_entry ne es) a =
    (if covers a ne then Some (e_protection ne, e_inheritance ne) else prot_at es a)"
  using assms
proof (induction es arbitrary: lo)
  case (Cons e es)
  show ?case
  proof (cases "e_start e < e_start ne")
    case True
    have "\<not> (covers a e \<and> covers a ne)"
      using Cons.prems True es_ok_mem [of "e_end e" hi "insert_entry ne es" ne]
      by (auto simp: covers_def set_insert_entry)
    then show ?thesis using Cons.IH [of "e_end e"] Cons.prems True by auto
  qed simp
qed simp

lemma prot_at_prev: "a < lo \<Longrightarrow> es_ok lo hi es \<Longrightarrow> \<not> (\<exists>e\<in>set es. covers a e)"
  using prot_at_below prot_at_None by metis

section \<open>Entry nodes on the heap\<close>

definition vm_nodes :: "u32 \<Rightarrow> kheap \<Rightarrow> vm_map_entry list \<Rightarrow> bool" where
  "vm_nodes kh h es \<longleftrightarrow> heap_inv kh h \<and> distinct (map e_node es) \<and> set (map e_node es) \<subseteq> dom (live kh h)"

text \<open>The allocated buffers that are no entry of the map.\<close>

definition others :: "u32 \<Rightarrow> kheap \<Rightarrow> vm_map_entry list \<Rightarrow> u32 set" where
  "others kh h es = dom (live kh h) - set (map e_node es)"

lemma vm_nodes_Cons:
  "vm_nodes kh h (e # es) \<longleftrightarrow> vm_nodes kh h es \<and> e_node e \<in> others kh h es"
  by (auto simp: vm_nodes_def others_def)

lemma others_Cons: "others kh h (e # es) = others kh h es - {e_node e}"
  by (auto simp: others_def)

lemma kmalloc_32_ok: "kmalloc_ok sizeof_vm_map_entry"
  by (simp add: kmalloc_ok_def)

lemma node_alloc:
  assumes "heap_inv kh h"
  obtains "kmalloc kh sizeof_vm_map_entry h = Some (0, h)"
  | p h' where "kmalloc kh sizeof_vm_map_entry h = Some (p, h')" "p \<noteq> 0" "heap_inv kh h'"
      "p \<notin> dom (live kh h)" "dom (live kh h') = insert p (dom (live kh h))"
proof -
  obtain p h' where k: "kmalloc kh sizeof_vm_map_entry h = Some (p, h')"
    using kheap.alloc_law [OF assms kmalloc_32_ok] by blast
  show thesis
  proof (rule kheap.alloc_cases [OF assms kmalloc_32_ok k])
    assume "p = 0" "h' = h"
    then show thesis using that(1) k by simp
  next
    fix s
    assume "p \<noteq> 0" "heap_inv kh h'" "live kh h p = None" "live kh h' = (live kh h)(p \<mapsto> s)"
    then show thesis using that(2) [OF k] by auto
  qed
qed

lemma node_free:
  assumes "vm_nodes kh h es" "e_node e \<in> others kh h es"
  obtains h' where "kfree kh (e_node e) h = Some h'" "vm_nodes kh h' es" "others kh h' es = others kh h es - {e_node e}"
proof -
  from assms obtain s where l: "live kh h (e_node e) = Some s" "heap_inv kh h" by (auto simp: vm_nodes_def others_def)
  from kheap.free_law [OF l(2,1)] obtain h' where
    "kfree kh (e_node e) h = Some h'" "heap_inv kh h'" "live kh h' = (live kh h)(e_node e := None)" by blast
  then show thesis using that assms by (auto simp: vm_nodes_def others_def)
qed

section \<open>Removal\<close>

definition cut :: "u32 \<Rightarrow> u32 \<Rightarrow> vm_map_entry list \<Rightarrow> vm_map_entry list \<Rightarrow> bool" where
  "cut st en es es' \<longleftrightarrow> (\<forall>a. prot_at es' a = (if st \<le> a \<and> a < en then None else prot_at es a))"

definition remove_post ::
  "u32 \<Rightarrow> u32 \<Rightarrow> u32 \<Rightarrow> u32 \<Rightarrow> u32 \<Rightarrow> vm_map_entry list \<Rightarrow> u32 \<Rightarrow> kheap \<Rightarrow>
     kern_return \<times> vm_map_entry list \<times> u32 \<times> kheap \<Rightarrow> bool" where
  "remove_post kh st en lo hi es n h res = (case res of (r, es', n', h') \<Rightarrow>
     es_ok lo hi es' \<and> n' + of_nat (length es) = n + of_nat (length es')
     \<and> vm_nodes kh h' es' \<and> others kh h' es' = others kh h es
     \<and> (r = KERN_SUCCESS \<and> cut st en es es' \<or> r = KERN_RESOURCE_SHORTAGE \<and> es' = es \<and> lo < st))"

text \<open>The five branches of the loop, each on top of the result for the entries after it.\<close>

lemma remove_skip:
  assumes "remove_post kh st en (e_end e) hi es n h (r, es', n', h')"
    "es_ok lo hi (e # es)" "vm_nodes kh h (e # es)" "e_end e \<le> st \<or> en \<le> e_start e"
  shows "remove_post kh st en lo hi (e # es) n h (r, e # es', n', h')"
proof -
  have "\<not> (covers a e \<and> st \<le> a \<and> a < en)" for a
    using assms(4) by (auto simp: covers_def word_le_nat_alt word_less_nat_alt)
  moreover have "lo < st" if "e_end e < st" using assms(2) that by (auto simp: word_le_nat_alt word_less_nat_alt)
  ultimately show ?thesis
    using assms(1,2,3) by (auto simp: remove_post_def vm_nodes_Cons others_Cons cut_def add_ac)
qed

lemma remove_whole:
  assumes "remove_post kh st en (e_end e) hi es (n - 1) h1 (r, es', n', h')"
    "es_ok lo hi (e # es)" "st \<le> e_start e" "e_end e \<le> en" "others kh h1 es = others kh h (e # es)"
  shows "remove_post kh st en lo hi (e # es) n h (r, es', n', h')"
proof -
  have "st \<le> a \<and> a < en" if "covers a e" for a
    using assms(3,4) that by (auto simp: covers_def word_le_nat_alt word_less_nat_alt)
  moreover have "\<not> e_end e < st" using assms(2,3) by (auto simp: word_le_nat_alt word_less_nat_alt)
  moreover have "es_ok lo hi es'" using assms(1,2) es_ok_mono [of "e_end e" hi es' lo]
    by (auto simp: remove_post_def intro: order_trans less_imp_le)
  moreover have "n' + of_nat (length (e # es)) = n + of_nat (length es')"
    using assms(1) by (simp add: remove_post_def algebra_simps)
  ultimately show ?thesis using assms(1,5) by (auto simp: remove_post_def cut_def)
qed


lemma remove_split:
  assumes "remove_post kh st en (e_end e) hi es (n + 1) h1 (r, es', n', h')" "r = KERN_SUCCESS"
    "es_ok lo hi (e # es)" "vm_nodes kh h (e # es)" "e_start e < st" "en < e_end e" "st < en"
    "p \<notin> dom (live kh h)" "dom (live kh h1) = insert p (dom (live kh h))"
  shows "remove_post kh st en lo hi (e # es) n h
    (r, e\<lparr>e_end := st\<rparr> # e\<lparr>e_node := p, e_start := en\<rparr> # es', n', h')"
proof -
  have "others kh h1 es = insert p (insert (e_node e) (others kh h (e # es)))" "e_node e \<noteq> p"
    "e_node e \<notin> others kh h (e # es)" "p \<notin> others kh h (e # es)"
    using assms(4,8,9) by (auto simp: others_def vm_nodes_def)
  moreover have "prot_at es' a = (if st \<le> a \<and> a < en then None else prot_at es a)" for a
    using assms(1,2) by (simp add: remove_post_def cut_def)
  moreover have "prot_at es a = None" if "a < e_end e" for a
    using prot_at_below [of "e_end e" hi es a] assms(3) that by simp
  ultimately show ?thesis
    using assms(1-7) by (auto simp: remove_post_def vm_nodes_Cons others_Cons cut_def covers_def
        word_le_nat_alt word_less_nat_alt algebra_simps)
qed

lemma remove_left:
  assumes "remove_post kh st en (e_end e) hi es n h (r, es', n', h')"
    "es_ok lo hi (e # es)" "vm_nodes kh h (e # es)" "st \<le> e_start e" "e_start e < en" "en < e_end e"
  shows "remove_post kh st en lo hi (e # es) n h (r, e\<lparr>e_start := en\<rparr> # es', n', h')"
proof -
  have "\<not> e_end e < st" using assms(2,4) by (auto simp: word_le_nat_alt word_less_nat_alt)
  then show ?thesis
    using assms by (auto simp: remove_post_def vm_nodes_Cons others_Cons cut_def covers_def
        word_le_nat_alt word_less_nat_alt add_ac)
qed

lemma remove_right:
  assumes "remove_post kh st en (e_end e) hi es n h (r, es', n', h')"
    "es_ok lo hi (e # es)" "vm_nodes kh h (e # es)" "e_start e < st" "st < e_end e" "e_end e \<le> en"
  shows "remove_post kh st en lo hi (e # es) n h (r, e\<lparr>e_end := st\<rparr> # es', n', h')"
proof -
  have "es_ok st hi es'" using assms(1,5) es_ok_mono [of "e_end e" hi es' st] by (auto simp: remove_post_def)
  moreover have "\<not> e_end e < st" using assms(5) by simp
  ultimately show ?thesis
    using assms by (auto simp: remove_post_def vm_nodes_Cons others_Cons cut_def covers_def
        word_le_nat_alt word_less_nat_alt add_ac)
qed

lemma remove_loop_post:
  assumes "es_ok lo hi es" "vm_nodes kh h es" "st < en"
  shows "\<exists>res. remove_loop kh st en es n h = Some res \<and> remove_post kh st en lo hi es n h res"
  using assms(1,2)
proof (induction es arbitrary: lo n h)
  case Nil
  then show ?case by (simp add: remove_post_def cut_def)
next
  case (Cons e es)
  have tl: "es_ok (e_end e) hi es" "vm_nodes kh h es" "e_node e \<in> others kh h es" "e_start e < e_end e"
    using Cons.prems by (auto simp: vm_nodes_Cons)
  from Cons.IH [OF tl(1,2), of n] obtain r es' n' h' where
    IH: "remove_loop kh st en es n h = Some (r, es', n', h')"
      "remove_post kh st en (e_end e) hi es n h (r, es', n', h')" by (metis prod_cases4)
  consider (skip) "e_end e \<le> st \<or> en \<le> e_start e"
    | (whole) "\<not> (e_end e \<le> st \<or> en \<le> e_start e)" "st \<le> e_start e" "e_end e \<le> en"
    | (split) "e_start e < st" "en < e_end e"
    | (left) "st \<le> e_start e" "e_start e < en" "en < e_end e"
    | (right) "e_start e < st" "st < e_end e" "e_end e \<le> en"
    by (meson not_less)
  then show ?case
  proof cases
    case skip
    then show ?thesis using remove_skip [OF IH(2) Cons.prems skip] IH(1) by auto
  next
    case whole
    from node_free [OF tl(2,3)] obtain h1 where
      f: "kfree kh (e_node e) h = Some h1" "vm_nodes kh h1 es" "others kh h1 es = others kh h (e # es)"
      unfolding others_Cons by metis
    from Cons.IH [OF tl(1) f(2), of "n - 1"] obtain r es' n' h' where
      "remove_loop kh st en es (n - 1) h1 = Some (r, es', n', h')"
      "remove_post kh st en (e_end e) hi es (n - 1) h1 (r, es', n', h')" by (metis prod_cases4)
    then show ?thesis using remove_whole [OF _ Cons.prems(1) whole(2,3) f(3)] whole f(1) by auto
  next
    case split
    have br: "\<not> (e_end e \<le> st \<or> en \<le> e_start e)" "\<not> (st \<le> e_start e \<and> e_end e \<le> en)"
      using split assms(3) by (auto simp: not_le dest: order.strict_trans)
    have "heap_inv kh h" using tl(2) by (simp add: vm_nodes_def)
    then show ?thesis
    proof (cases rule: node_alloc)
      case 1
      then show ?thesis using br split Cons.prems
        by (auto simp: remove_post_def dest: order_le_less_trans)
    next
      case (2 p h1)
      have v: "vm_nodes kh h1 es" using 2 tl(2) by (auto simp: vm_nodes_def)
      from Cons.IH [OF tl(1) v, of "n + 1"] obtain r es' n' h' where
        k: "remove_loop kh st en es (n + 1) h1 = Some (r, es', n', h')"
          "remove_post kh st en (e_end e) hi es (n + 1) h1 (r, es', n', h')" by (metis prod_cases4)
      have "\<not> e_end e < st" using split(2) assms(3) by (auto simp: word_less_nat_alt)
      then have "r = KERN_SUCCESS" using k(2) by (auto simp: remove_post_def)
      then show ?thesis
        using remove_split [OF k(2) _ Cons.prems split assms(3) 2(4,5)] br split 2 k(1) by auto
    qed
  next
    case left
    then show ?thesis using remove_left [OF IH(2) Cons.prems left] IH(1) by (auto simp: not_le)
  next
    case right
    then show ?thesis using remove_right [OF IH(2) Cons.prems right] IH(1) by (auto simp: not_le)
  qed
qed

section \<open>Protection\<close>

definition recolour :: "u32 \<Rightarrow> (u32 \<times> u32) option \<Rightarrow> (u32 \<times> u32) option" where
  "recolour prot x = map_option (\<lambda>pi. (prot, snd pi)) x"

definition overlaps :: "u32 \<Rightarrow> u32 \<Rightarrow> vm_map_entry \<Rightarrow> bool" where
  "overlaps st en e \<longleftrightarrow> \<not> (e_end e \<le> st \<or> en \<le> e_start e)"

definition protect_post ::
  "u32 \<Rightarrow> u32 \<Rightarrow> u32 \<Rightarrow> u32 \<Rightarrow> u32 \<Rightarrow> u32 \<Rightarrow> vm_map_entry list \<Rightarrow> u32 \<Rightarrow> bool \<Rightarrow> kheap \<Rightarrow>
     kern_return \<times> vm_map_entry list \<times> u32 \<times> kheap \<Rightarrow> bool" where
  "protect_post kh st en prot lo hi es n found h res = (case res of (r, es', n', h') \<Rightarrow>
     es_ok lo hi es' \<and> n' + of_nat (length es) = n + of_nat (length es')
     \<and> vm_nodes kh h' es' \<and> others kh h' es' = others kh h es
     \<and> (\<forall>a. prot_at es' a = prot_at es a \<or> st \<le> a \<and> a < en \<and> prot_at es' a = recolour prot (prot_at es a))
     \<and> (r \<noteq> KERN_RESOURCE_SHORTAGE \<longrightarrow> (\<forall>a. st \<le> a \<longrightarrow> a < en \<longrightarrow> prot_at es' a = recolour prot (prot_at es a)))
     \<and> (r = KERN_RESOURCE_SHORTAGE \<or> r = (if found \<or> list_ex (overlaps st en) es then KERN_SUCCESS else KERN_NOT_FOUND)))"

lemma protect_skip:
  assumes "protect_post kh st en prot (e_end e) hi es n found h (r, es', n', h')"
    "es_ok lo hi (e # es)" "vm_nodes kh h (e # es)" "\<not> overlaps st en e"
  shows "protect_post kh st en prot lo hi (e # es) n found h (r, e # es', n', h')"
proof -
  have "\<not> (covers a e \<and> st \<le> a \<and> a < en)" for a
    using assms(4) by (auto simp: covers_def overlaps_def word_le_nat_alt word_less_nat_alt)
  then show ?thesis
    using assms by (auto simp: protect_post_def vm_nodes_Cons others_Cons add_ac)
qed

text \<open>An entry inside the range is recoloured.\<close>

lemma protect_inside:
  assumes "protect_post kh st en prot (e_end e) hi es n True h (r, es', n', h')"
    "es_ok lo hi (e # es)" "vm_nodes kh h (e # es)" "st \<le> e_start e" "e_end e \<le> en"
  shows "protect_post kh st en prot lo hi (e # es) n found h (r, e\<lparr>e_protection := prot\<rparr> # es', n', h')"
proof -
  have "st \<le> a \<and> a < en" if "covers a e" for a
    using assms(4,5) that by (auto simp: covers_def word_le_nat_alt word_less_nat_alt)
  moreover have "overlaps st en e"
    using assms(2,4,5) by (auto simp: overlaps_def word_le_nat_alt word_less_nat_alt)
  moreover have "covers a (e\<lparr>e_protection := prot\<rparr>) = covers a e" for a by (simp add: covers_def)
  ultimately show ?thesis
    using assms(1-3) by (auto simp: protect_post_def vm_nodes_Cons others_Cons recolour_def add_ac)
qed

text \<open>Splitting an entry in two changes nothing one can observe.\<close>

lemma split_entry_ok:
  assumes "es_ok lo hi (e # es)" "e_start e < x" "x < e_end e"
  shows "es_ok lo hi (e\<lparr>e_end := x\<rparr> # e\<lparr>e_node := p, e_start := x\<rparr> # es)"
    "prot_at (e\<lparr>e_end := x\<rparr> # e\<lparr>e_node := p, e_start := x\<rparr> # es) = prot_at (e # es)"
  using assms by (auto simp: covers_def fun_eq_iff word_le_nat_alt word_less_nat_alt)

lemma split_entry_nodes:
  assumes "vm_nodes kh h (e # es)" "heap_inv kh h1" "p \<notin> dom (live kh h)" "dom (live kh h1) = insert p (dom (live kh h))"
  shows "vm_nodes kh h1 (e\<lparr>e_end := x\<rparr> # e\<lparr>e_node := p, e_start := x\<rparr> # es)"
    "others kh h1 (e\<lparr>e_end := x\<rparr> # e\<lparr>e_node := p, e_start := x\<rparr> # es) = others kh h (e # es)"
  using assms by (auto simp: vm_nodes_def others_def)

lemma protect_split:
  assumes "protect_post kh st en prot lo hi (e\<lparr>e_end := x\<rparr> # e\<lparr>e_node := p, e_start := x\<rparr> # es) (n + 1) found h1 res"
    "es_ok lo hi (e # es)" "vm_nodes kh h (e # es)" "e_start e < x" "x < e_end e" "x = st \<or> x = en" "st < en"
    "overlaps st en e" "heap_inv kh h1" "p \<notin> dom (live kh h)" "dom (live kh h1) = insert p (dom (live kh h))"
  shows "protect_post kh st en prot lo hi (e # es) n found h res"
proof -
  note pa = split_entry_ok(2) [OF assms(2,4,5), of p] and no = split_entry_nodes(2) [OF assms(3,9,10,11), of x]
  have "list_ex (overlaps st en) (e\<lparr>e_end := x\<rparr> # e\<lparr>e_node := p, e_start := x\<rparr> # es)"
    using assms(4-8) by (auto simp: overlaps_def word_le_nat_alt word_less_nat_alt)
  then show ?thesis
    using assms(1,8) unfolding protect_post_def pa no by (auto simp: algebra_simps)
qed

lemma protect_shortage:
  assumes "es_ok lo hi es" "vm_nodes kh h es"
  shows "protect_post kh st en prot lo hi es n found h (KERN_RESOURCE_SHORTAGE, es, n, h)"
  using assms by (simp add: protect_post_def)

text \<open>The second half of a step: the entry starts inside the range.\<close>

definition protect_right ::
  "u32 \<Rightarrow> u32 \<Rightarrow> u32 \<Rightarrow> u32 \<Rightarrow> vm_map_entry \<Rightarrow> vm_map_entry list \<Rightarrow> u32 \<Rightarrow> kheap
     \<Rightarrow> (kern_return \<times> vm_map_entry list \<times> u32 \<times> kheap) option" where
  "protect_right kh st en prot e es n h = do {
     (p2, h) \<leftarrow> (if en < e_end e then kmalloc kh sizeof_vm_map_entry h else Some (e_node e, h));
     if p2 = 0 \<and> en < e_end e then Some (KERN_RESOURCE_SHORTAGE, e # es, n, h)
     else do {
       let post = (if en < e_end e then [e\<lparr>e_node := p2, e_start := en\<rparr>] else []);
       let n = (if en < e_end e then n + 1 else n);
       let e = (if en < e_end e then e\<lparr>e_end := en\<rparr> else e);
       (r, es', n, h) \<leftarrow> protect_loop kh st en prot es n True h;
       Some (r, e\<lparr>e_protection := prot\<rparr> # post @ es', n, h)
     }
   }"

lemma protect_right_post:
  assumes "es_ok lo hi (e # es)" "vm_nodes kh h (e # es)" "st \<le> e_start e" "e_start e < en" "st < en"
    and IH: "\<And>n h. vm_nodes kh h es \<Longrightarrow>
      \<exists>res. protect_loop kh st en prot es n True h = Some res \<and> protect_post kh st en prot (e_end e) hi es n True h res"
  shows "\<exists>res. protect_right kh st en prot e es n h = Some res \<and> protect_post kh st en prot lo hi (e # es) n found h res"
proof (cases "en < e_end e")
  case False
  have "vm_nodes kh h es" using assms(2) by (simp add: vm_nodes_Cons)
  from IH [OF this, of n] obtain r es' n' h' where
    k: "protect_loop kh st en prot es n True h = Some (r, es', n', h')"
      "protect_post kh st en prot (e_end e) hi es n True h (r, es', n', h')" by (metis prod_cases4)
  show ?thesis
    using protect_inside [OF k(2) assms(1-3)] False k(1) by (auto simp: protect_right_def)
next
  case True
  have "heap_inv kh h" using assms(2) by (simp add: vm_nodes_def)
  then show ?thesis
  proof (cases rule: node_alloc)
    case 1
    then show ?thesis using protect_shortage [OF assms(1,2)] True by (auto simp: protect_right_def)
  next
    case (2 p h1)
    let ?r = "e\<lparr>e_node := p, e_start := en\<rparr>" and ?l = "e\<lparr>e_end := en\<rparr>"
    note so = split_entry_ok(1) [OF assms(1,4) True, of p] and sn = split_entry_nodes(1) [OF assms(2) 2(3-5), of en]
    then have v: "vm_nodes kh h1 es" "vm_nodes kh h1 (?r # es)" "es_ok en hi (?r # es)" by (simp_all add: vm_nodes_Cons)
    from IH [OF v(1), of "n + 1"] obtain r es' n' h' where
      k: "protect_loop kh st en prot es (n + 1) True h1 = Some (r, es', n', h')"
        "protect_post kh st en prot (e_end ?r) hi es (n + 1) True h1 (r, es', n', h')" by (simp, metis prod_cases4)
    have "\<not> overlaps st en ?r" "overlaps st en e"
      using assms(3-5) True by (auto simp: overlaps_def word_le_nat_alt word_less_nat_alt)
    note s1 = protect_skip [OF k(2) v(3,2) this(1)]
    have "protect_post kh st en prot (e_end ?l) hi (?r # es) (n + 1) True h1 (r, ?r # es', n', h')" using s1 by simp
    from protect_inside [OF this so sn] assms(3)
    have s2: "protect_post kh st en prot lo hi (?l # ?r # es) (n + 1) found h1
      (r, ?l\<lparr>e_protection := prot\<rparr> # ?r # es', n', h')" by simp
    from protect_split [OF s2 assms(1,2,4) True _ assms(5) \<open>overlaps st en e\<close> 2(3-5)]
    show ?thesis using True 2(1,2) k(1) by (auto simp: protect_right_def)
  qed
qed

lemma protect_loop_overlap:
  assumes "overlaps st en e"
  shows "protect_loop kh st en prot (e # es) n found h =
    (if e_start e < st then do {
       (p1, h) \<leftarrow> kmalloc kh sizeof_vm_map_entry h;
       if p1 = 0 then Some (KERN_RESOURCE_SHORTAGE, e # es, n, h)
       else do {
         (r, es', n, h) \<leftarrow> protect_right kh st en prot (e\<lparr>e_node := p1, e_start := st\<rparr>) es (n + 1) h;
         Some (r, e\<lparr>e_end := st\<rparr> # es', n, h)
       }
     } else protect_right kh st en prot e es n h)"
proof -
  have "e_end e \<le> st \<or> en \<le> e_start e \<longleftrightarrow> False" using assms by (simp add: overlaps_def)
  then show ?thesis
    by (simp add: protect_right_def Let_def split: Option.bind_split prod.split)
qed

declare protect_loop.simps(2) [simp del]

lemma protect_loop_post:
  assumes "es_ok lo hi es" "vm_nodes kh h es" "st < en"
  shows "\<exists>res. protect_loop kh st en prot es n found h = Some res \<and> protect_post kh st en prot lo hi es n found h res"
  using assms(1,2)
proof (induction es arbitrary: lo n h found)
  case Nil
  then show ?case by (simp add: protect_post_def recolour_def)
next
  case (Cons e es)
  have tl: "es_ok (e_end e) hi es" "vm_nodes kh h es" "e_start e < e_end e"
    using Cons.prems by (auto simp: vm_nodes_Cons)
  show ?case
  proof (cases "overlaps st en e")
    case False
    from Cons.IH [OF tl(1,2), of n found] obtain r es' n' h' where
      "protect_loop kh st en prot es n found h = Some (r, es', n', h')"
      "protect_post kh st en prot (e_end e) hi es n found h (r, es', n', h')" by (metis prod_cases4)
    then show ?thesis using protect_skip [OF _ Cons.prems False] False
      by (auto simp: overlaps_def protect_loop.simps(2))
  next
    case ov: True
    have lt: "st < e_end e" "e_start e < en" using ov by (auto simp: overlaps_def not_le)
    show ?thesis
    proof (cases "e_start e < st")
      case False
      have "st \<le> e_start e" using False by simp
      from protect_right_post [OF Cons.prems this lt(2) assms(3) Cons.IH [OF tl(1)], of n found]
      show ?thesis unfolding protect_loop_overlap [OF ov] using False by simp
    next
      case True
      have "heap_inv kh h" using tl(2) by (simp add: vm_nodes_def)
      then show ?thesis
      proof (cases rule: node_alloc)
        case 1
        then show ?thesis using protect_shortage [OF Cons.prems] True protect_loop_overlap [OF ov] by auto
      next
        case (2 p h1)
        let ?r = "e\<lparr>e_node := p, e_start := st\<rparr>" and ?l = "e\<lparr>e_end := st\<rparr>"
        note so = split_entry_ok(1) [OF Cons.prems(1) True lt(1), of p]
          and sn = split_entry_nodes(1) [OF Cons.prems(2) 2(3-5), of st]
        then have v: "vm_nodes kh h1 (?r # es)" "es_ok st hi (?r # es)" by (simp_all add: vm_nodes_Cons)
        have c: "st \<le> e_start ?r" "e_start ?r < en" "es_ok (e_end ?r) hi es" using assms(3) tl(1) by simp_all
        from protect_right_post [OF v(2,1) c(1,2) assms(3) Cons.IH [OF c(3)], of "n + 1" found]
        obtain r es' n' h' where
          k: "protect_right kh st en prot ?r es (n + 1) h1 = Some (r, es', n', h')"
            "protect_post kh st en prot st hi (?r # es) (n + 1) found h1 (r, es', n', h')"
          by (metis prod_cases4)
        have "protect_post kh st en prot (e_end ?l) hi (?r # es) (n + 1) found h1 (r, es', n', h')" using k(2) by simp
        from protect_skip [OF this so sn]
        have "protect_post kh st en prot lo hi (?l # ?r # es) (n + 1) found h1 (r, ?l # es', n', h')"
          by (simp add: overlaps_def)
        from protect_split [OF this Cons.prems True lt(1) _ assms(3) ov 2(3-5)]
        show ?thesis using protect_loop_overlap [OF ov] True 2(1,2) k(1) by auto
      qed
    qed
  qed
qed

section \<open>Entering\<close>

lemma choose_address_ok:
  assumes "vm_map_ok mp" "k < 32" "eff_align msk = 2 ^ k" "sz \<noteq> 0"
    "unat (m_base mp) + unat (m_size mp) + 2 ^ k + unat sz < 4294967296" "unat req + 2 ^ k + unat sz < 4294967296"
  shows "case choose_address mp req sz msk flags of
      Inr a \<Rightarrow> 2 ^ k dvd unat a \<and> m_base mp \<le> a \<and> unat a + unat sz \<le> unat (m_base mp) + unat (m_size mp)
        \<and> fits a sz (m_entries mp)
    | Inl r \<Rightarrow> (flags AND 1 \<noteq> 0 \<or> req = 0) \<longrightarrow>
        \<not> (\<exists>a. 2 ^ k dvd unat a \<and> m_base mp \<le> a \<and> unat a + unat sz \<le> unat (m_base mp) + unat (m_size mp)
          \<and> fits a sz (m_entries mp))"
proof -
  let ?b = "m_base mp" and ?hi = "m_base mp + m_size mp" and ?es = "m_entries mp"
  have hi: "unat ?hi = unat ?b + unat (m_size mp)" using assms(1) by (simp add: vm_map_ok_def unat_add_no_wrap)
  have ok: "es_ok ?b ?hi ?es" using assms(1) by (simp add: vm_map_ok_def)
  show ?thesis
  proof (cases "flags AND 1 \<noteq> 0 \<or> req = 0")
    case True
    define c where "c = align_up ?b (2 ^ k)"
    define r where "r = first_fit c sz (2 ^ k) ?es"
    have "unat ?b + 2 ^ k \<le> 4294967296" using assms(5) by linarith
    note ab = align_up_bounds [OF assms(2) this, folded c_def]
    have pre: "unat ?hi + 2 ^ k + unat sz < 4294967296" "unat c \<le> unat ?hi + 2 ^ k" using assms(5) hi ab(3) by linarith+
    note ff = first_fit_correct [OF assms(2) pre(1) ok pre(2) ab(1), folded r_def]
    have rs: "unat (r + sz) = unat r + unat sz" using ff pre(1) by (intro unat_add_no_wrap) linarith
    have ch: "choose_address mp req sz msk flags = (if ?hi < r + sz then Inl KERN_NO_SPACE else Inr r)"
      using True by (simp add: choose_address_def assms(3) r_def c_def Let_def)
    show ?thesis
    proof (cases "?hi < r + sz")
      case out: True
      have "\<not> unat a + unat sz \<le> unat ?b + unat (m_size mp)"
        if "2 ^ k dvd unat a" "?b \<le> a" "fits a sz ?es" for a
      proof -
        have "unat r \<le> unat a" using ff ab(4) [OF that(1)] that by (simp add: word_le_nat_alt)
        then show ?thesis using out rs hi by (simp add: word_less_nat_alt)
      qed
      then show ?thesis using ch out by auto
    next
      case False
      then show ?thesis using ch ff ab(2) rs hi by (auto simp: word_less_nat_alt word_le_nat_alt)
    qed
  next
    case False
    define a where "a = align_up req (2 ^ k)"
    have "unat req + 2 ^ k \<le> 4294967296" using assms(6) by linarith
    note ab = align_up_bounds [OF assms(2) this, folded a_def]
    have as: "unat (a + sz) = unat a + unat sz" using ab(3) assms(6) by (intro unat_add_no_wrap) linarith
    then have "fits a sz ?es \<longleftrightarrow> \<not> overlaps_any a sz ?es"
      by (auto simp: fits_def overlaps_any_def list_ex_iff word_le_nat_alt)
    then show ?thesis using False ab(1) as hi
      by (auto simp: choose_address_def assms(3) a_def [symmetric] Let_def not_less word_le_nat_alt word_less_nat_alt)
  qed
qed

section \<open>Properties\<close>

lemma distinct_insert_entry:
  "distinct (map e_node (insert_entry e es)) \<longleftrightarrow> e_node e \<notin> set (map e_node es) \<and> distinct (map e_node es)"
  by (induction es) (auto simp: set_insert_entry)

lemma insert_entry_nodes:
  assumes "vm_nodes kh h es" "heap_inv kh h1" "e_node e \<notin> dom (live kh h)" "dom (live kh h1) = insert (e_node e) (dom (live kh h))"
  shows "vm_nodes kh h1 (insert_entry e es)" "others kh h1 (insert_entry e es) = others kh h es"
  using assms by (auto simp: vm_nodes_def others_def distinct_insert_entry set_insert_entry)

lemma vm_map_enter_fail:
  assumes "vm_map_ok mp" "sz \<noteq> 0" "align_up sz 4096 \<noteq> 0" "heap_inv kh h"
    and "choose_address mp req (align_up sz 4096) msk flags = Inl r \<or>
      (\<exists>a. choose_address mp req (align_up sz 4096) msk flags = Inr a) \<and>
      kmalloc kh sizeof_vm_map_entry h = Some (0, h) \<and> r = KERN_RESOURCE_SHORTAGE"
  shows "vm_map_enter kh (Some mp) (Some req) sz msk flags prot inh h = Some (r, Some mp, Some req, h)"
proof -
  have "m_lock mp = 0" using assms(1) by (simp add: vm_map_ok_def)
  then show ?thesis using assms(2,3,5)
    by (auto simp: vm_map_enter_def spin_lock_def spin_unlock_def Let_def)
qed

lemma vm_map_enter_success:
  assumes "vm_map_ok mp" "sz \<noteq> 0" "vm_nodes kh h (m_entries mp)"
    and "choose_address mp req (align_up sz 4096) msk flags = Inr a" "m_base mp \<le> a"
    and "unat a + unat (align_up sz 4096) \<le> unat (m_base mp) + unat (m_size mp)" "fits a (align_up sz 4096) (m_entries mp)"
    and "kmalloc kh sizeof_vm_map_entry h = Some (p, h1)" "p \<noteq> 0" "heap_inv kh h1"
      "p \<notin> dom (live kh h)" "dom (live kh h1) = insert p (dom (live kh h))" "align_up sz 4096 \<noteq> 0"
  shows "\<exists>mp'. vm_map_enter kh (Some mp) (Some req) sz msk flags prot inh h = Some (KERN_SUCCESS, Some mp', Some a, h1)
    \<and> vm_map_ok mp' \<and> vm_nodes kh h1 (m_entries mp') \<and> others kh h1 (m_entries mp') = others kh h (m_entries mp)
    \<and> (\<forall>x. prot_at (m_entries mp') x =
         (if a \<le> x \<and> x < a + align_up sz 4096 then Some (prot, inh) else prot_at (m_entries mp) x))
    \<and> (\<forall>x. a \<le> x \<and> x < a + align_up sz 4096 \<longrightarrow> prot_at (m_entries mp) x = None)"
proof -
  define asz where "asz = align_up sz 4096"
  define e where "e = \<lparr>e_node = p, e_start = a, e_end = a + asz, e_protection = prot,
    e_inheritance = inh, e_is_mapped = True, e_is_wired = False\<rparr>"
  define mp' where "mp' = mp\<lparr>m_entries := insert_entry e (m_entries mp), m_num_entries := m_num_entries mp + 1\<rparr>"
  note A = assms [folded asz_def]
  have l: "m_lock mp = 0" using A(1) by (simp add: vm_map_ok_def)
  have k: "vm_map_enter kh (Some mp) (Some req) sz msk flags prot inh h = Some (KERN_SUCCESS, Some mp', Some a, h1)"
    using A(2,4,8,9,13) l
    by (simp add: vm_map_enter_def asz_def [symmetric] spin_lock_def spin_unlock_def Let_def mp'_def e_def)
  have un: "unat (a + asz) = unat a + unat asz" "unat (m_base mp + m_size mp) = unat (m_base mp) + unat (m_size mp)"
    using A(1,6) by (simp_all add: unat_add_no_wrap vm_map_ok_def)
  have ok: "es_ok (m_base mp) (m_base mp + m_size mp) (insert_entry e (m_entries mp))"
    using A(1,5-7) un unat_gt_0 [of asz] A(13)
    by (intro insert_entry_ok) (auto simp: vm_map_ok_def e_def fits_def word_le_nat_alt word_less_nat_alt)
  have "vm_map_ok mp'" using A(1) ok by (simp add: vm_map_ok_def mp'_def length_insert_entry)
  moreover have "prot_at (m_entries mp) x = None" if "a \<le> x" "x < a + asz" for x
    unfolding prot_at_None using that A(7) un
    by (auto simp: fits_def covers_def word_le_nat_alt word_less_nat_alt)
  moreover have "vm_nodes kh h1 (m_entries mp')" "others kh h1 (m_entries mp') = others kh h (m_entries mp)"
    using insert_entry_nodes [OF A(3,10), of e] A(11,12) by (simp_all add: mp'_def e_def)
  moreover have "prot_at (m_entries mp') x = (if a \<le> x \<and> x < a + asz then Some (prot, inh) else prot_at (m_entries mp) x)" for x
    using prot_at_insert [OF ok, of x] by (simp add: mp'_def covers_def e_def)
  ultimately show ?thesis using k unfolding asz_def by blast
qed

lemma es_ok_unique:
  assumes "es_ok lo hi es" "find (covers a) es = Some e" "e' \<in> set es" "covers a e'"
  shows "e' = e"
  using assms
proof (induction es arbitrary: lo)
  case (Cons x es)
  have later: "\<not> covers a y" if "y \<in> set es" "covers a x" for y
    using es_ok_mem [of "e_end x" hi es y] Cons.prems(1) that by (auto simp: covers_def)
  show ?case using Cons later by (auto split: if_splits)
qed simp

text \<open>A map for the witnesses: 16 MB at 16 MB, empty and with one entry.\<close>

definition demo_map :: vm_map where
  "demo_map = \<lparr>m_entries = [], m_num_entries = 0, m_size = 0x1000000, m_base = 0x1000000, m_ref_count = 1, m_lock = 0\<rparr>"

lemma demo_map_ok: "vm_map_ok demo_map" "vm_nodes 0x200000 demo_heap (m_entries demo_map)"
  by (simp_all add: vm_map_ok_def demo_map_def vm_nodes_def demo_heap_inv word_le_nat_alt)

text \<open>C10. \<open>vm_map_enter\<close>, when the arithmetic stays below \<open>2^32\<close>: it returns and keeps the map
  well formed and its nodes allocated, with no buffer leaked. On success the new range
  is aligned, lies in the map, was unmapped before, and is the only range whose mapping
  changes. On failure nothing changes, and the first-fit search reports that there is no
  space only if no aligned address fits.\<close>

theorem vm_map_enter_correct:
  assumes "vm_map_ok mp" "vm_nodes kh h (m_entries mp)"
    and "msk = 0 \<and> k = 12 \<or> msk = 2 ^ k - 1 \<and> 0 < k" "k < 32" "sz \<noteq> 0"
    and "unat (m_base mp) + unat (m_size mp) + 2 ^ k + unat sz + 4096 < 4294967296"
    and "unat req + 2 ^ k + unat sz + 4096 < 4294967296"
  defines "asz \<equiv> align_up sz 4096"
  shows "\<exists>r mp' a' h'. vm_map_enter kh (Some mp) (Some req) sz msk flags prot inh h = Some (r, Some mp', Some a', h')
    \<and> vm_map_ok mp' \<and> vm_nodes kh h' (m_entries mp') \<and> others kh h' (m_entries mp') = others kh h (m_entries mp)
    \<and> (r = KERN_SUCCESS \<and> 2 ^ k dvd unat a' \<and> m_base mp \<le> a' \<and> unat a' + unat asz \<le> unat (m_base mp) + unat (m_size mp)
          \<and> (\<forall>x. prot_at (m_entries mp') x = (if a' \<le> x \<and> x < a' + asz then Some (prot, inh) else prot_at (m_entries mp) x))
          \<and> (\<forall>x. a' \<le> x \<and> x < a' + asz \<longrightarrow> prot_at (m_entries mp) x = None)
       \<or> r \<noteq> KERN_SUCCESS \<and> mp' = mp \<and> h' = h \<and> a' = req
          \<and> (r = KERN_NO_SPACE \<and> (flags AND 1 \<noteq> 0 \<or> req = 0) \<longrightarrow>
               \<not> (\<exists>a. 2 ^ k dvd unat a \<and> m_base mp \<le> a \<and> unat a + unat asz \<le> unat (m_base mp) + unat (m_size mp)
                     \<and> fits a asz (m_entries mp))))"
proof -
  have a1: "unat sz + 2 ^ 12 \<le> 4294967296" using assms(7) by simp
  have asz: "asz \<noteq> 0" "unat asz < unat sz + 4096"
    using align_up_bounds(2,3) [of 12 sz] a1 assms(5) unat_gt_0 [of sz] by (auto simp: asz_def)
  have ea: "eff_align msk = 2 ^ k" using eff_align_pow2 [OF assms(3,4)] .
  have b: "unat (m_base mp) + unat (m_size mp) + 2 ^ k + unat asz < 4294967296"
    "unat req + 2 ^ k + unat asz < 4294967296" using assms(6,7) asz(2) by linarith+
  note ca = choose_address_ok [OF assms(1,4) ea asz(1) b, of flags]
  have hi: "heap_inv kh h" using assms(2) by (simp add: vm_nodes_def)
  note fail = vm_map_enter_fail [OF assms(1,5) asz(1) [unfolded asz_def] hi, folded asz_def]
  show ?thesis
  proof (cases "choose_address mp req asz msk flags")
    case (Inl r)
    have "r \<noteq> KERN_SUCCESS"
      using Inl by (auto simp: choose_address_def Let_def split: if_splits)
    then show ?thesis using fail [of req msk flags r prot inh] Inl ca assms(1,2) by auto
  next
    case (Inr a)
    have av: "2 ^ k dvd unat a" "m_base mp \<le> a" "unat a + unat asz \<le> unat (m_base mp) + unat (m_size mp)"
      "fits a asz (m_entries mp)" using ca Inr by auto
    from hi show ?thesis
    proof (cases rule: node_alloc)
      case 1
      then show ?thesis using fail [of req msk flags KERN_RESOURCE_SHORTAGE prot inh] Inr assms(1,2) by auto
    next
      case (2 p h1)
      from vm_map_enter_success [OF assms(1,5,2), folded asz_def, OF Inr av(2-4) 2 asz(1), of prot inh]
      show ?thesis using av by blast
    qed
  qed
qed


theorem vm_map_enter_correct_witness:
  "\<exists>r mp' a' h'. vm_map_enter 0x200000 (Some demo_map) (Some 0) 5000 0 1 3 1 demo_heap = Some (r, Some mp', Some a', h')
    \<and> vm_map_ok mp' \<and> (r = KERN_SUCCESS \<longrightarrow> 4096 dvd unat a' \<and> prot_at (m_entries mp') a' = Some (3, 1))"
proof -
  have u: "unat (align_up 5000 4096) = 8192" using align_up_pow2 [of 12 5000] by simp
  obtain r mp' a' h' where k: "vm_map_enter 0x200000 (Some demo_map) (Some 0) 5000 0 1 3 1 demo_heap = Some (r, Some mp', Some a', h')"
    "vm_map_ok mp'" "r = KERN_SUCCESS \<longrightarrow> 2 ^ 12 dvd unat a' \<and> unat a' + 8192 \<le> 0x2000000 \<and> (\<forall>x. prot_at (m_entries mp') x =
       (if a' \<le> x \<and> x < a' + align_up 5000 4096 then Some (3, 1) else prot_at [] x))"
    using vm_map_enter_correct [OF demo_map_ok, of 0 12 5000 0 1 3 1] u by (auto simp: demo_map_def)
  moreover have "a' < a' + align_up 5000 4096" if "unat a' + 8192 \<le> 0x2000000"
    using that u by (simp add: word_less_nat_alt unat_add_no_wrap)
  ultimately show ?thesis by auto
qed

text \<open>C11. \<open>vm_map_remove\<close> on a range of the map returns, keeps the map well formed and leaks
  no node. When it succeeds the range is unmapped and every other address keeps its
  mapping; when no node is left to split an entry it changes nothing.\<close>

theorem vm_map_remove_correct:
  assumes "vm_map_ok mp" "vm_nodes kh h (m_entries mp)" "st < en" "m_base mp \<le> st" "en \<le> m_base mp + m_size mp"
  shows "\<exists>r mp' h'. vm_map_remove kh (Some mp) st en h = Some (r, Some mp', h') \<and> vm_map_ok mp'
    \<and> vm_nodes kh h' (m_entries mp') \<and> others kh h' (m_entries mp') = others kh h (m_entries mp)
    \<and> (r = KERN_SUCCESS \<and> (\<forall>a. prot_at (m_entries mp') a = (if st \<le> a \<and> a < en then None else prot_at (m_entries mp) a))
       \<or> r = KERN_RESOURCE_SHORTAGE \<and> mp' = mp)"
proof -
  have ok: "es_ok (m_base mp) (m_base mp + m_size mp) (m_entries mp)" "m_lock mp = 0"
    using assms(1) by (simp_all add: vm_map_ok_def)
  from remove_loop_post [OF ok(1) assms(2,3), of "m_num_entries mp"] obtain r es n h' where
    k: "remove_loop kh st en (m_entries mp) (m_num_entries mp) h = Some (r, es, n, h')"
      "remove_post kh st en (m_base mp) (m_base mp + m_size mp) (m_entries mp) (m_num_entries mp) h (r, es, n, h')"
    by (metis prod_cases4)
  define mp' where "mp' = mp\<lparr>m_entries := es, m_num_entries := n\<rparr>"
  have n: "n = of_nat (length es)" using k(2) assms(1) by (simp add: remove_post_def vm_map_ok_def add.commute)
  have "vm_map_remove kh (Some mp) st en h = Some (r, Some mp', h')"
    using assms(3-5) ok(2) k(1) by (auto simp: vm_map_remove_def spin_lock_def spin_unlock_def mp'_def)
  moreover have "vm_map_ok mp'" using assms(1) k(2) n by (simp add: vm_map_ok_def mp'_def remove_post_def)
  moreover have "mp' = mp" if "es = m_entries mp" using that n assms(1) by (simp add: mp'_def vm_map_ok_def)
  ultimately show ?thesis using k(2) by (auto simp: remove_post_def cut_def mp'_def)
qed

theorem vm_map_remove_correct_witness:
  "\<exists>r mp' h'. vm_map_remove 0x200000 (Some demo_map) 0x1001000 0x1002000 demo_heap = Some (r, Some mp', h') \<and> vm_map_ok mp'"
  using vm_map_remove_correct [OF demo_map_ok, of "0x1001000" "0x1002000"] by (force simp: demo_map_def)

text \<open>C12. \<open>vm_map_protect\<close> returns, keeps the map well formed and leaks no node. When it
  does not run out of nodes it gives every mapped address of the range the new
  protection, and reports \<open>KERN_NOT_FOUND\<close> exactly when no entry meets the range; no address
  outside the range changes, and nothing is mapped or unmapped, in any case.\<close>

theorem vm_map_protect_correct:
  assumes "vm_map_ok mp" "vm_nodes kh h (m_entries mp)" "st < en"
  shows "\<exists>r mp' h'. vm_map_protect kh (Some mp) st en prot mx h = Some (r, Some mp', h') \<and> vm_map_ok mp'
    \<and> vm_nodes kh h' (m_entries mp') \<and> others kh h' (m_entries mp') = others kh h (m_entries mp)
    \<and> (\<forall>a. \<not> (st \<le> a \<and> a < en) \<longrightarrow> prot_at (m_entries mp') a = prot_at (m_entries mp) a)
    \<and> (\<forall>a. (prot_at (m_entries mp') a = None) = (prot_at (m_entries mp) a = None))
    \<and> (r \<noteq> KERN_RESOURCE_SHORTAGE \<longrightarrow>
         (\<forall>a. st \<le> a \<longrightarrow> a < en \<longrightarrow> prot_at (m_entries mp') a = map_option (\<lambda>pi. (prot, snd pi)) (prot_at (m_entries mp) a))
         \<and> (r = KERN_SUCCESS \<or> r = KERN_NOT_FOUND)
         \<and> (r = KERN_NOT_FOUND) = (\<forall>e\<in>set (m_entries mp). e_end e \<le> st \<or> en \<le> e_start e))"
proof -
  have ok: "es_ok (m_base mp) (m_base mp + m_size mp) (m_entries mp)" "m_lock mp = 0"
    using assms(1) by (simp_all add: vm_map_ok_def)
  from protect_loop_post [OF ok(1) assms(2,3), of prot "m_num_entries mp" False] obtain r es n h' where
    k: "protect_loop kh st en prot (m_entries mp) (m_num_entries mp) False h = Some (r, es, n, h')"
      "protect_post kh st en prot (m_base mp) (m_base mp + m_size mp) (m_entries mp) (m_num_entries mp) False h (r, es, n, h')"
    by (metis prod_cases4)
  define mp' where "mp' = mp\<lparr>m_entries := es, m_num_entries := n\<rparr>"
  have n: "n = of_nat (length es)" using k(2) assms(1) by (simp add: protect_post_def vm_map_ok_def add.commute)
  have v: "vm_map_protect kh (Some mp) st en prot mx h = Some (r, Some mp', h')"
    using assms(3) ok(2) k(1) by (auto simp: vm_map_protect_def spin_lock_def spin_unlock_def mp'_def)
  have ok': "vm_map_ok mp'" using assms(1) k(2) n by (simp add: vm_map_ok_def mp'_def protect_post_def)
  have pa: "prot_at (m_entries mp') a = prot_at (m_entries mp) a \<or>
      st \<le> a \<and> a < en \<and> prot_at (m_entries mp') a = recolour prot (prot_at (m_entries mp) a)" for a
    using k(2) by (simp add: protect_post_def mp'_def)
  have "(prot_at (m_entries mp') a = None) = (prot_at (m_entries mp) a = None)" for a
    using pa [of a] by (auto simp: recolour_def)
  moreover have "prot_at (m_entries mp') a = prot_at (m_entries mp) a" if "\<not> (st \<le> a \<and> a < en)" for a
    using pa [of a] that by blast
  moreover have "r \<noteq> KERN_RESOURCE_SHORTAGE \<longrightarrow> (r = KERN_SUCCESS \<or> r = KERN_NOT_FOUND) \<and>
      (r = KERN_NOT_FOUND) = (\<forall>e\<in>set (m_entries mp). e_end e \<le> st \<or> en \<le> e_start e)"
  proof -
    have "r = KERN_RESOURCE_SHORTAGE \<or> r = (if list_ex (overlaps st en) (m_entries mp) then KERN_SUCCESS else KERN_NOT_FOUND)"
      using k(2) by (simp add: protect_post_def)
    moreover have "list_ex (overlaps st en) (m_entries mp) \<longleftrightarrow>
        \<not> (\<forall>e\<in>set (m_entries mp). e_end e \<le> st \<or> en \<le> e_start e)"
      by (simp add: overlaps_def list_ex_iff)
    ultimately show ?thesis by (auto split: if_splits)
  qed
  moreover have "r \<noteq> KERN_RESOURCE_SHORTAGE \<longrightarrow> (\<forall>a. st \<le> a \<longrightarrow> a < en \<longrightarrow>
      prot_at (m_entries mp') a = map_option (\<lambda>pi. (prot, snd pi)) (prot_at (m_entries mp) a))"
    "vm_nodes kh h' (m_entries mp')" "others kh h' (m_entries mp') = others kh h (m_entries mp)"
    using k(2) by (simp_all add: protect_post_def mp'_def recolour_def)
  ultimately show ?thesis using v ok' by blast
qed

theorem vm_map_protect_correct_witness:
  "\<exists>mp' h'. vm_map_protect 0x200000 (Some demo_map) 0x1001000 0x1002000 1 False demo_heap = Some (KERN_NOT_FOUND, Some mp', h')"
proof -
  obtain r mp' h' where
    k: "vm_map_protect 0x200000 (Some demo_map) 0x1001000 0x1002000 1 False demo_heap = Some (r, Some mp', h')"
    and e: "r \<noteq> KERN_RESOURCE_SHORTAGE \<longrightarrow> r = KERN_NOT_FOUND"
    using vm_map_protect_correct [OF demo_map_ok, of "0x1001000" "0x1002000" 1 False] by (auto simp: demo_map_def)
  have "r \<noteq> KERN_RESOURCE_SHORTAGE" using k by (simp add: vm_map_protect_def demo_map_def spin_lock_def)
  then show ?thesis using k e by auto
qed

text \<open>\<open>vm_map_lookup\<close> returns the entry that covers an address, and \<open>KERN_NOT_FOUND\<close> exactly
  when the address is not mapped; entries do not overlap, so that entry is the only one.\<close>

theorem vm_map_lookup_correct:
  assumes "vm_map_ok mp"
  shows "(\<exists>e. vm_map_lookup (Some mp) a True = Some (KERN_SUCCESS, Some e, Some mp) \<and> covers a e
           \<and> (\<forall>e'\<in>set (m_entries mp). covers a e' \<longrightarrow> e' = e))
    \<or> vm_map_lookup (Some mp) a True = Some (KERN_NOT_FOUND, None, Some mp) \<and> (\<forall>e\<in>set (m_entries mp). \<not> covers a e)"
proof -
  have "m_lock mp = 0" using assms by (simp add: vm_map_ok_def)
  then have l: "vm_map_lookup (Some mp) a True = (case find (covers a) (m_entries mp) of
      Some e \<Rightarrow> Some (KERN_SUCCESS, Some e, Some mp) | None \<Rightarrow> Some (KERN_NOT_FOUND, None, Some mp))"
    by (simp add: vm_map_lookup_def spin_lock_def spin_unlock_def Let_def split: option.split)
  show ?thesis
  proof (cases "find (covers a) (m_entries mp)")
    case None
    then have "\<forall>e\<in>set (m_entries mp). \<not> covers a e" by (simp add: find_None_iff)
    then show ?thesis using l None by simp
  next
    case (Some e)
    have "\<forall>e'\<in>set (m_entries mp). covers a e' \<longrightarrow> e' = e"
      using es_ok_unique [of _ _ "m_entries mp" a] Some assms by (auto simp: vm_map_ok_def)
    moreover have "covers a e" using Some by (auto simp: find_Some_iff)
    ultimately show ?thesis using Some l by auto
  qed
qed

theorem vm_map_lookup_correct_witness:
  "vm_map_lookup (Some demo_map) 0x1000000 True = Some (KERN_NOT_FOUND, None, Some demo_map)"
  using vm_map_lookup_correct [OF demo_map_ok(1), of "0x1000000"] by (auto simp: demo_map_def covers_def vm_map_lookup_def spin_lock_def)

text \<open>The limit of \<open>vm_map_enter\<close>: on an empty map a request whose end wraps around the
  address space is granted, with an end below its start, although the map is smaller.\<close>

theorem vm_map_enter_wraps:
  assumes "vm_map_ok mp" "m_entries mp = []" "4096 dvd unat (m_base mp)" "heap_inv kh h"
    and "4096 dvd unat sz" "4294967296 \<le> unat (m_base mp) + unat sz"
    and "kmalloc kh sizeof_vm_map_entry h = Some (p, h')" "p \<noteq> 0"
  shows "\<exists>mp' e. vm_map_enter kh (Some mp) (Some 0) sz 0 1 prot inh h = Some (KERN_SUCCESS, Some mp', Some (m_base mp), h')
    \<and> m_entries mp' = [e] \<and> e_start e = m_base mp \<and> e_end e < e_start e"
proof -
  have ub: "unat sz + 4096 \<le> 4294967296"
  proof -
    obtain q where "unat sz = 4096 * q" using assms(5) by blast
    moreover from this have "q < 1048576" using unat_less_2p32 [of sz] by linarith
    ultimately show ?thesis by linarith
  qed
  have bb: "unat (m_base mp) + 4096 \<le> 4294967296"
  proof -
    obtain q where "unat (m_base mp) = 4096 * q" using assms(3) by blast
    moreover from this have "q < 1048576" using unat_less_2p32 [of "m_base mp"] by linarith
    ultimately show ?thesis by linarith
  qed
  have fix4k: "align_up v 4096 = v" if "4096 dvd unat v" "unat v + 4096 \<le> 4294967296" for v
    using align_up_bounds(2) [of 12 v] align_up_bounds(4) [of 12 v v] that by (simp add: word_unat_eq_iff)
  have nz: "sz \<noteq> 0" using assms(6) unat_less_2p32 [of "m_base mp"] by (auto simp del: unat_less_2p32)
  have w: "unat (m_base mp + sz) = unat (m_base mp) + unat sz - 4294967296"
    using assms(6) ub bb by (simp add: unat_word_ariths mod_if)
  have hi: "unat (m_base mp + m_size mp) = unat (m_base mp) + unat (m_size mp)"
    using assms(1) by (simp add: vm_map_ok_def unat_add_no_wrap)
  have lt: "m_base mp + sz < m_base mp" using w ub assms(6) by (simp add: word_less_nat_alt)
  have "choose_address mp 0 sz 0 1 = Inr (m_base mp)"
    using assms(2) fix4k [OF assms(3) bb] w hi ub
    by (simp add: choose_address_def eff_align_def Let_def word_less_nat_alt)
  then show ?thesis using assms(1,2,7,8) nz fix4k [OF assms(5) ub] lt
    by (simp add: vm_map_enter_def spin_lock_def spin_unlock_def Let_def vm_map_ok_def)
qed

theorem vm_map_enter_wraps_witness:
  "\<exists>h' mp' e. vm_map_enter 0x200000 (Some demo_map) (Some 0) 0xFFFFF000 0 1 3 1 demo_heap =
      Some (KERN_SUCCESS, Some mp', Some 0x1000000, h') \<and> m_entries mp' = [e] \<and> e_end e < e_start e"
proof -
  obtain h' where "kmalloc 0x200000 sizeof_vm_map_entry demo_heap = Some (0x200010, h')"
    using kmalloc_abs [OF demo_heap_rep, of 32] by (auto simp: round8_def)
  from vm_map_enter_wraps [OF demo_map_ok(1) _ _ demo_heap_inv _ _ this, of "0xFFFFF000" 3 1]
  show ?thesis by (auto simp: demo_map_def)
qed

end
