(* ===== verification/Pmap.thy ===== *)
theory Pmap
  imports Vm_Map
begin

text \<open>
  The physical page manager of \<^verbatim>\<open>src/xnu_memory.c\<close> (\<open>pmap_init\<close>, \<open>pmap_alloc_page\<close>,
  \<open>pmap_free_page\<close>, \<open>pmap_enter\<close>, \<open>pmap_remove\<close>). The page descriptors are the list
  \<open>pages\<close>, indexed by frame, and a \<open>phys_page_t *\<close> is an optional index into it. The stack of
  free frames is the list \<open>pmap_free_stack\<close> with its top. Both arrays come from \<open>kmalloc\<close>, so
  their addresses are kept too and the kernel heap is threaded through \<open>pmap_init\<close>.

  The lemmas show that the stack and the linked free list always hold the same frames,
  that allocation and release are pop and push on that list, and that a frame is never
  handed out twice.
\<close>

section \<open>Definitions\<close>

record phys_page =
  frame_number :: u32
  ref_count :: u32
  is_free :: bool
  is_wired :: bool
  pg_next :: "nat option"

record phys_mem_manager =
  pages_ptr :: u32
  pages :: "phys_page list"
  total_pages :: u32
  free_pages :: u32
  free_list :: "nat option"
  pm_lock :: u32

record pmap = phys_mem_manager +
  pmap_initialized :: bool
  pmap_free_stack_ptr :: u32
  pmap_free_stack :: "u32 list"
  pmap_stack_top :: u32
  pmap_stack_cap :: u32

abbreviation PMAP_MAX_PAGES :: u32 where "PMAP_MAX_PAGES \<equiv> 16384"
abbreviation sizeof_phys_page :: u32 where "sizeof_phys_page \<equiv> 20"
abbreviation NO_FRAME :: u32 where "NO_FRAME \<equiv> 0xFFFFFFFF"

definition init_page :: "nat \<Rightarrow> phys_page" where
  "init_page i = \<lparr>frame_number = of_nat i, ref_count = 0, is_free = (i \<noteq> 0), is_wired = False, pg_next = None\<rparr>"

definition push_frame :: "nat \<Rightarrow> pmap \<Rightarrow> pmap" where
  "push_frame f s = s\<lparr>pmap_free_stack := (pmap_free_stack s)[unat (pmap_stack_top s) := of_nat f],
     pmap_stack_top := pmap_stack_top s + 1, free_pages := free_pages s + 1\<rparr>"

definition link_page :: "nat \<Rightarrow> pmap \<Rightarrow> pmap" where
  "link_page f s = s\<lparr>pages := (pages s)[f := (pages s ! f)\<lparr>pg_next := free_list s\<rparr>], free_list := Some f\<rparr>"

text \<open>
  The part of \<open>pmap_init\<close> after both arrays have been allocated. The stack array is not
  cleared, so its unused words are what the heap memory holds there.
\<close>

definition pmap_build :: "mem \<Rightarrow> pmap \<Rightarrow> pmap" where
  "pmap_build m s =
     (let n = unat (total_pages s);
          s = s\<lparr>pages := map init_page [0..<n],
                pmap_free_stack := map (\<lambda>i. rd32 m (pmap_free_stack_ptr s + 4 * of_nat i)) [0..<n],
                pmap_stack_top := 0\<rparr>;
          s = fold push_frame [1..<n] s;
          s = fold link_page [1..<n] (s\<lparr>free_list := None\<rparr>)
      in s\<lparr>pmap_initialized := True\<rparr>)"

text \<open>The allocation of the two arrays in \<open>pmap_init\<close>, once the number of pages is known.\<close>

definition pmap_tables :: "u32 \<Rightarrow> pmap \<Rightarrow> kheap \<Rightarrow> (kern_return \<times> pmap \<times> kheap) option" where
  "pmap_tables kh s h = do {
     (pg, h) \<leftarrow> kmalloc kh (sizeof_phys_page * total_pages s) h;
     if pg = 0 then Some (KERN_RESOURCE_SHORTAGE, s\<lparr>pages_ptr := pg\<rparr>, h)
     else do {
       let h = h\<lparr>kmem := snd (lib_memset (kmem h) pg 0 (sizeof_phys_page * total_pages s))\<rparr>;
       (st, h) \<leftarrow> kmalloc kh (4 * total_pages s) h;
       let s = s\<lparr>pages_ptr := pg, pmap_stack_cap := total_pages s, pmap_free_stack_ptr := st\<rparr>;
       if st = 0 then do {
         h \<leftarrow> kfree kh pg h;
         Some (KERN_RESOURCE_SHORTAGE, s\<lparr>pages_ptr := 0\<rparr>, h)
       }
       else Some (KERN_SUCCESS, pmap_build (kmem h) s, h)
     }
   }"

definition pmap_init :: "u32 \<Rightarrow> u32 \<Rightarrow> pmap \<Rightarrow> kheap \<Rightarrow> (kern_return \<times> pmap \<times> kheap) option" where
  "pmap_init kh mem_size s h =
     (if pmap_initialized s then Some (KERN_SUCCESS, s, h)
      else if mem_size = 0 then Some (KERN_INVALID_ARGUMENT, s, h)
      else
        let h = (if heap_initialized h then h else heap_init kh h);
            s = s\<lparr>total_pages := mem_size div PAGE_SIZE\<rparr>
        in if total_pages s = 0 then Some (KERN_INVALID_ARGUMENT, s, h)
           else
             let s = (if PMAP_MAX_PAGES < total_pages s then s\<lparr>total_pages := PMAP_MAX_PAGES\<rparr> else s);
                 s = s\<lparr>free_pages := 0, pages_ptr := 0, free_list := None, pm_lock := 0\<rparr>
             in pmap_tables kh s h)"

text \<open>The walk of \<open>pmap_alloc_page\<close> to the predecessor of a page in the free list.\<close>

partial_function (option) find_prev :: "phys_page list \<Rightarrow> nat option \<Rightarrow> nat \<Rightarrow> nat option option" where
  "find_prev pgs cur pg =
     (case cur of
        None \<Rightarrow> Some None
      | Some c \<Rightarrow> if pg_next (pgs ! c) = Some pg then Some (Some c) else find_prev pgs (pg_next (pgs ! c)) pg)"

definition unlink_page :: "nat \<Rightarrow> pmap \<Rightarrow> pmap option" where
  "unlink_page pg s =
     (if free_list s = Some pg then Some (s\<lparr>free_list := pg_next (pages s ! pg)\<rparr>)
      else do {
        cur \<leftarrow> find_prev (pages s) (free_list s) pg;
        Some (case cur of
            None \<Rightarrow> s
          | Some c \<Rightarrow> s\<lparr>pages := (pages s)[c := (pages s ! c)\<lparr>pg_next := pg_next (pages s ! pg)\<rparr>]\<rparr>)
      })"

definition pmap_alloc_page :: "pmap \<Rightarrow> (u32 \<times> pmap) option" where
  "pmap_alloc_page s =
     (if \<not> pmap_initialized s then Some (NO_FRAME, s)
      else do {
        l \<leftarrow> spin_lock (pm_lock s);
        if free_pages s = 0 \<or> pmap_stack_top s = 0 then Some (NO_FRAME, s\<lparr>pm_lock := spin_unlock l\<rparr>)
        else do {
          let s = s\<lparr>pmap_stack_top := pmap_stack_top s - 1\<rparr>;
          let frame = pmap_free_stack s ! unat (pmap_stack_top s);
          if total_pages s \<le> frame then Some (NO_FRAME, s\<lparr>pm_lock := spin_unlock l\<rparr>)
          else if \<not> is_free (pages s ! unat frame) then Some (NO_FRAME, s\<lparr>pm_lock := spin_unlock l\<rparr>)
          else do {
            let pg = unat frame;
            let s = s\<lparr>pages := (pages s)[pg := (pages s ! pg)\<lparr>is_free := False, ref_count := 1\<rparr>]\<rparr>;
            s \<leftarrow> unlink_page pg s;
            let s = s\<lparr>pages := (pages s)[pg := (pages s ! pg)\<lparr>pg_next := None\<rparr>]\<rparr>;
            Some (frame, s\<lparr>free_pages := free_pages s - 1, pm_lock := spin_unlock l\<rparr>)
          }
        }
      })"

definition pmap_free_page :: "u32 \<Rightarrow> pmap \<Rightarrow> (kern_return \<times> pmap) option" where
  "pmap_free_page frame s =
     (if \<not> pmap_initialized s \<or> total_pages s \<le> frame \<or> frame = 0 then Some (KERN_INVALID_ARGUMENT, s)
      else do {
        l \<leftarrow> spin_lock (pm_lock s);
        let pg = unat frame;
        if is_free (pages s ! pg) then Some (KERN_INVALID_ARGUMENT, s\<lparr>pm_lock := spin_unlock l\<rparr>)
        else do {
          let s = s\<lparr>pages := (pages s)[pg := (pages s ! pg)\<lparr>is_free := True, ref_count := 0\<rparr>]\<rparr>;
          if pmap_stack_cap s \<le> pmap_stack_top s then Some (KERN_FAILURE, s\<lparr>pm_lock := spin_unlock l\<rparr>)
          else do {
            let s = s\<lparr>pmap_free_stack := (pmap_free_stack s)[unat (pmap_stack_top s) := frame],
                      pmap_stack_top := pmap_stack_top s + 1\<rparr>;
            let s = link_page pg s;
            Some (KERN_SUCCESS, s\<lparr>free_pages := free_pages s + 1, pm_lock := spin_unlock l\<rparr>)
          }
        }
      })"

definition pmap_enter :: "vm_map option \<Rightarrow> u32 \<Rightarrow> u32 \<Rightarrow> pmap \<Rightarrow> (kern_return \<times> vm_map option) option" where
  "pmap_enter vm vaddr paddr s =
     (case vm of
        None \<Rightarrow> Some (KERN_INVALID_ARGUMENT, vm)
      | Some mp \<Rightarrow>
          if \<not> pmap_initialized s then Some (KERN_INVALID_ARGUMENT, vm)
          else if total_pages s * PAGE_SIZE \<le> paddr \<and> total_pages s \<le> paddr then Some (KERN_INVALID_ARGUMENT, vm)
          else do {
            l \<leftarrow> spin_lock (m_lock mp);
            let e = find (covers vaddr) (m_entries mp);
            Some (if e = None then KERN_NOT_FOUND else KERN_SUCCESS, Some (mp\<lparr>m_lock := spin_unlock l\<rparr>))
          })"

definition pmap_remove :: "vm_map option \<Rightarrow> u32 \<Rightarrow> (kern_return \<times> vm_map option) option" where
  "pmap_remove vm vaddr =
     (case vm of
        None \<Rightarrow> Some (KERN_INVALID_ARGUMENT, vm)
      | Some mp \<Rightarrow> do {
          l \<leftarrow> spin_lock (m_lock mp);
          let e = find (covers vaddr) (m_entries mp);
          Some (if e = None then KERN_NOT_FOUND else KERN_SUCCESS, Some (mp\<lparr>m_lock := spin_unlock l\<rparr>))
        })"

section \<open>Invariant\<close>

text \<open>The linked list of pages from a head pointer, as the list of its indices.\<close>

fun chain :: "phys_page list \<Rightarrow> nat option \<Rightarrow> nat list \<Rightarrow> bool" where
  "chain pgs p [] \<longleftrightarrow> p = None"
| "chain pgs p (x # xs) \<longleftrightarrow> p = Some x \<and> x < length pgs \<and> chain pgs (pg_next (pgs ! x)) xs"

text \<open>
  The invariant of an initialised manager, with the free frames \<open>fs\<close>, the one to hand out
  next first. The stack array and the linked free list both hold \<open>fs\<close>.
\<close>

definition pmap_ok :: "pmap \<Rightarrow> nat list \<Rightarrow> bool" where
  "pmap_ok s fs \<longleftrightarrow> pmap_initialized s \<and> pm_lock s = 0
     \<and> 0 < unat (total_pages s) \<and> unat (total_pages s) \<le> 16384
     \<and> length (pages s) = unat (total_pages s) \<and> length (pmap_free_stack s) = unat (total_pages s)
     \<and> pmap_stack_cap s = total_pages s
     \<and> pmap_stack_top s = of_nat (length fs) \<and> free_pages s = of_nat (length fs)
     \<and> take (length fs) (pmap_free_stack s) = map of_nat (rev fs)
     \<and> distinct fs \<and> (\<forall>f. f \<in> set fs \<longleftrightarrow> 0 < f \<and> f < unat (total_pages s) \<and> is_free (pages s ! f))
     \<and> chain (pages s) (free_list s) fs"

lemma chain_update: "x \<notin> set xs \<Longrightarrow> chain (pgs[x := v]) p xs = chain pgs p xs"
proof (induction xs arbitrary: p)
  case (Cons y ys)
  have "pgs[x := v] ! y = pgs ! y" using Cons.prems by simp
  then show ?case using Cons.IH [of "pg_next (pgs ! y)"] Cons.prems by simp
qed simp

lemma pmap_ok_length:
  assumes "pmap_ok s fs"
  shows "length fs < unat (total_pages s)"
proof -
  have "f \<in> set fs \<Longrightarrow> 0 < f \<and> f < unat (total_pages s)" for f
    using assms unfolding pmap_ok_def by blast
  then have "set fs \<subseteq> {1..<unat (total_pages s)}" by force
  then have "card (set fs) \<le> unat (total_pages s) - 1" using card_mono [of "{1..<unat (total_pages s)}" "set fs"] by simp
  moreover have "0 < unat (total_pages s)" "distinct fs" using assms by (simp_all add: pmap_ok_def)
  ultimately show ?thesis by (simp add: distinct_card)
qed

lemma pmap_alloc_empty:
  assumes "pmap_ok s []"
  shows "pmap_alloc_page s = Some (NO_FRAME, s)"
  using assms by (simp add: pmap_ok_def pmap_alloc_page_def spin_lock_def spin_unlock_def)

lemma pmap_alloc_pop:
  assumes "pmap_ok s (f # fs)"
  shows "\<exists>s'. pmap_alloc_page s = Some (of_nat f, s') \<and> pmap_ok s' fs \<and> total_pages s' = total_pages s
    \<and> ref_count (pages s' ! f) = 1"
proof -
  note ok = assms [unfolded pmap_ok_def]
  have len: "length fs < 16384" using pmap_ok_length [OF assms] ok by simp
  have f: "0 < f" "f < unat (total_pages s)" "is_free (pages s ! f)" "f < 16384" using ok by auto
  have top: "pmap_stack_top s - 1 = of_nat (length fs)" using ok by simp
  have tk: "take (Suc (length fs)) (pmap_free_stack s) = map of_nat (rev fs) @ [of_nat f]" using ok by simp
  have "pmap_free_stack s ! length fs = take (Suc (length fs)) (pmap_free_stack s) ! length fs" by simp
  also have "\<dots> = of_nat f" unfolding tk by (simp add: nth_append)
  finally have st: "pmap_free_stack s ! length fs = of_nat f" .
  have tk': "take (length fs) (pmap_free_stack s) = map of_nat (rev fs)"
    using arg_cong [OF tk, of "take (length fs)"] by (simp add: min_def)
  have uf: "unat (of_nat f :: u32) = f" "unat (of_nat (length fs) :: u32) = length fs" using f len by simp_all
  have nz: "(of_nat (length (f # fs)) :: u32) \<noteq> 0"
    using len of_nat_32_eq_iff [of "length (f # fs)" 0] by (simp del: of_nat_Suc)
  have fl: "free_list s = Some f" "f < length (pages s)" "f \<notin> set fs" "chain (pages s) (pg_next (pages s ! f)) fs"
    using ok by auto
  have lt: "\<not> total_pages s \<le> of_nat f" using f uf by (simp add: word_le_nat_alt)
  define s' where "s' = s\<lparr>pmap_stack_top := of_nat (length fs),
    pages := (pages s)[f := (pages s ! f)\<lparr>is_free := False, ref_count := 1, pg_next := None\<rparr>],
    free_list := pg_next (pages s ! f), free_pages := free_pages s - 1, pm_lock := 0\<rparr>"
  have "pmap_alloc_page s = Some (of_nat f, s')"
    using ok f fl nz lt unfolding pmap_alloc_page_def
    by (simp add: spin_lock_def spin_unlock_def Let_def unlink_page_def s'_def st uf)
  moreover have mem: "g \<in> set fs \<longleftrightarrow> 0 < g \<and> g < unat (total_pages s) \<and> is_free (pages s' ! g)" for g
    using ok fl(2,3) by (cases "g = f") (simp_all add: s'_def, metis list.set_intros(2) set_ConsD)
  have "pmap_ok s' fs"
    using ok fl tk' mem chain_update [of f fs "pages s"] by (simp add: pmap_ok_def s'_def)
  moreover have "total_pages s' = total_pages s" "ref_count (pages s' ! f) = 1" using fl(2) by (simp_all add: s'_def)
  ultimately show ?thesis by blast
qed

lemma pmap_free_push:
  assumes "pmap_ok s fs" "fr \<noteq> 0" "fr < total_pages s" "unat fr \<notin> set fs"
  shows "\<exists>s'. pmap_free_page fr s = Some (KERN_SUCCESS, s') \<and> pmap_ok s' (unat fr # fs) \<and> total_pages s' = total_pages s"
proof -
  note ok = assms(1) [unfolded pmap_ok_def]
  have len: "length fs < unat (total_pages s)" "length fs < 16384" using pmap_ok_length [OF assms(1)] ok by simp_all
  define f where "f = unat fr"
  have f: "0 < f" "f < unat (total_pages s)" "\<not> is_free (pages s ! f)" "f \<notin> set fs"
    using assms(2-4) ok unat_gt_0 [of fr] by (auto simp: f_def word_less_nat_alt)
  have fr: "fr = of_nat f" by (simp add: f_def)
  have ul: "unat (of_nat (length fs) :: u32) = length fs" using len by simp
  have lt: "\<not> total_pages s \<le> of_nat (length fs)" using len by (simp add: word_le_nat_alt)
  define s' where "s' = s\<lparr>pmap_free_stack := (pmap_free_stack s)[length fs := fr],
    pmap_stack_top := of_nat (length fs) + 1,
    pages := (pages s)[f := (pages s ! f)\<lparr>is_free := True, ref_count := 0, pg_next := free_list s\<rparr>],
    free_list := Some f, free_pages := free_pages s + 1, pm_lock := 0\<rparr>"
  have k: "pmap_free_page fr s = Some (KERN_SUCCESS, s')"
    using ok f lt assms(2,3) unfolding pmap_free_page_def f_def [symmetric]
    by (simp add: spin_lock_def spin_unlock_def Let_def link_page_def s'_def ul not_le)
  have "take (Suc (length fs)) ((pmap_free_stack s)[length fs := fr]) = map of_nat (rev fs) @ [fr]"
    using ok len by (simp add: take_Suc_conv_app_nth)
  moreover have mem: "g \<in> set (f # fs) \<longleftrightarrow> 0 < g \<and> g < unat (total_pages s) \<and> is_free (pages s' ! g)" for g
    using ok f by (cases "g = f") (simp_all add: s'_def)
  ultimately have "pmap_ok s' (f # fs)"
    using ok f fr chain_update [of f fs "pages s"] by (simp add: pmap_ok_def s'_def)
  then show ?thesis using k unfolding f_def by (auto simp: s'_def)
qed

lemma pmap_free_reject:
  assumes "pmap_ok s fs" "fr = 0 \<or> total_pages s \<le> fr \<or> unat fr \<in> set fs"
  shows "pmap_free_page fr s = Some (KERN_INVALID_ARGUMENT, s)"
  using assms by (auto simp: pmap_ok_def pmap_free_page_def spin_lock_def spin_unlock_def Let_def)

section \<open>Initialisation\<close>

lemma fold_push_frame:
  assumes "n + length fs \<le> length (pmap_free_stack s)" "length (pmap_free_stack s) \<le> 16384"
    "pmap_stack_top s = of_nat n"
  shows "fold push_frame fs s = s\<lparr>pmap_free_stack := take n (pmap_free_stack s) @ map of_nat fs @ drop (n + length fs) (pmap_free_stack s),
     pmap_stack_top := of_nat (n + length fs), free_pages := free_pages s + of_nat (length fs)\<rparr>"
  using assms
proof (induction fs arbitrary: s n)
  case (Cons f fs)
  have u: "unat (of_nat n :: u32) = n" using Cons.prems by simp
  have "take (Suc n) ((pmap_free_stack s)[n := of_nat f]) = take n (pmap_free_stack s) @ [of_nat f]"
    using Cons.prems by (simp add: take_Suc_conv_app_nth)
  then show ?case
    using Cons.IH [of "Suc n" "push_frame f s"] Cons.prems
    by (simp add: push_frame_def u add.commute add.left_commute)
qed simp

lemma fold_link_page:
  assumes "\<forall>f\<in>set fs. f < length (pages s)" "distinct fs" "chain (pages s) (free_list s) xs" "set fs \<inter> set xs = {}"
  shows "\<exists>pgs. fold link_page fs s = s\<lparr>pages := pgs, free_list := (if fs = [] then free_list s else Some (last fs))\<rparr>
    \<and> length pgs = length (pages s) \<and> chain pgs (if fs = [] then free_list s else Some (last fs)) (rev fs @ xs)
    \<and> (\<forall>i<length pgs. \<exists>nx. pgs ! i = (pages s ! i)\<lparr>pg_next := nx\<rparr>)"
  using assms
proof (induction fs arbitrary: s xs)
  case Nil
  have "\<exists>nx. pages s ! i = (pages s ! i)\<lparr>pg_next := nx\<rparr>" for i
    by (rule exI [of _ "pg_next (pages s ! i)"]) simp
  then show ?case using Nil by (intro exI [of _ "pages s"]) auto
next
  case (Cons f fs)
  define s1 where "s1 = link_page f s"
  have c: "chain (pages s1) (free_list s1) (f # xs)"
    using Cons.prems chain_update [of f xs "pages s"] by (auto simp: s1_def link_page_def)
  have "\<forall>f\<in>set fs. f < length (pages s1)" "distinct fs" "set fs \<inter> set (f # xs) = {}"
    using Cons.prems by (auto simp: s1_def link_page_def)
  from Cons.IH [OF this(1,2) c this(3)] obtain pgs where
    k: "fold link_page fs s1 = s1\<lparr>pages := pgs, free_list := (if fs = [] then free_list s1 else Some (last fs))\<rparr>"
      "length pgs = length (pages s1)" "chain pgs (if fs = [] then free_list s1 else Some (last fs)) (rev fs @ f # xs)"
      "\<forall>i<length pgs. \<exists>nx. pgs ! i = (pages s1 ! i)\<lparr>pg_next := nx\<rparr>" by auto
  have p1: "\<exists>nx. pages s1 ! i = (pages s ! i)\<lparr>pg_next := nx\<rparr>" if "i < length (pages s)" for i
    using that by (cases "i = f") (auto simp: s1_def link_page_def intro: exI [of _ "pg_next (pages s ! i)"])
  have "\<exists>nx. pgs ! i = (pages s ! i)\<lparr>pg_next := nx\<rparr>" if "i < length pgs" for i
  proof -
    note i = that
    obtain n1 where "pgs ! i = (pages s1 ! i)\<lparr>pg_next := n1\<rparr>" using k(4) i by blast
    moreover obtain n2 where "pages s1 ! i = (pages s ! i)\<lparr>pg_next := n2\<rparr>"
      using p1 [of i] k(2) i by (auto simp: s1_def link_page_def)
    ultimately show ?thesis by (intro exI [of _ n1]) simp
  qed
  moreover have "fold link_page (f # fs) s = fold link_page fs s1" by (simp add: s1_def)
  moreover have "s1 = s\<lparr>pages := (pages s)[f := (pages s ! f)\<lparr>pg_next := free_list s\<rparr>], free_list := Some f\<rparr>"
    by (simp add: s1_def link_page_def)
  ultimately show ?case using k(1-3) by (intro exI [of _ pgs]) auto
qed

lemma pmap_build_ok:
  assumes "0 < unat (total_pages s)" "unat (total_pages s) \<le> 16384" "pmap_stack_cap s = total_pages s"
    "pm_lock s = 0" "free_pages s = 0"
  shows "pmap_ok (pmap_build m s) (rev [1..<unat (total_pages s)])" "total_pages (pmap_build m s) = total_pages s"
proof -
  define n where "n = unat (total_pages s)"
  define st where "st = map (\<lambda>i. rd32 m (pmap_free_stack_ptr s + 4 * of_nat i)) [0..<n]"
  define s1 where "s1 = s\<lparr>pages := map init_page [0..<n], pmap_free_stack := st, pmap_stack_top := 0\<rparr>"
  define s2 where "s2 = s1\<lparr>pmap_free_stack := map of_nat [1..<n] @ drop (n - 1) st,
    pmap_stack_top := of_nat (n - 1), free_pages := of_nat (n - 1), free_list := None\<rparr>"
  have n: "0 < n" "n \<le> 16384" using assms by (simp_all add: n_def)
  have st: "length st = n" by (simp add: st_def)
  have push: "(fold push_frame [1..<n] s1)\<lparr>free_list := None\<rparr> = s2"
    using fold_push_frame [of 0 "[1..<n]" s1] n st assms(5) by (simp add: s1_def s2_def)
  have "\<forall>f\<in>set [1..<n]. f < length (pages s2)" "chain (pages s2) (free_list s2) []" by (simp_all add: s2_def s1_def)
  from fold_link_page [OF this(1) distinct_upt this(2)] obtain pgs fl where
    k: "fold link_page [1..<n] s2 = s2\<lparr>pages := pgs, free_list := fl\<rparr>" "length pgs = length (pages s2)"
      "chain pgs fl (rev [1..<n])" "\<forall>i<length pgs. \<exists>nx. pgs ! i = (pages s2 ! i)\<lparr>pg_next := nx\<rparr>" by auto
  have b: "pmap_build m s = s2\<lparr>pages := pgs, free_list := fl, pmap_initialized := True\<rparr>"
    using push k(1) unfolding pmap_build_def n_def [symmetric] Let_def st_def [symmetric] s1_def [symmetric] by simp
  have len: "length pgs = n" using k(2) by (simp add: s2_def s1_def)
  have free: "is_free (pgs ! f) = (f \<noteq> 0)" if "f < n" for f
  proof -
    from k(4) len that obtain nx where "pgs ! f = (pages s2 ! f)\<lparr>pg_next := nx\<rparr>" by blast
    then show ?thesis using that by (simp add: s2_def s1_def init_page_def)
  qed
  have tk: "take (n - 1) (map of_nat [1..<n] @ drop (n - 1) st) = map of_nat [1..<n]" by simp
  have "f \<in> set (rev [1..<n]) \<longleftrightarrow> 0 < f \<and> f < n \<and> is_free (pgs ! f)" for f
    using free [of f] by auto
  then show "pmap_ok (pmap_build m s) (rev [1..<unat (total_pages s)])"
    unfolding b pmap_ok_def n_def [symmetric] using n k(3) len st assms(3,4) tk
    by (simp add: s2_def s1_def n_def [symmetric])
  show "total_pages (pmap_build m s) = total_pages s" unfolding b by (simp add: s2_def s1_def)
qed

text \<open>\<open>pmap_init\<close> either succeeds with every frame but 0 free, or gives back what it allocated.\<close>

lemma pmap_tables_law:
  assumes "heap_inv kh h" "\<not> pmap_initialized s" "0 < unat (total_pages s)" "unat (total_pages s) \<le> 16384"
    "pm_lock s = 0" "free_pages s = 0"
  shows "\<exists>r s' h'. pmap_tables kh s h = Some (r, s', h') \<and> heap_inv kh h' \<and>
    (r = KERN_SUCCESS \<and> pmap_ok s' (rev [1..<unat (total_pages s)]) \<and> total_pages s' = total_pages s
     \<or> r = KERN_RESOURCE_SHORTAGE \<and> \<not> pmap_initialized s' \<and> live kh h' = live kh h)"
proof -
  define t where "t = total_pages s"
  have t: "0 < unat t" "unat t \<le> 16384" using assms by (simp_all add: t_def)
  have u: "unat (20 * t) = 20 * unat t" "unat (4 * t) = 4 * unat t"
    using t by (simp_all add: unat_word_ariths)
  have ok: "kmalloc_ok (20 * t)" "kmalloc_ok (4 * t)"
    using u t by (auto simp: kmalloc_ok_def simp flip: unat_gt_0)
  from kheap.alloc_law [OF assms(1) ok(1)] obtain pg h1 where k1: "kmalloc kh (20 * t) h = Some (pg, h1)" by blast
  show ?thesis using kheap.alloc_cases [OF assms(1) ok(1) k1]
  proof cases
    case 1
    then show ?thesis using k1 assms(1,2) by (simp add: pmap_tables_def t_def)
  next
    case (2 sz)
    define h2 where "h2 = h1\<lparr>kmem := snd (lib_memset (kmem h1) pg 0 (20 * t))\<rparr>"
    have "live kh h1 pg = Some sz" "snd (lib_memset (kmem h1) pg 0 (20 * t)) x = kmem h1 x" if "sz \<le> unat (x - pg)" for x
      using 2 u(1) that by (auto simp: memset_correct)
    then have st: "heap_inv kh h2" "live kh h2 = live kh h1"
      unfolding h2_def using 2(2,5) heap_store [of kh h1 pg sz] by auto
    from kheap.alloc_law [OF st(1) ok(2)] obtain sp h3 where k2: "kmalloc kh (4 * t) h2 = Some (sp, h3)" by blast
    show ?thesis using kheap.alloc_cases [OF st(1) ok(2) k2]
    proof cases
      case 1
      have lp: "live kh h3 pg = Some sz" using 1 2 st(2) by simp
      from kheap.free_law [OF _ lp] obtain h4 where k3: "kfree kh pg h3 = Some h4" "heap_inv kh h4"
        "live kh h4 = (live kh h3)(pg := None)" using 1 st(1) by auto
      have "live kh h4 = live kh h" using k3(3) 1 2 st(2) by (auto simp: fun_eq_iff)
      then show ?thesis using k1 k2 k3 2 1 assms(2)
        by (simp add: pmap_tables_def t_def [symmetric] h2_def [symmetric])
    next
      case n: (2 sz2)
      define s2 where "s2 = s\<lparr>pages_ptr := pg, pmap_stack_cap := t, pmap_free_stack_ptr := sp\<rparr>"
      have s2: "total_pages s2 = t" "pmap_stack_cap s2 = t" "pm_lock s2 = 0" "free_pages s2 = 0"
        using assms by (simp_all add: s2_def t_def)
      have "pmap_tables kh s h = Some (KERN_SUCCESS, pmap_build (kmem h3) s2, h3)"
        using k1 k2 n(1) 2(1) by (simp add: pmap_tables_def t_def [symmetric] h2_def [symmetric] s2_def)
      then show ?thesis using n(2) pmap_build_ok [of s2 "kmem h3"] s2 t by (simp add: t_def)
    qed
  qed
qed

lemma pmap_init_law:
  assumes "heap_inv kh (heap_init kh h)" "\<not> pmap_initialized s" "4096 \<le> unat mem_size"
  shows "\<exists>r s' h'. pmap_init kh mem_size s h = Some (r, s', h') \<and> heap_inv kh h' \<and>
    (r = KERN_SUCCESS \<and> pmap_ok s' (rev [1..<unat (total_pages s')])
       \<and> unat (total_pages s') = min 16384 (unat mem_size div 4096)
     \<or> r = KERN_RESOURCE_SHORTAGE \<and> \<not> pmap_initialized s' \<and> live kh h' = live kh (heap_init kh h))"
proof -
  define t where "t = mem_size div PAGE_SIZE"
  define t' where "t' = (if PMAP_MAX_PAGES < t then PMAP_MAX_PAGES else t)"
  define s1 where "s1 = s\<lparr>total_pages := t', free_pages := 0, pages_ptr := 0, free_list := None, pm_lock := 0\<rparr>"
  have ut: "unat t = unat mem_size div 4096" by (simp add: t_def unat_div)
  have tp: "0 < unat t" using assms(3) ut by auto
  have t': "unat t' = min 16384 (unat mem_size div 4096)" "0 < unat t'" "unat t' \<le> 16384"
    using tp ut by (auto simp: t'_def word_less_nat_alt)
  have "t \<noteq> 0" "mem_size \<noteq> 0" using tp assms(3) by auto
  then have i: "pmap_init kh mem_size s h = pmap_tables kh s1 (heap_init kh h)"
    using assms(2) by (simp add: pmap_init_def Let_def t_def [symmetric] s1_def t'_def heap_init_def)
  show ?thesis unfolding i
    using pmap_tables_law [OF assms(1), of s1] assms(2) t' by (auto simp: s1_def)
qed

section \<open>Runs\<close>

text \<open>
  Runs of the manager: an initialisation followed by allocations and releases of any
  frame, with the set of frames that have been handed out and not released.
\<close>

inductive pmap_run :: "u32 \<Rightarrow> pmap \<Rightarrow> nat set \<Rightarrow> bool" for kh where
  init: "heap_inv kh (heap_init kh h) \<Longrightarrow> \<not> pmap_initialized s \<Longrightarrow> 4096 \<le> unat mem_size \<Longrightarrow>
    pmap_init kh mem_size s h = Some (KERN_SUCCESS, s', h') \<Longrightarrow> pmap_run kh s' {}"
| alloc: "pmap_run kh s held \<Longrightarrow> pmap_alloc_page s = Some (f, s') \<Longrightarrow>
    pmap_run kh s' (if f = NO_FRAME then held else insert (unat f) held)"
| release: "pmap_run kh s held \<Longrightarrow> pmap_free_page f s = Some (r, s') \<Longrightarrow>
    pmap_run kh s' (if r = KERN_SUCCESS then held - {unat f} else held)"

lemma pmap_ok_mem: "pmap_ok s fs \<Longrightarrow> f \<in> set fs \<Longrightarrow> 0 < f \<and> f < unat (total_pages s) \<and> unat (total_pages s) \<le> 16384"
  unfolding pmap_ok_def by blast

lemma frame_not_none: "f < 16384 \<Longrightarrow> (of_nat f :: u32) \<noteq> NO_FRAME"
  using of_nat_32_eq_iff [of f 4294967295] by simp

lemma pmap_run_inv:
  "pmap_run kh s held \<Longrightarrow> \<exists>fs. pmap_ok s fs \<and> held = {1..<unat (total_pages s)} - set fs"
proof (induction rule: pmap_run.induct)
  case (init h s mem_size s' h')
  from pmap_init_law [OF init(1-3)] init(4) have ok: "pmap_ok s' (rev [1..<unat (total_pages s')])" by auto
  then show ?case by (intro exI [of _ "rev [1..<unat (total_pages s')]"]) auto
next
  case (alloc s held f s')
  then obtain fs where ok: "pmap_ok s fs" and held: "held = {1..<unat (total_pages s)} - set fs" by blast
  show ?case
  proof (cases fs)
    case Nil
    then show ?thesis using pmap_alloc_empty ok held alloc(2) by auto
  next
    case (Cons g gs)
    from pmap_alloc_pop ok Cons have k: "f = of_nat g" "pmap_ok s' gs" "total_pages s' = total_pages s"
      using alloc(2) by fastforce+
    have g: "0 < g" "g < unat (total_pages s)" "g < 16384" "g \<notin> set gs"
      using pmap_ok_mem [OF ok, of g] ok Cons by (auto simp: pmap_ok_def)
    then have "f \<noteq> NO_FRAME" "unat f = g" using k(1) frame_not_none by simp_all
    then show ?thesis using k g held Cons by (intro exI [of _ gs]) auto
  qed
next
  case (release s held f r s')
  then obtain fs where ok: "pmap_ok s fs" and held: "held = {1..<unat (total_pages s)} - set fs" by blast
  show ?case
  proof (cases "f = 0 \<or> total_pages s \<le> f \<or> unat f \<in> set fs")
    case True
    then show ?thesis using pmap_free_reject [OF ok True] ok held release(2) by auto
  next
    case False
    then have k: "r = KERN_SUCCESS" "pmap_ok s' (unat f # fs)" "total_pages s' = total_pages s"
      using pmap_free_push [OF ok, of f] release(2) by (auto simp: not_le)
    then show ?thesis using held by (intro exI [of _ "unat f # fs"]) auto
  qed
qed

text \<open>C13. In every run of the page manager a frame is handed out to one holder at a time:
  \<open>pmap_alloc_page\<close> returns a frame that nobody holds, and fails only when every frame but the
  reserved frame 0 is held; \<open>pmap_free_page\<close> accepts exactly the frames that are held, so a double free changes
  nothing; and the counter of free pages is exact.\<close>

theorem pmap_frames_exclusive:
  assumes "pmap_run kh s held"
  shows "(\<exists>f s'. pmap_alloc_page s = Some (f, s') \<and>
      (f = NO_FRAME \<and> s' = s \<and> held = {1..<unat (total_pages s)}
       \<or> 0 < f \<and> f < total_pages s \<and> unat f \<notin> held \<and> ref_count (pages s' ! unat f) = 1))
    \<and> (\<forall>f. \<exists>r s'. pmap_free_page f s = Some (r, s') \<and> (r = KERN_SUCCESS) = (unat f \<in> held)
        \<and> (r = KERN_SUCCESS \<or> r = KERN_INVALID_ARGUMENT \<and> s' = s))
    \<and> unat (free_pages s) + card held + 1 = unat (total_pages s)"
proof -
  from pmap_run_inv [OF assms] obtain fs where ok: "pmap_ok s fs" and held: "held = {1..<unat (total_pages s)} - set fs"
    by blast
  have sub: "set fs \<subseteq> {1..<unat (total_pages s)}" using pmap_ok_mem [OF ok] by force
  have fs: "distinct fs" "unat (total_pages s) \<le> 16384" "free_pages s = of_nat (length fs)"
    using ok by (simp_all add: pmap_ok_def)
  have len: "length fs < unat (total_pages s)" by (rule pmap_ok_length [OF ok])
  have "\<exists>f s'. pmap_alloc_page s = Some (f, s') \<and>
      (f = NO_FRAME \<and> s' = s \<and> held = {1..<unat (total_pages s)}
       \<or> 0 < f \<and> f < total_pages s \<and> unat f \<notin> held \<and> ref_count (pages s' ! unat f) = 1)"
  proof (cases fs)
    case Nil
    then show ?thesis using pmap_alloc_empty ok held by simp
  next
    case (Cons g gs)
    have g: "0 < g" "g < unat (total_pages s)" "g < 16384" using pmap_ok_mem [OF ok, of g] Cons by auto
    from pmap_alloc_pop ok Cons obtain s' where "pmap_alloc_page s = Some (of_nat g, s')" "ref_count (pages s' ! g) = 1"
      by blast
    then show ?thesis using g held Cons by (simp add: word_less_nat_alt)
  qed
  moreover have "\<exists>r s'. pmap_free_page f s = Some (r, s') \<and> (r = KERN_SUCCESS) = (unat f \<in> held)
        \<and> (r = KERN_SUCCESS \<or> r = KERN_INVALID_ARGUMENT \<and> s' = s)" for f
  proof (cases "f = 0 \<or> total_pages s \<le> f \<or> unat f \<in> set fs")
    case True
    then show ?thesis using pmap_free_reject [OF ok True] held by (auto simp: word_le_nat_alt)
  next
    case False
    then have "0 < unat f" "unat f < unat (total_pages s)" by (auto simp: word_le_nat_alt unat_gt_0)
    then show ?thesis using pmap_free_push [OF ok, of f] False held by (auto simp: not_le)
  qed
  moreover have "card held = unat (total_pages s) - 1 - length fs"
    using sub fs(1) by (simp add: held card_Diff_subset distinct_card)
  ultimately show ?thesis using fs(2,3) len by simp
qed

text \<open>Four pages managed out of the heap of the witnesses.\<close>

definition demo_pmap :: pmap where
  "demo_pmap = \<lparr>pages_ptr = 0, pages = [], total_pages = 0, free_pages = 0, free_list = None, pm_lock = 0,
     pmap_initialized = False, pmap_free_stack_ptr = 0, pmap_free_stack = [], pmap_stack_top = 0, pmap_stack_cap = 0\<rparr>"

lemma demo_pmap_init: "\<exists>s' h'. pmap_init 0x200000 0x4000 demo_pmap demo_heap = Some (KERN_SUCCESS, s', h') \<and> total_pages s' = 4"
proof -
  have hd: "heap_initialized demo_heap" using demo_heap_rep by (simp add: heap_rep_def)
  obtain m where k1: "kmalloc 0x200000 80 demo_heap = Some (0x200010, demo_heap\<lparr>kmem := m\<rparr>)"
    and r1: "heap_rep 0x200000 (demo_heap\<lparr>kmem := m\<rparr>) [(80, False), (0x3FFF90, True)]"
    using kmalloc_abs [OF demo_heap_rep, of 80] by (auto simp: round8_def)
  define m2 where "m2 = snd (lib_memset m 0x200010 0 80)"
  have "heap_rep 0x200000 (demo_heap\<lparr>kmem := m\<rparr>\<lparr>kmem := m2\<rparr>) [(80, False), (0x3FFF90, True)]"
  proof (rule heap_rep_agree [OF r1])
    fix x :: u32
    assume "unat x \<in> hdrs (unat (0x200000 :: u32)) [(80, False), (0x3FFF90, True)]"
    then show "m2 x = kmem (demo_heap\<lparr>kmem := m\<rparr>) x"
      by (auto simp: m2_def memset_correct unat_sub_if')
  qed
  then have r2: "heap_rep 0x200000 (demo_heap\<lparr>kmem := m2\<rparr>) [(80, False), (0x3FFF90, True)]" by simp
  obtain m3 where k2: "kmalloc 0x200000 16 (demo_heap\<lparr>kmem := m2\<rparr>) = Some (0x200070, demo_heap\<lparr>kmem := m3\<rparr>)"
    using kmalloc_abs [OF r2, of 16] by (auto simp: round8_def)
  show ?thesis
    using k1 k2 hd pmap_build_ok(2)
    by (simp add: pmap_init_def demo_pmap_def pmap_tables_def m2_def)
qed

theorem pmap_frames_exclusive_witness:
  "\<exists>s f s'. pmap_run 0x200000 s {} \<and> pmap_alloc_page s = Some (f, s') \<and> 0 < f \<and> f < 4"
proof -
  from demo_pmap_init obtain s' h' where k: "pmap_init 0x200000 0x4000 demo_pmap demo_heap = Some (KERN_SUCCESS, s', h')"
    "total_pages s' = 4" by blast
  have "heap_init 0x200000 demo_heap = demo_heap" using demo_heap_rep by (simp add: heap_rep_def heap_init_def)
  then have r: "pmap_run 0x200000 s' {}"
    using pmap_run.init [OF _ _ _ k(1)] demo_heap_inv by (simp add: demo_pmap_def)
  have "{} \<noteq> {1..<4::nat}" by simp
  then show ?thesis using pmap_frames_exclusive [OF r] k(2) r by auto
qed

end
