(* ===== verification/Tcb.thy ===== *)
theory Tcb
  imports Kheap
begin

text \<open>
  Task control blocks and the scheduler of \<^verbatim>\<open>src/tcb.c\<close>. The static pool of 256 task control
  blocks is the function \<open>task_pool\<close>, and a \<open>tcb_t *\<close> is an optional index into it. The
  record \<open>sched\<close> holds the pool, the static variables of the file and the interrupt flag
  that \<open>hal_cli\<close> and \<open>hal_sti\<close> set. Code addresses (\<open>tcb_trampoline\<close>, entry points) are words.
  A walk along the run queue that does not end, and a dereference of NULL, are \<open>None\<close>.
  \<open>hal_context_switch\<close> returns without doing anything in this version of the kernel (see
  \<^verbatim>\<open>src/hal.c\<close>), so \<open>scheduler_schedule\<close> ends after the bookkeeping.

  The lemmas show that the run queue stays a well-formed doubly linked list without
  duplicates, that each operation refines its counterpart on a list of tasks, that
  exactly one task is running, and that a ready task gets the processor after a bounded
  number of yields.
\<close>

section \<open>Data\<close>

datatype task_state = TASK_STATE_FREE | TASK_STATE_READY | TASK_STATE_RUNNING | TASK_STATE_BLOCKED | TASK_STATE_ZOMBIE

type_synonym task_priority = u32

abbreviation TASK_PRIORITY_IDLE :: task_priority where "TASK_PRIORITY_IDLE \<equiv> 0"
abbreviation TASK_PRIORITY_NORMAL :: task_priority where "TASK_PRIORITY_NORMAL \<equiv> 5"
abbreviation TASK_PRIORITY_HIGH :: task_priority where "TASK_PRIORITY_HIGH \<equiv> 10"
abbreviation TASK_PRIORITY_REALTIME :: task_priority where "TASK_PRIORITY_REALTIME \<equiv> 15"
abbreviation TCB_STACK_SIZE :: u32 where "TCB_STACK_SIZE \<equiv> 0x2000"
abbreviation TCB_MAX_TASKS :: nat where "TCB_MAX_TASKS \<equiv> 256"
abbreviation TCB_INVALID_TID :: u32 where "TCB_INVALID_TID \<equiv> -1"

record cpu_context =
  c_eax :: u32
  c_ebx :: u32
  c_ecx :: u32
  c_edx :: u32
  c_esi :: u32
  c_edi :: u32
  c_ebp :: u32
  c_esp :: u32
  c_eip :: u32
  c_eflags :: u32
  c_cs :: u32
  c_ds :: u32
  c_es :: u32
  c_fs :: u32
  c_gs :: u32
  c_ss :: u32
  c_cr3 :: u32

record resource_limits =
  max_memory :: u32
  max_open_files :: u32
  max_threads :: u32

record task_accounting =
  creation_time :: u64
  total_run_time :: u64
  sleep_time :: u64
  wait_time :: u64

record tcb =
  t_tid :: u32
  t_pid :: u32
  t_name :: "u8 list"
  t_state :: task_state
  t_priority :: task_priority
  t_base_priority :: task_priority
  t_context :: cpu_context
  t_fpu :: u32
  t_kernel_stack :: u32
  t_user_stack :: u32
  t_stack_size :: u32
  t_time_slice :: u64
  t_last_run :: u64
  t_next :: "nat option"
  t_prev :: "nat option"
  t_page_directory :: u32
  t_heap_start :: u32
  t_heap_end :: u32
  t_msg_buffer :: u32
  t_msg_size :: u32
  t_waiting_for :: u32
  t_limits :: resource_limits
  t_open_handles :: u32
  t_handle_count :: u32
  t_accounting :: task_accounting
  t_parent :: "nat option"
  t_children :: "nat option"
  t_sibling :: "nat option"
  t_arch_data :: u32

record sched =
  task_pool :: "nat \<Rightarrow> tcb"
  next_tid :: u32
  runqueue_head :: "nat option"
  runqueue_tail :: "nat option"
  current_task :: "nat option"
  scheduler_ticks :: u64
  scheduler_initialized :: bool
  idle_task :: "nat option"
  int_flag :: bool

definition upd :: "nat \<Rightarrow> (tcb \<Rightarrow> tcb) \<Rightarrow> sched \<Rightarrow> sched" where
  "upd i f s = s\<lparr>task_pool := (task_pool s)(i := f (task_pool s i))\<rparr>"

definition state_of :: "sched \<Rightarrow> nat \<Rightarrow> task_state" where
  "state_of s i = t_state (task_pool s i)"

section \<open>Helpers\<close>

definition hal_cli :: "sched \<Rightarrow> sched" where "hal_cli s = s\<lparr>int_flag := False\<rparr>"
definition hal_sti :: "sched \<Rightarrow> sched" where "hal_sti s = s\<lparr>int_flag := True\<rparr>"

definition scheduler_time_slice_for_priority :: "task_priority \<Rightarrow> u64" where
  "scheduler_time_slice_for_priority prio =
     (if prio = TASK_PRIORITY_IDLE then 2
      else if prio = TASK_PRIORITY_NORMAL then 10
      else if prio = TASK_PRIORITY_HIGH then 20
      else if prio = TASK_PRIORITY_REALTIME then 30
      else 10)"

text \<open>A C string is the list of its bytes before the terminating NUL.\<close>

definition c_at :: "u8 list \<Rightarrow> nat \<Rightarrow> u8" where
  "c_at s i = (if i < length s then s ! i else 0)"

function str_copy_loop :: "u8 list \<Rightarrow> u8 list \<Rightarrow> nat \<Rightarrow> nat \<Rightarrow> u8 list" where
  "str_copy_loop dst src dstsize i =
     (if i + 1 < dstsize \<and> c_at src i \<noteq> 0 then str_copy_loop (dst[i := c_at src i]) src dstsize (i + 1)
      else dst[i := 0])"
  by auto
termination by (relation "measure (\<lambda>(dst, src, dstsize, i). dstsize - i)") auto

definition str_copy :: "u8 list \<Rightarrow> u8 list option \<Rightarrow> nat \<Rightarrow> u8 list" where
  "str_copy dst src dstsize =
     (case src of None \<Rightarrow> dst | Some s \<Rightarrow> if dstsize = 0 then dst else str_copy_loop dst s dstsize 0)"

section \<open>Management of task control blocks\<close>

definition tcb_init :: "sched \<Rightarrow> sched" where
  "tcb_init s = s\<lparr>
     task_pool := (\<lambda>i. if i < TCB_MAX_TASKS
       then (task_pool s i)\<lparr>t_state := TASK_STATE_FREE, t_tid := TCB_INVALID_TID, t_next := None, t_prev := None,
              t_kernel_stack := 0, t_stack_size := 0\<rparr>
       else task_pool s i),
     next_tid := 1, runqueue_head := None, runqueue_tail := None, current_task := None, scheduler_ticks := 0\<rparr>"

definition init_context :: cpu_context where
  "init_context = \<lparr>c_eax = 0, c_ebx = 0, c_ecx = 0, c_edx = 0, c_esi = 0, c_edi = 0, c_ebp = 0, c_esp = 0,
     c_eip = 0, c_eflags = 0x202, c_cs = 0x08, c_ds = 0x10, c_es = 0x10, c_fs = 0x10, c_gs = 0x10, c_ss = 0x10,
     c_cr3 = 0\<rparr>"

definition fresh_tcb :: "u32 \<Rightarrow> u64 \<Rightarrow> tcb \<Rightarrow> tcb" where
  "fresh_tcb tid now t = \<lparr>t_tid = tid, t_pid = tid, t_name = (t_name t)[0 := 0], t_state = TASK_STATE_READY,
     t_priority = TASK_PRIORITY_NORMAL, t_base_priority = TASK_PRIORITY_NORMAL, t_context = init_context,
     t_fpu = 0, t_kernel_stack = 0, t_user_stack = 0, t_stack_size = TCB_STACK_SIZE,
     t_time_slice = scheduler_time_slice_for_priority TASK_PRIORITY_NORMAL, t_last_run = 0,
     t_next = None, t_prev = None, t_page_directory = 0, t_heap_start = 0, t_heap_end = 0,
     t_msg_buffer = 0, t_msg_size = 0, t_waiting_for = TCB_INVALID_TID,
     t_limits = \<lparr>max_memory = 0x1000000, max_open_files = 32, max_threads = 16\<rparr>,
     t_open_handles = 0, t_handle_count = 0,
     t_accounting = \<lparr>creation_time = now, total_run_time = 0, sleep_time = 0, wait_time = 0\<rparr>,
     t_parent = None, t_children = None, t_sibling = None, t_arch_data = 0\<rparr>"

definition tcb_allocate :: "sched \<Rightarrow> nat option \<times> sched" where
  "tcb_allocate s =
     (case find (\<lambda>i. state_of s i = TASK_STATE_FREE) [0..<TCB_MAX_TASKS] of
        None \<Rightarrow> (None, s)
      | Some i \<Rightarrow> (Some i, (upd i (fresh_tcb (next_tid s) (scheduler_ticks s)) s)\<lparr>next_tid := next_tid s + 1\<rparr>))"

definition tcb_get_by_tid :: "u32 \<Rightarrow> sched \<Rightarrow> nat option" where
  "tcb_get_by_tid tid s =
     (if tid = TCB_INVALID_TID then None
      else find (\<lambda>i. t_tid (task_pool s i) = tid \<and> state_of s i \<noteq> TASK_STATE_FREE) [0..<TCB_MAX_TASKS])"

definition tcb_set_state :: "nat option \<Rightarrow> task_state \<Rightarrow> sched \<Rightarrow> sched" where
  "tcb_set_state task st s = (case task of None \<Rightarrow> s | Some t \<Rightarrow> upd t (t_state_update (\<lambda>_. st)) s)"

definition tcb_set_priority :: "nat option \<Rightarrow> task_priority \<Rightarrow> sched \<Rightarrow> sched" where
  "tcb_set_priority task priority s =
     (case task of
        None \<Rightarrow> s
      | Some t \<Rightarrow>
          let priority = (if TASK_PRIORITY_REALTIME < priority then TASK_PRIORITY_REALTIME else priority)
          in upd t (\<lambda>r. r\<lparr>t_priority := priority, t_base_priority := priority,
                         t_time_slice := scheduler_time_slice_for_priority priority\<rparr>) s)"

definition tcb_save_context :: "nat option \<Rightarrow> cpu_context option \<Rightarrow> sched \<Rightarrow> sched" where
  "tcb_save_context task ctx s =
     (case (task, ctx) of (Some t, Some c) \<Rightarrow> upd t (\<lambda>r. r\<lparr>t_context := c\<rparr>) s | _ \<Rightarrow> s)"

text \<open>
  \<open>tcb_setup_context\<close>: \<open>tramp\<close> is the address of \<open>tcb_trampoline\<close>. A task without a kernel
  stack gets one from the heap, cleared byte by byte.
\<close>

definition set_context :: "u32 \<Rightarrow> u32 \<Rightarrow> u32 \<Rightarrow> nat \<Rightarrow> sched \<Rightarrow> sched" where
  "set_context tramp entry arg t s =
     (let r = task_pool s t;
          stack_top = (t_kernel_stack r + t_stack_size r) AND NOT 0xF
      in upd t (\<lambda>r. r\<lparr>t_arch_data := entry, t_msg_buffer := arg,
           t_context := init_context\<lparr>c_ebp := stack_top, c_esp := stack_top, c_eip := tramp\<rparr>,
           t_time_slice := scheduler_time_slice_for_priority (t_priority r),
           t_last_run := scheduler_ticks s, t_state := TASK_STATE_READY\<rparr>) s)"

definition tcb_setup_context ::
  "u32 \<Rightarrow> u32 \<Rightarrow> nat option \<Rightarrow> u32 \<Rightarrow> u32 \<Rightarrow> sched \<Rightarrow> kheap \<Rightarrow> (sched \<times> kheap) option" where
  "tcb_setup_context kh tramp task entry arg s h =
     (case task of
        None \<Rightarrow> Some (s, h)
      | Some t \<Rightarrow>
          if entry = 0 then Some (s, h)
          else if t_kernel_stack (task_pool s t) = 0 then do {
            (stack, h) \<leftarrow> kmalloc kh TCB_STACK_SIZE h;
            if stack = 0 then Some (s, h)
            else do {
              let s = upd t (\<lambda>r. r\<lparr>t_kernel_stack := stack, t_stack_size := TCB_STACK_SIZE\<rparr>) s;
              let h = h\<lparr>kmem := set_bytes (kmem h) stack 0 (unat TCB_STACK_SIZE)\<rparr>;
              Some (set_context tramp entry arg t s, h)
            }
          }
          else Some (set_context tramp entry arg t s, h))"

section \<open>The run queue\<close>

text \<open>The walk that looks for a task in the run queue.\<close>

partial_function (option) in_queue :: "(nat \<Rightarrow> tcb) \<Rightarrow> nat option \<Rightarrow> nat \<Rightarrow> bool option" where
  "in_queue pool it task =
     (case it of
        None \<Rightarrow> Some False
      | Some i \<Rightarrow> if i = task then Some True else in_queue pool (t_next (pool i)) task)"

text \<open>Linking a task behind the tail of the queue.\<close>

definition rq_append :: "nat \<Rightarrow> sched \<Rightarrow> sched option" where
  "rq_append t s =
     (let s = upd t (\<lambda>r. r\<lparr>t_next := None, t_prev := runqueue_tail s\<rparr>) s
      in if runqueue_head s = None then Some (s\<lparr>runqueue_head := Some t, runqueue_tail := Some t\<rparr>)
         else do {
           tl \<leftarrow> runqueue_tail s;
           Some ((upd tl (\<lambda>r. r\<lparr>t_next := Some t\<rparr>) s)\<lparr>runqueue_tail := Some t\<rparr>)
         })"

definition scheduler_add_task :: "nat option \<Rightarrow> sched \<Rightarrow> sched option" where
  "scheduler_add_task task s =
     (case task of
        None \<Rightarrow> Some s
      | Some t \<Rightarrow>
          if state_of s t = TASK_STATE_FREE then Some s
          else do {
            queued \<leftarrow> in_queue (task_pool s) (runqueue_head s) t;
            if queued then Some s
            else do {
              let s = upd t (\<lambda>r. r\<lparr>t_state := TASK_STATE_READY,
                  t_time_slice := (if t_time_slice r = 0 then scheduler_time_slice_for_priority (t_priority r)
                                   else t_time_slice r)\<rparr>) s;
              s \<leftarrow> rq_append t s;
              Some (if current_task s = None
                    then upd t (t_state_update (\<lambda>_. TASK_STATE_RUNNING)) (s\<lparr>current_task := Some t\<rparr>)
                    else s)
            }
          })"

text \<open>Unlinking a task that is in the queue, and the choice of a new current task.\<close>

definition rq_unlink :: "nat \<Rightarrow> sched \<Rightarrow> sched" where
  "rq_unlink t s =
     (let s = (case t_prev (task_pool s t) of
            Some p \<Rightarrow> upd p (\<lambda>r. r\<lparr>t_next := t_next (task_pool s t)\<rparr>) s
          | None \<Rightarrow> s\<lparr>runqueue_head := t_next (task_pool s t)\<rparr>);
          s = (case t_next (task_pool s t) of
            Some n \<Rightarrow> upd n (\<lambda>r. r\<lparr>t_prev := t_prev (task_pool s t)\<rparr>) s
          | None \<Rightarrow> s\<lparr>runqueue_tail := t_prev (task_pool s t)\<rparr>)
      in upd t (\<lambda>r. r\<lparr>t_next := None, t_prev := None\<rparr>) s)"

definition replace_current :: "sched \<Rightarrow> sched" where
  "replace_current s =
     (let s = s\<lparr>current_task := (if runqueue_head s \<noteq> None then runqueue_head s else idle_task s)\<rparr>
      in case current_task s of
           None \<Rightarrow> s
         | Some c \<Rightarrow> upd c (\<lambda>r. r\<lparr>t_state := TASK_STATE_RUNNING,
                               t_time_slice := scheduler_time_slice_for_priority (t_priority r)\<rparr>) s)"

definition scheduler_remove_task :: "nat option \<Rightarrow> sched \<Rightarrow> sched option" where
  "scheduler_remove_task task s =
     (case task of
        None \<Rightarrow> Some s
      | Some t \<Rightarrow>
          if runqueue_head s = None then Some s
          else do {
            found \<leftarrow> in_queue (task_pool s) (runqueue_head s) t;
            if \<not> found then Some s
            else do {
              let s = rq_unlink t s;
              Some (if current_task s = Some t then replace_current s else s)
            }
          })"

definition tcb_free :: "nat option \<Rightarrow> sched \<Rightarrow> sched option" where
  "tcb_free task s =
     (case task of
        None \<Rightarrow> Some s
      | Some t \<Rightarrow> do {
          s \<leftarrow> (if scheduler_initialized s then do {
                 s \<leftarrow> scheduler_remove_task task s;
                 Some (if current_task s = task then s\<lparr>current_task := None\<rparr> else s)
               } else Some s);
          Some (upd t (\<lambda>r. r\<lparr>t_kernel_stack := 0, t_state := TASK_STATE_FREE, t_tid := TCB_INVALID_TID\<rparr>) s)
        })"

text \<open>\<open>tcb_create\<close> names the new task, sets its priority and its context, and queues it.\<close>

definition tcb_prepare ::
  "u32 \<Rightarrow> u32 \<Rightarrow> u32 \<Rightarrow> u32 \<Rightarrow> u8 list option \<Rightarrow> task_priority \<Rightarrow> nat \<Rightarrow> sched \<Rightarrow> kheap \<Rightarrow> (sched \<times> kheap) option" where
  "tcb_prepare kh tramp entry arg name priority t s h =
     (let s = upd t (\<lambda>r. r\<lparr>t_name := (if name \<noteq> None then str_copy (t_name r) name 32 else (t_name r)[0 := 0]),
                            t_priority := priority, t_base_priority := priority\<rparr>) s
      in tcb_setup_context kh tramp (Some t) entry arg s h)"

definition tcb_create ::
  "u32 \<Rightarrow> u32 \<Rightarrow> u32 \<Rightarrow> u32 \<Rightarrow> u8 list option \<Rightarrow> task_priority \<Rightarrow> sched \<Rightarrow> kheap \<Rightarrow> (nat option \<times> sched \<times> kheap) option" where
  "tcb_create kh tramp entry arg name priority s h =
     (case tcb_allocate s of
        (None, s) \<Rightarrow> Some (None, s, h)
      | (Some t, s) \<Rightarrow> do {
          (s, h) \<leftarrow> tcb_prepare kh tramp entry arg name priority t s h;
          s \<leftarrow> (if scheduler_initialized s then scheduler_add_task (Some t) s else Some s);
          Some (Some t, s, h)
        })"

section \<open>Scheduling\<close>

definition scheduler_init :: "u32 \<Rightarrow> u32 \<Rightarrow> u32 \<Rightarrow> sched \<Rightarrow> kheap \<Rightarrow> (sched \<times> kheap) option" where
  "scheduler_init kh tramp idle_entry s h =
     (if scheduler_initialized s then Some (s, h)
      else do {
        let s = tcb_init s;
        let s = s\<lparr>runqueue_head := None, runqueue_tail := None, current_task := None, scheduler_ticks := 0,
                  scheduler_initialized := True\<rparr>;
        (idle, s, h) \<leftarrow> tcb_create kh tramp idle_entry 0 (Some [0x69, 0x64, 0x6C, 0x65]) TASK_PRIORITY_IDLE s h;
        let s = s\<lparr>idle_task := idle\<rparr>;
        Some (case (current_task s, idle_task s) of
            (None, Some i) \<Rightarrow> upd i (t_state_update (\<lambda>_. TASK_STATE_RUNNING)) (s\<lparr>current_task := Some i\<rparr>)
          | _ \<Rightarrow> s, h)
      })"

text \<open>The three scans of \<open>scheduler_pick_next\<close>: a ready task of higher priority than the current one,
  the next ready task in cyclic order (at most 256 steps), the best ready task of the queue.\<close>

partial_function (option) find_higher :: "(nat \<Rightarrow> tcb) \<Rightarrow> nat \<Rightarrow> nat option \<Rightarrow> nat option option" where
  "find_higher pool cur it =
     (case it of
        None \<Rightarrow> Some None
      | Some i \<Rightarrow>
          if i \<noteq> cur \<and> t_state (pool i) = TASK_STATE_READY \<and> t_priority (pool cur) < t_priority (pool i)
          then Some (Some i) else find_higher pool cur (t_next (pool i)))"

fun next_ready :: "(nat \<Rightarrow> tcb) \<Rightarrow> nat option \<Rightarrow> nat option \<Rightarrow> nat \<Rightarrow> nat option \<Rightarrow> nat option" where
  "next_ready pool head start 0 it = None"
| "next_ready pool head start (Suc n) it =
     (case it of
        None \<Rightarrow> None
      | Some i \<Rightarrow>
          if t_state (pool i) = TASK_STATE_READY then Some i
          else let it = (if t_next (pool i) = None then head else t_next (pool i))
               in if it = start then None else next_ready pool head start n it)"

partial_function (option) best_ready :: "(nat \<Rightarrow> tcb) \<Rightarrow> nat option \<Rightarrow> nat option \<Rightarrow> nat option option" where
  "best_ready pool it best =
     (case it of
        None \<Rightarrow> Some best
      | Some i \<Rightarrow>
          best_ready pool (t_next (pool i))
            (if t_state (pool i) \<noteq> TASK_STATE_READY then best
             else case best of
                None \<Rightarrow> Some i
              | Some b \<Rightarrow> if t_priority (pool b) < t_priority (pool i) then Some i else best))"

definition pick_idle :: "sched \<Rightarrow> nat option \<times> sched" where
  "pick_idle s =
     (case idle_task s of
        None \<Rightarrow> (current_task s, s)
      | Some i \<Rightarrow>
          if state_of s i \<noteq> TASK_STATE_FREE then
            (Some i, if state_of s i \<noteq> TASK_STATE_RUNNING then upd i (t_state_update (\<lambda>_. TASK_STATE_READY)) s else s)
          else (current_task s, s))"

definition pick_round_robin :: "sched \<Rightarrow> (nat option \<times> sched) option" where
  "pick_round_robin s =
     (let pool = task_pool s;
          start = (case current_task s of Some c \<Rightarrow> t_next (pool c) | None \<Rightarrow> runqueue_head s);
          start = (if start = None then runqueue_head s else start)
      in case next_ready pool (runqueue_head s) start TCB_MAX_TASKS start of
           Some i \<Rightarrow> Some (Some i, s)
         | None \<Rightarrow> do {
             best \<leftarrow> best_ready pool (runqueue_head s) None;
             Some (if best \<noteq> None then (best, s) else pick_idle s)
           })"

definition scheduler_pick_next :: "sched \<Rightarrow> (nat option \<times> sched) option" where
  "scheduler_pick_next s =
     (if runqueue_head s = None then Some (if current_task s \<noteq> None then current_task s else idle_task s, s)
      else case current_task s of
          Some c \<Rightarrow>
            if state_of s c = TASK_STATE_RUNNING \<and> 0 < t_time_slice (task_pool s c) then do {
              hi \<leftarrow> find_higher (task_pool s) c (runqueue_head s);
              Some (if hi \<noteq> None then hi else Some c, s)
            }
            else pick_round_robin s
        | None \<Rightarrow> pick_round_robin s)"

definition start_running :: "nat \<Rightarrow> sched \<Rightarrow> sched" where
  "start_running t s = upd t (\<lambda>r. r\<lparr>t_state := TASK_STATE_RUNNING, t_last_run := scheduler_ticks s,
     t_time_slice := (if t_time_slice r = 0 then scheduler_time_slice_for_priority (t_priority r) else t_time_slice r)\<rparr>) s"

text \<open>Moving the current task to the tail when its time slice is used up.\<close>

definition rotate_current :: "nat \<Rightarrow> sched \<Rightarrow> sched option" where
  "rotate_current c s =
     (if runqueue_head s \<noteq> None \<and> runqueue_tail s \<noteq> None \<and> t_next (task_pool s c) \<noteq> None then
        if runqueue_head s = Some c then do {
          n \<leftarrow> t_next (task_pool s c);
          tl \<leftarrow> runqueue_tail s;
          let s = upd n (\<lambda>r. r\<lparr>t_prev := None\<rparr>) (s\<lparr>runqueue_head := Some n\<rparr>);
          let s = upd c (\<lambda>r. r\<lparr>t_prev := Some tl, t_next := None\<rparr>) s;
          Some ((upd tl (\<lambda>r. r\<lparr>t_next := Some c\<rparr>) s)\<lparr>runqueue_tail := Some c\<rparr>)
        }
        else if runqueue_tail s \<noteq> Some c then do {
          tl \<leftarrow> runqueue_tail s;
          let s = (case t_prev (task_pool s c) of
              Some p \<Rightarrow> upd p (\<lambda>r. r\<lparr>t_next := t_next (task_pool s c)\<rparr>) s | None \<Rightarrow> s);
          let s = (case t_next (task_pool s c) of
              Some n \<Rightarrow> upd n (\<lambda>r. r\<lparr>t_prev := t_prev (task_pool s c)\<rparr>) s | None \<Rightarrow> s);
          let s = upd c (\<lambda>r. r\<lparr>t_prev := Some tl, t_next := None\<rparr>) s;
          Some ((upd tl (\<lambda>r. r\<lparr>t_next := Some c\<rparr>) s)\<lparr>runqueue_tail := Some c\<rparr>)
        }
        else Some s
      else Some s)"

definition switch_to :: "nat \<Rightarrow> nat option \<Rightarrow> sched \<Rightarrow> sched" where
  "switch_to c nxt s =
     (case nxt of
        None \<Rightarrow> s
      | Some n \<Rightarrow>
          if n = c then
            if state_of s n \<noteq> TASK_STATE_RUNNING
            then upd n (\<lambda>r. r\<lparr>t_state := TASK_STATE_RUNNING, t_last_run := scheduler_ticks s\<rparr>) s
            else s
          else
            let s = (if state_of s c = TASK_STATE_RUNNING then upd c (t_state_update (\<lambda>_. TASK_STATE_READY)) s else s)
            in (start_running n s)\<lparr>current_task := Some n\<rparr>)"

definition scheduler_schedule :: "sched \<Rightarrow> sched option" where
  "scheduler_schedule s =
     (if \<not> scheduler_initialized s then Some s
      else case current_task s of
          None \<Rightarrow> do {
            (nxt, s) \<leftarrow> scheduler_pick_next s;
            let s = s\<lparr>current_task := nxt\<rparr>;
            Some (case nxt of None \<Rightarrow> s | Some c \<Rightarrow> start_running c s)
          }
        | Some c \<Rightarrow> do {
            s \<leftarrow> (if state_of s c = TASK_STATE_RUNNING \<and> t_time_slice (task_pool s c) = 0 then
                   rotate_current c (upd c (\<lambda>r. r\<lparr>t_state := TASK_STATE_READY,
                     t_time_slice := scheduler_time_slice_for_priority (t_priority r)\<rparr>) s)
                 else Some s);
            (nxt, s) \<leftarrow> scheduler_pick_next s;
            Some (switch_to c nxt s)
          })"

text \<open>One round of the loop of \<open>scheduler_tick\<close> that wakes sleeping tasks.\<close>

definition wake_sleeper :: "nat \<Rightarrow> sched \<Rightarrow> sched option" where
  "wake_sleeper i s =
     (let r = task_pool s i in
      if t_state r = TASK_STATE_BLOCKED \<and> sleep_time (t_accounting r) \<noteq> 0
         \<and> sleep_time (t_accounting r) \<le> scheduler_ticks s then do {
        let s = upd i (\<lambda>r. r\<lparr>t_accounting := (t_accounting r)\<lparr>sleep_time := 0, wait_time := 0\<rparr>,
            t_state := TASK_STATE_READY, t_time_slice := scheduler_time_slice_for_priority (t_priority r)\<rparr>) s;
        queued \<leftarrow> in_queue (task_pool s) (runqueue_head s) i;
        if queued then Some s else rq_append i s
      }
      else Some s)"

fun wake_sleepers :: "nat list \<Rightarrow> sched \<Rightarrow> sched option" where
  "wake_sleepers [] s = Some s"
| "wake_sleepers (i # is) s = do { s \<leftarrow> wake_sleeper i s; wake_sleepers is s }"

definition scheduler_tick :: "sched \<Rightarrow> sched option" where
  "scheduler_tick s =
     (let s = s\<lparr>scheduler_ticks := scheduler_ticks s + 1\<rparr> in
      if \<not> scheduler_initialized s then Some s
      else case current_task s of
          None \<Rightarrow> Some s
        | Some c \<Rightarrow>
            let s = upd c (\<lambda>r. r\<lparr>t_accounting := (t_accounting r)\<lparr>total_run_time := total_run_time (t_accounting r) + 1\<rparr>,
                t_time_slice := (if t_state r = TASK_STATE_RUNNING \<and> 0 < t_time_slice r then t_time_slice r - 1
                                 else t_time_slice r)\<rparr>) s
            in wake_sleepers [0..<TCB_MAX_TASKS] s)"

definition scheduler_start :: "sched \<Rightarrow> sched" where
  "scheduler_start s =
     (if \<not> scheduler_initialized s then s
      else case current_task s of
          None \<Rightarrow> s
        | Some c \<Rightarrow> hal_sti (upd c (t_state_update (\<lambda>_. TASK_STATE_RUNNING)) s))"

section \<open>Blocking and yielding\<close>

definition tcb_yield :: "sched \<Rightarrow> sched option" where
  "tcb_yield s =
     (case current_task s of
        Some c \<Rightarrow>
          if scheduler_initialized s then do {
            s \<leftarrow> scheduler_schedule (upd c (\<lambda>r. r\<lparr>t_time_slice := 0\<rparr>) (hal_cli s));
            Some (hal_sti s)
          }
          else Some (hal_sti s)
      | None \<Rightarrow> Some (hal_sti s))"

definition tcb_block :: "nat option \<Rightarrow> sched \<Rightarrow> sched option" where
  "tcb_block task s =
     (case task of
        None \<Rightarrow> Some s
      | Some t \<Rightarrow> do {
          let s = upd t (t_state_update (\<lambda>_. TASK_STATE_BLOCKED)) (hal_cli s);
          s \<leftarrow> (if current_task s = Some t then scheduler_schedule s
               else Some (upd t (\<lambda>r. r\<lparr>t_accounting := (t_accounting r)\<lparr>wait_time := scheduler_ticks s\<rparr>\<rparr>) s));
          Some (hal_sti s)
        })"

definition tcb_unblock :: "nat option \<Rightarrow> sched \<Rightarrow> sched option" where
  "tcb_unblock task s =
     (case task of
        None \<Rightarrow> Some s
      | Some t \<Rightarrow>
          if state_of s t \<noteq> TASK_STATE_BLOCKED then Some (hal_sti (hal_cli s))
          else do {
            let s = upd t (\<lambda>r. r\<lparr>t_state := TASK_STATE_READY,
                t_time_slice := scheduler_time_slice_for_priority (t_priority r)\<rparr>) (hal_cli s);
            queued \<leftarrow> in_queue (task_pool s) (runqueue_head s) t;
            s \<leftarrow> (if queued then Some s else rq_append t s);
            Some (hal_sti s)
          })"

text \<open>
  \<open>tcb_sleep\<close>: without a running scheduler it waits on the timer through \<open>pit_sleep\<close>, which is an
  argument here because the timer belongs to the hardware layer.
\<close>

definition sleep_ticks :: "u32 \<Rightarrow> u32" where
  "sleep_ticks ms = (let ticks_to_sleep = (ms + 9) div 10 in if ticks_to_sleep = 0 then 1 else ticks_to_sleep)"

definition tcb_sleep :: "(u32 \<Rightarrow> sched \<Rightarrow> sched option) \<Rightarrow> u32 \<Rightarrow> sched \<Rightarrow> sched option" where
  "tcb_sleep pit_sleep ms s =
     (case current_task s of
        None \<Rightarrow> pit_sleep ms s
      | Some c \<Rightarrow>
          if \<not> scheduler_initialized s then pit_sleep ms s
          else if ms = 0 then tcb_yield s
          else
            let s = upd c (\<lambda>r. r\<lparr>t_accounting := (t_accounting r)\<lparr>sleep_time := scheduler_ticks s + ucast (sleep_ticks ms)\<rparr>,
                t_state := TASK_STATE_BLOCKED\<rparr>) (hal_cli s)
            in scheduler_schedule (hal_sti s))"

text \<open>
  \<open>tcb_exit\<close> does not return: the result is the state in which the processor then halts.
  The trampoline runs the entry function, an argument of the model, and exits the task.
\<close>

definition tcb_exit :: "sched \<Rightarrow> sched option" where
  "tcb_exit s =
     (case current_task s of
        None \<Rightarrow> Some s
      | Some self \<Rightarrow> do {
          s \<leftarrow> scheduler_remove_task (Some self) (upd self (t_state_update (\<lambda>_. TASK_STATE_ZOMBIE)) s);
          scheduler_schedule s
        })"

definition tcb_trampoline :: "(u32 \<Rightarrow> u32 \<Rightarrow> sched \<Rightarrow> sched option) \<Rightarrow> sched \<Rightarrow> sched option" where
  "tcb_trampoline call s =
     (case current_task s of
        None \<Rightarrow> Some s
      | Some self \<Rightarrow> do {
          let entry = t_arch_data (task_pool s self);
          let arg = t_msg_buffer (task_pool s self);
          let s = hal_sti (upd self (\<lambda>r. r\<lparr>t_arch_data := 0, t_msg_buffer := 0\<rparr>) s);
          s \<leftarrow> (if entry \<noteq> 0 then call entry arg s else Some s);
          tcb_exit s
        })"

section \<open>The run queue as a list\<close>

text \<open>
  A segment \<open>xs\<close> of the doubly linked list, entered from \<open>p\<close> and left to \<open>n\<close>; the run queue of
  a state is the list \<open>xs\<close> when its links, head and tail spell \<open>xs\<close>.
\<close>

fun first :: "nat list \<Rightarrow> nat option \<Rightarrow> nat option" where
  "first [] n = n"
| "first (x # xs) n = Some x"

fun lastp :: "nat option \<Rightarrow> nat list \<Rightarrow> nat option" where
  "lastp p [] = p"
| "lastp p (x # xs) = lastp (Some x) xs"

fun seg :: "(nat \<Rightarrow> tcb) \<Rightarrow> nat option \<Rightarrow> nat list \<Rightarrow> nat option \<Rightarrow> bool" where
  "seg pool p [] n \<longleftrightarrow> True"
| "seg pool p (x # xs) n \<longleftrightarrow> t_prev (pool x) = p \<and> t_next (pool x) = first xs n \<and> seg pool (Some x) xs n"

definition rq :: "sched \<Rightarrow> nat list \<Rightarrow> bool" where
  "rq s xs \<longleftrightarrow> seg (task_pool s) None xs None \<and> runqueue_head s = first xs None
     \<and> runqueue_tail s = lastp None xs \<and> distinct xs \<and> (\<forall>x\<in>set xs. x < TCB_MAX_TASKS)"

lemma first_append [simp]: "first (xs @ ys) n = first xs (first ys n)"
  by (cases xs) auto

lemma lastp_append [simp]: "lastp p (xs @ ys) = lastp (lastp p xs) ys"
  by (induction xs arbitrary: p) auto

lemma first_None [simp]: "first xs n = None \<longleftrightarrow> xs = [] \<and> n = None" "first xs None = Some x \<longleftrightarrow> (\<exists>ys. xs = x # ys)"
  by (cases xs; auto)+

lemma lastp_None [simp]: "lastp p xs = None \<longleftrightarrow> xs = [] \<and> p = None"
  by (induction xs arbitrary: p) auto

lemma lastp_in: "lastp None xs = Some x \<Longrightarrow> x \<in> set xs"
  by (induction xs rule: rev_induct) auto

lemma seg_append: "seg pool p (xs @ ys) n \<longleftrightarrow> seg pool p xs (first ys n) \<and> seg pool (lastp p xs) ys n"
  by (induction xs arbitrary: p) auto

lemma seg_cong:
  "(\<And>x. x \<in> set xs \<Longrightarrow> t_next (pool' x) = t_next (pool x) \<and> t_prev (pool' x) = t_prev (pool x)) \<Longrightarrow>
    seg pool' p xs n = seg pool p xs n"
  by (induction xs arbitrary: p) auto

lemma upd_simps [simp]:
  "task_pool (upd i f s) = (task_pool s)(i := f (task_pool s i))"
  "next_tid (upd i f s) = next_tid s" "runqueue_head (upd i f s) = runqueue_head s"
  "runqueue_tail (upd i f s) = runqueue_tail s" "current_task (upd i f s) = current_task s"
  "scheduler_ticks (upd i f s) = scheduler_ticks s" "scheduler_initialized (upd i f s) = scheduler_initialized s"
  "idle_task (upd i f s) = idle_task s" "int_flag (upd i f s) = int_flag s"
  by (simp_all add: upd_def)

lemma rq_upd:
  assumes "\<And>r. t_next (f r) = t_next r" "\<And>r. t_prev (f r) = t_prev r"
  shows "rq (upd i f s) xs = rq s xs"
proof -
  have "seg ((task_pool s)(i := f (task_pool s i))) None xs None = seg (task_pool s) None xs None"
    by (rule seg_cong) (simp add: assms)
  then show ?thesis by (simp add: rq_def)
qed

section \<open>Walks along the queue\<close>

lemmas in_queue_simps = in_queue.simps [of _ None] in_queue.simps [of _ "Some i" for i]
lemmas find_higher_simps = find_higher.simps [of _ _ None] find_higher.simps [of _ _ "Some i" for i]
lemmas best_ready_simps = best_ready.simps [of _ None] best_ready.simps [of _ "Some i" for i]

lemma in_queue_seg:
  "seg pool p xs None \<Longrightarrow> in_queue pool (first xs None) t = Some (t \<in> set xs)"
  by (induction xs arbitrary: p) (auto simp: in_queue_simps)

lemma in_queue_rq: "rq s xs \<Longrightarrow> in_queue (task_pool s) (runqueue_head s) t = Some (t \<in> set xs)"
  by (auto simp: rq_def intro: in_queue_seg)

definition ready :: "(nat \<Rightarrow> tcb) \<Rightarrow> nat \<Rightarrow> bool" where
  "ready pool i \<longleftrightarrow> t_state (pool i) = TASK_STATE_READY"

lemma find_higher_seg:
  "seg pool p xs None \<Longrightarrow> find_higher pool c (first xs None) =
    Some (find (\<lambda>i. i \<noteq> c \<and> ready pool i \<and> t_priority (pool c) < t_priority (pool i)) xs)"
  by (induction xs arbitrary: p) (auto simp: find_higher_simps ready_def)

lemma best_ready_seg:
  "seg pool p xs None \<Longrightarrow> \<exists>b. best_ready pool (first xs None) best = Some b
    \<and> (b = None \<longleftrightarrow> best = None \<and> (\<forall>x\<in>set xs. \<not> ready pool x))
    \<and> (b = best \<or> (\<exists>x\<in>set xs. b = Some x \<and> ready pool x))"
proof (induction xs arbitrary: p best)
  case Nil
  then show ?case by (simp add: best_ready_simps)
next
  case (Cons x xs)
  let ?best = "if t_state (pool x) \<noteq> TASK_STATE_READY then best
    else case best of None \<Rightarrow> Some x | Some b \<Rightarrow> if t_priority (pool b) < t_priority (pool x) then Some x else best"
  from Cons.IH [of "Some x" ?best] Cons.prems obtain b where
    b: "best_ready pool (first xs None) ?best = Some b" "b = None \<longleftrightarrow> ?best = None \<and> (\<forall>x\<in>set xs. \<not> ready pool x)"
      "b = ?best \<or> (\<exists>x\<in>set xs. b = Some x \<and> ready pool x)" by auto
  have "best_ready pool (first (x # xs) None) best = Some b"
    using b(1) Cons.prems by (simp add: best_ready_simps)
  then show ?case using b(2,3) by (auto simp: ready_def split: if_splits option.splits)
qed

text \<open>The cyclic order in which the round-robin scan visits the queue.\<close>

definition cyc_next :: "(nat \<Rightarrow> tcb) \<Rightarrow> nat option \<Rightarrow> nat \<Rightarrow> nat option" where
  "cyc_next pool head i = (if t_next (pool i) = None then head else t_next (pool i))"

fun circ :: "(nat \<Rightarrow> tcb) \<Rightarrow> nat option \<Rightarrow> nat option \<Rightarrow> nat list \<Rightarrow> bool" where
  "circ pool head e [] \<longleftrightarrow> True"
| "circ pool head e (x # xs) \<longleftrightarrow> cyc_next pool head x = first xs e \<and> circ pool head e xs"

lemma circ_append: "circ pool head e (xs @ ys) \<longleftrightarrow> circ pool head (first ys e) xs \<and> circ pool head e ys"
  by (induction xs) auto

lemma seg_circ:
  "seg pool p xs n \<Longrightarrow> circ pool head (if n = None then head else n) xs"
  by (induction xs arbitrary: p) (auto simp: cyc_next_def neq_Nil_conv split: if_splits)

lemma next_ready_circ:
  "circ pool head (Some x) xs \<Longrightarrow> x \<notin> set (tl xs) \<Longrightarrow> length xs \<le> n \<Longrightarrow>
    next_ready pool head (Some x) n (first xs None) = find (ready pool) xs"
proof (induction xs arbitrary: n)
  case Nil
  then show ?case by (cases n) auto
next
  case (Cons a xs)
  then obtain m where n: "n = Suc m" by (cases n) auto
  show ?case
  proof (cases xs)
    case Nil
    then show ?thesis using Cons.prems n by (auto simp: ready_def cyc_next_def)
  next
    case (Cons b ys)
    then have "next_ready pool head (Some x) m (Some b) = find (ready pool) xs"
      using Cons.IH [of m] Cons.prems n by auto
    then show ?thesis using Cons.prems Cons n by (auto simp: ready_def [symmetric] cyc_next_def Let_def)
  qed
qed

lemma next_ready_rq:
  assumes "rq s (ys @ x # zs)"
  shows "next_ready (task_pool s) (runqueue_head s) (Some x) TCB_MAX_TASKS (Some x)
    = find (ready (task_pool s)) (x # zs @ ys)"
proof -
  note r = assms [unfolded rq_def]
  have c: "circ (task_pool s) (runqueue_head s) (Some x) (x # zs @ ys)"
    using r seg_circ [of "task_pool s" "lastp None ys" "x # zs" None "runqueue_head s"]
      seg_circ [of "task_pool s" None ys "Some x" "runqueue_head s"]
    by (simp add: seg_append circ_append)
  have "set (ys @ x # zs) \<subseteq> {..<256}" "distinct (ys @ x # zs)" using r by auto
  then have "length (ys @ x # zs) \<le> 256"
    by (metis card_mono distinct_card finite_lessThan card_lessThan)
  then show ?thesis using next_ready_circ [OF c, of 256] r by auto
qed

section \<open>Changing the queue\<close>

text \<open>Operations that change the links of the queue only.\<close>

definition core :: "tcb \<Rightarrow> tcb" where
  "core r = r\<lparr>t_next := None, t_prev := None\<rparr>"

definition links_only :: "sched \<Rightarrow> sched \<Rightarrow> bool" where
  "links_only s s' \<longleftrightarrow> (\<forall>i. core (task_pool s' i) = core (task_pool s i)) \<and> next_tid s' = next_tid s
     \<and> current_task s' = current_task s \<and> scheduler_ticks s' = scheduler_ticks s
     \<and> scheduler_initialized s' = scheduler_initialized s \<and> idle_task s' = idle_task s \<and> int_flag s' = int_flag s"

lemma core_upd [simp]: "core (r\<lparr>t_next := n\<rparr>) = core r" "core (r\<lparr>t_prev := n\<rparr>) = core r"
  by (simp_all add: core_def)

lemma core_eqD:
  assumes "core r = core r'"
  shows "t_state r = t_state r'" "t_time_slice r = t_time_slice r'" "t_priority r = t_priority r'"
    "t_accounting r = t_accounting r'" "t_last_run r = t_last_run r'" "t_tid r = t_tid r'"
  using assms by (auto simp: core_def dest: arg_cong [of _ _ t_state] arg_cong [of _ _ t_time_slice]
    arg_cong [of _ _ t_priority] arg_cong [of _ _ t_accounting] arg_cong [of _ _ t_last_run] arg_cong [of _ _ t_tid])

lemma links_only_refl [simp]: "links_only s s"
  by (simp add: links_only_def)

lemma links_only_trans: "links_only s t \<Longrightarrow> links_only t u \<Longrightarrow> links_only s u"
  by (simp add: links_only_def)

lemma links_onlyD:
  assumes "links_only s s'"
  shows "state_of s' i = state_of s i" "t_time_slice (task_pool s' i) = t_time_slice (task_pool s i)"
    "t_priority (task_pool s' i) = t_priority (task_pool s i)" "t_accounting (task_pool s' i) = t_accounting (task_pool s i)"
    "current_task s' = current_task s" "scheduler_initialized s' = scheduler_initialized s" "idle_task s' = idle_task s"
    "scheduler_ticks s' = scheduler_ticks s" "next_tid s' = next_tid s" "ready (task_pool s') i = ready (task_pool s) i"
  using assms core_eqD [of "task_pool s' i" "task_pool s i"] by (auto simp: links_only_def state_of_def ready_def)

lemma links_only_updI:
  assumes "links_only s s'" "\<And>r. core (f r) = core r"
  shows "links_only s (upd i f s')"
  using assms by (simp add: links_only_def)

lemma links_only_ptr [simp]:
  "links_only s (s'\<lparr>runqueue_head := x\<rparr>) = links_only s s'" "links_only s (s'\<lparr>runqueue_tail := x\<rparr>) = links_only s s'"
  by (simp_all add: links_only_def)

lemma seg_upd_other: "i \<notin> set xs \<Longrightarrow> seg (pool(i := r)) p xs n = seg pool p xs n"
  by (rule seg_cong) auto

lemma seg_snoc: "seg pool p (xs @ [x]) n \<longleftrightarrow> seg pool p xs (Some x) \<and> t_prev (pool x) = lastp p xs \<and> t_next (pool x) = n"
  by (simp add: seg_append)

text \<open>Changing where the last element of a segment leads.\<close>

lemma seg_redirect:
  assumes "seg pool p xs n" "distinct xs" "lastp None xs = Some x"
  shows "seg (pool(x := (pool x)\<lparr>t_next := m\<rparr>)) p xs m"
  using assms by (induction xs rule: rev_induct) (auto simp: seg_snoc seg_upd_other)

lemma seg_reenter:
  assumes "seg pool p (x # xs) n" "distinct (x # xs)"
  shows "seg (pool(x := (pool x)\<lparr>t_prev := q\<rparr>)) q (x # xs) n"
  using assms by (auto simp: seg_upd_other)

lemma rq_append_rq:
  assumes "rq s xs" "t \<notin> set xs" "t < TCB_MAX_TASKS"
  shows "\<exists>s'. rq_append t s = Some s' \<and> rq s' (xs @ [t]) \<and> links_only s s'"
proof (cases "xs = []")
  case True
  then show ?thesis using assms
    by (auto simp: rq_append_def rq_def Let_def intro!: links_only_updI)
next
  case False
  then obtain l where l: "lastp None xs = Some l" by (cases "lastp None xs") auto
  have lt: "l \<noteq> t" using lastp_in [OF l] assms(2) by auto
  define pool where "pool = (task_pool s)(t := (task_pool s t)\<lparr>t_next := None, t_prev := Some l\<rparr>)"
  have s0: "seg pool None xs None" using assms unfolding pool_def by (simp add: seg_upd_other rq_def)
  have "seg (pool(l := (pool l)\<lparr>t_next := Some t\<rparr>)) None xs (Some t)"
    using seg_redirect [OF s0 _ l] assms(1) by (simp add: rq_def)
  then have "seg (pool(l := (pool l)\<lparr>t_next := Some t\<rparr>)) None (xs @ [t]) None"
    using lt l by (simp add: seg_append pool_def)
  moreover have "first xs (Some t) = first xs None" using False by (cases xs) auto
  ultimately show ?thesis using assms False l
    by (auto simp: rq_append_def rq_def Let_def pool_def intro!: links_only_updI)
qed

lemma lastp_snocD: "lastp None ys = Some p \<Longrightarrow> \<exists>zs. ys = zs @ [p]"
  by (cases ys rule: rev_cases) auto

lemma rq_unlink_rq:
  assumes "rq s (ys @ t # zs)"
  shows "rq (rq_unlink t s) (ys @ zs)" and "links_only s (rq_unlink t s)"
proof -
  have sg: "seg (task_pool s) None ys (Some t)" "seg (task_pool s) (Some t) zs None"
    "t_prev (task_pool s t) = lastp None ys" "t_next (task_pool s t) = first zs None"
    and d: "distinct (ys @ t # zs)" and b: "\<forall>x\<in>set (ys @ zs). x < TCB_MAX_TASKS"
    and ht: "runqueue_head s = first (ys @ t # zs) None" "runqueue_tail s = lastp None (ys @ t # zs)"
    using assms by (auto simp: rq_def seg_append)
  show "links_only s (rq_unlink t s)"
    by (auto simp: rq_unlink_def Let_def intro!: links_only_updI split: option.splits)
  show "rq (rq_unlink t s) (ys @ zs)"
  proof (cases ys rule: rev_cases)
    case Nil
    show ?thesis
    proof (cases zs)
      case Nil
      then show ?thesis using \<open>ys = []\<close> sg by (simp add: rq_def rq_unlink_def Let_def)
    next
      case (Cons z zs')
      then show ?thesis using \<open>ys = []\<close> sg d b ht
        by (auto simp: rq_def rq_unlink_def Let_def seg_upd_other)
    qed
  next
    case (snoc ys' p)
    have sp: "seg ((task_pool s)(p := (task_pool s p)\<lparr>t_next := m\<rparr>)) None ys m" for m
      using seg_redirect [OF sg(1)] d snoc by simp
    show ?thesis
    proof (cases zs)
      case Nil
      then show ?thesis using snoc sg d b ht sp
        by (auto simp: rq_def rq_unlink_def Let_def seg_upd_other)
    next
      case (Cons z zs')
      then show ?thesis using snoc sg d b ht sp [of "Some z"]
        by (auto simp: rq_def rq_unlink_def Let_def seg_append seg_upd_other)
    qed
  qed
qed

lemma links_commute: "r\<lparr>t_prev := a, t_next := b\<rparr> = r\<lparr>t_next := b, t_prev := a\<rparr>"
  by simp

lemma rotate_rq:
  assumes "rq s (ys @ c # zs)"
  shows "\<exists>s'. rotate_current c s = Some s' \<and> rq s' (ys @ zs @ [c]) \<and> links_only s s'"
proof (cases zs)
  case Nil
  then have "t_next (task_pool s c) = None" using assms by (simp add: rq_def seg_append)
  then have "rotate_current c s = Some s" by (simp add: rotate_current_def)
  then show ?thesis using assms Nil by simp
next
  case (Cons z zs')
  have sg: "seg (task_pool s) None ys (Some c)" "seg (task_pool s) (Some c) zs None"
    "t_prev (task_pool s c) = lastp None ys" "t_next (task_pool s c) = Some z"
    and d: "distinct (ys @ c # zs)" and b: "\<forall>x\<in>set (ys @ c # zs). x < TCB_MAX_TASKS"
    and ht: "runqueue_head s = first (ys @ c # zs) None" "runqueue_tail s = lastp None (ys @ c # zs)"
    using assms Cons by (auto simp: rq_def seg_append)
  obtain l where l: "lastp None zs = Some l" using Cons by (cases "lastp None zs") auto
  then have lz: "l \<in> set zs" and l': "\<And>p. lastp p zs = Some l" using lastp_in [OF l] l Cons by auto
  define ul where "ul = rq_unlink c s"
  have ul: "rq ul (ys @ zs)" "links_only s ul" using rq_unlink_rq [OF assms] by (simp_all add: ul_def)
  have "rotate_current c s = rq_append c ul"
  proof (cases ys rule: rev_cases)
    case Nil
    have "runqueue_head s = Some c" "runqueue_tail s = Some l" using ht Nil l' by simp_all
    moreover have "c \<noteq> z" "c \<noteq> l" using d Cons lz by auto
    ultimately show ?thesis using sg Nil Cons
      by (simp add: rotate_current_def rq_append_def ul_def rq_unlink_def Let_def upd_def fun_upd_twist links_commute)
  next
    case (snoc ys' p)
    obtain hd where "runqueue_head s = Some hd" "hd \<noteq> c" using ht(1) snoc d by (cases ys') auto
    moreover have "runqueue_tail s = Some l" using ht(2) l' by simp
    moreover have "c \<noteq> z" "c \<noteq> l" "p \<noteq> c" "p \<noteq> z" "p \<noteq> l" using d snoc Cons lz by auto
    ultimately show ?thesis using sg snoc Cons
      by (simp add: rotate_current_def rq_append_def ul_def rq_unlink_def Let_def upd_def fun_upd_twist links_commute)
  qed
  moreover have "c \<notin> set (ys @ zs)" "c < TCB_MAX_TASKS" using d b by auto
  ultimately show ?thesis using rq_append_rq [OF ul(1)] links_only_trans [OF ul(2)] by fastforce
qed

section \<open>The choice of the next task\<close>

definition next_task :: "sched \<Rightarrow> nat list \<Rightarrow> nat \<Rightarrow> nat" where
  "next_task s order idle = (case find (ready (task_pool s)) order of Some x \<Rightarrow> x | None \<Rightarrow> idle)"

lemma pick_round_robin_rq:
  assumes "rq s (ys @ c # zs)" "current_task s = Some c" "idle_task s = Some i" "state_of s i \<noteq> TASK_STATE_FREE"
  shows "pick_round_robin s = Some (case find (ready (task_pool s)) (zs @ ys @ [c]) of
      Some x \<Rightarrow> (Some x, s)
    | None \<Rightarrow> (Some i, if state_of s i \<noteq> TASK_STATE_RUNNING then upd i (t_state_update (\<lambda>_. TASK_STATE_READY)) s else s))"
proof -
  define start where "start = (if t_next (task_pool s c) = None then runqueue_head s else t_next (task_pool s c))"
  have tn: "t_next (task_pool s c) = first zs None" "runqueue_head s = first (ys @ c # zs) None"
    using assms(1) by (auto simp: rq_def seg_append)
  have nr: "next_ready (task_pool s) (runqueue_head s) start TCB_MAX_TASKS start = find (ready (task_pool s)) (zs @ ys @ [c])"
  proof (cases zs)
    case Nil
    show ?thesis
    proof (cases ys)
      case Nil
      then show ?thesis using next_ready_rq [of s "[]" c "[]"] assms(1) \<open>zs = []\<close> tn by (simp add: start_def)
    next
      case (Cons y ys')
      then show ?thesis using next_ready_rq [of s "[]" y "ys' @ [c]"] assms(1) \<open>zs = []\<close> tn by (simp add: start_def)
    qed
  next
    case (Cons z zs')
    then show ?thesis using next_ready_rq [of s "ys @ [c]" z zs'] assms(1) tn by (simp add: start_def)
  qed
  show ?thesis
  proof (cases "find (ready (task_pool s)) (zs @ ys @ [c])")
    case None
    have sg: "seg (task_pool s) None (ys @ c # zs) None" using assms(1) by (simp add: rq_def)
    from best_ready_seg [OF sg, of None] None have "best_ready (task_pool s) (runqueue_head s) None = Some None"
      by (auto simp: tn(2) find_None_iff)
    then show ?thesis using None nr assms(2-4)
      by (simp add: pick_round_robin_def Let_def start_def [symmetric] pick_idle_def)
  next
    case (Some x)
    then show ?thesis using nr assms(2) by (simp add: pick_round_robin_def Let_def start_def [symmetric])
  qed
qed

section \<open>The invariant of the scheduler\<close>

text \<open>
  \<open>sched_pre\<close> allows the current task to be blocked, as it is while \<open>scheduler_schedule\<close> runs;
  in \<open>sched_inv\<close> the current task is the one running task.
\<close>

definition queue_states :: "sched \<Rightarrow> nat list \<Rightarrow> bool" where
  "queue_states s xs \<longleftrightarrow> (\<forall>x\<in>set xs. state_of s x \<noteq> TASK_STATE_FREE \<and> state_of s x \<noteq> TASK_STATE_ZOMBIE)"

definition sched_pre :: "sched \<Rightarrow> nat list \<Rightarrow> nat \<Rightarrow> nat \<Rightarrow> bool" where
  "sched_pre s xs c i \<longleftrightarrow> scheduler_initialized s \<and> rq s xs \<and> current_task s = Some c \<and> c \<in> set xs
     \<and> idle_task s = Some i \<and> i \<in> set xs \<and> queue_states s xs
     \<and> (\<forall>k<TCB_MAX_TASKS. state_of s k = TASK_STATE_RUNNING \<longrightarrow> k = c)"

definition sched_inv :: "sched \<Rightarrow> nat list \<Rightarrow> nat \<Rightarrow> nat \<Rightarrow> bool" where
  "sched_inv s xs c i \<longleftrightarrow> sched_pre s xs c i \<and> state_of s c = TASK_STATE_RUNNING"

lemma state_of_upd: "state_of (upd i f s) k = (if k = i then t_state (f (task_pool s i)) else state_of s k)"
  by (simp add: state_of_def)

text \<open>What scheduling keeps of a state.\<close>

definition keeps :: "sched \<Rightarrow> sched \<Rightarrow> bool" where
  "keeps s s' \<longleftrightarrow> scheduler_ticks s' = scheduler_ticks s \<and> idle_task s' = idle_task s
     \<and> scheduler_initialized s' = scheduler_initialized s \<and> next_tid s' = next_tid s
     \<and> (\<forall>k. t_accounting (task_pool s' k) = t_accounting (task_pool s k) \<and> t_priority (task_pool s' k) = t_priority (task_pool s k))"

lemma keeps_trans: "keeps s t \<Longrightarrow> keeps t u \<Longrightarrow> keeps s u"
  by (simp add: keeps_def)

lemma links_only_keeps: "links_only s s' \<Longrightarrow> keeps s s'"
  by (simp add: keeps_def links_onlyD)

lemma rq_other [simp]: "rq (s\<lparr>current_task := x\<rparr>) xs = rq s xs" "rq (s\<lparr>idle_task := x\<rparr>) xs = rq s xs"
  "rq (s\<lparr>scheduler_ticks := t\<rparr>) xs = rq s xs" "rq (s\<lparr>int_flag := b\<rparr>) xs = rq s xs" "rq (s\<lparr>next_tid := n\<rparr>) xs = rq s xs"
  by (simp_all add: rq_def)

text \<open>Switching to a ready task, or to the current one, makes it the one running task.\<close>

lemma switch_to_spec:
  assumes "sched_pre s xs c i" "n \<in> set xs" "state_of s n \<noteq> TASK_STATE_BLOCKED"
  shows "sched_inv (switch_to c (Some n) s) xs n i \<and> keeps s (switch_to c (Some n) s)
    \<and> (\<forall>k. state_of (switch_to c (Some n) s) k = (if k = n then TASK_STATE_RUNNING
         else if k = c \<and> state_of s c = TASK_STATE_RUNNING then TASK_STATE_READY else state_of s k))"
proof -
  note p = assms(1) [unfolded sched_pre_def]
  define s' where "s' = switch_to c (Some n) s"
  have st: "state_of s' k = (if k = n then TASK_STATE_RUNNING
         else if k = c \<and> state_of s c = TASK_STATE_RUNNING then TASK_STATE_READY else state_of s k)" for k
    by (auto simp: s'_def switch_to_def start_running_def state_of_def Let_def)
  have r: "rq s' xs" using p by (simp add: s'_def switch_to_def start_running_def Let_def rq_upd)
  have k: "keeps s s'" by (auto simp: s'_def switch_to_def start_running_def Let_def keeps_def)
  have "current_task s' = Some n" using p by (auto simp: s'_def switch_to_def)
  moreover have "queue_states s' xs" using p st by (auto simp: queue_states_def)
  ultimately have "sched_inv s' xs n i" using p k r st assms(2) by (auto simp: sched_inv_def sched_pre_def keeps_def)
  then show ?thesis using k st unfolding s'_def by blast
qed

lemma find_SomeD: "find P xs = Some x \<Longrightarrow> x \<in> set xs \<and> P x"
  by (induction xs) (auto split: if_splits)

definition scheduled :: "sched \<Rightarrow> sched \<Rightarrow> nat list \<Rightarrow> nat \<Rightarrow> nat \<Rightarrow> nat \<Rightarrow> bool" where
  "scheduled s s' xs c n i \<longleftrightarrow> sched_inv s' xs n i \<and> keeps s s'
     \<and> (\<forall>k. state_of s' k = (if k = n then TASK_STATE_RUNNING
          else if k = c \<and> state_of s c = TASK_STATE_RUNNING then TASK_STATE_READY else state_of s k))"

lemma ready_state: "ready (task_pool s) k \<longleftrightarrow> state_of s k = TASK_STATE_READY"
  by (simp add: ready_def state_of_def)

lemma pre_head: "sched_pre s xs c i \<Longrightarrow> runqueue_head s \<noteq> None"
  by (auto simp: sched_pre_def rq_def)

lemma schedule_eq:
  assumes "sched_pre s xs c i" "\<not> (state_of s c = TASK_STATE_RUNNING \<and> t_time_slice (task_pool s c) = 0)"
  shows "scheduler_schedule s = do { (nxt, s') \<leftarrow> scheduler_pick_next s; Some (switch_to c nxt s') }"
  using assms by (auto simp: scheduler_schedule_def sched_pre_def)

text \<open>A running task with time left keeps the processor unless a ready task of higher priority waits.\<close>

lemma schedule_keep:
  assumes "sched_pre s xs c i" "state_of s c = TASK_STATE_RUNNING" "0 < t_time_slice (task_pool s c)"
  defines "n \<equiv> (case find (\<lambda>k. k \<noteq> c \<and> state_of s k = TASK_STATE_READY \<and> t_priority (task_pool s c) < t_priority (task_pool s k)) xs
    of Some k \<Rightarrow> k | None \<Rightarrow> c)"
  shows "\<exists>s'. scheduler_schedule s = Some s' \<and> scheduled s s' xs c n i"
proof -
  note p = assms(1) [unfolded sched_pre_def]
  have hd: "runqueue_head s = first xs None" and sg: "seg (task_pool s) None xs None" using p by (simp_all add: rq_def)
  have pk: "scheduler_pick_next s = Some (Some n, s)"
    using assms(2,3) p pre_head [OF assms(1)] find_higher_seg [OF sg, of c] unfolding n_def ready_state
    by (simp add: scheduler_pick_next_def hd split: option.split)
  have n: "n = c \<or> n \<in> set xs \<and> state_of s n = TASK_STATE_READY"
    by (auto simp: n_def dest: find_SomeD split: option.split)
  then have "n \<in> set xs" "state_of s n \<noteq> TASK_STATE_BLOCKED" using p assms(2) by auto
  from switch_to_spec [OF assms(1) this] have "scheduled s (switch_to c (Some n) s) xs c n i"
    by (simp add: scheduled_def)
  moreover have "t_time_slice (task_pool s c) \<noteq> 0" using assms(3) by auto
  then have "scheduler_schedule s = Some (switch_to c (Some n) s)" using schedule_eq [OF assms(1)] pk by simp
  ultimately show ?thesis by blast
qed

text \<open>A current task that cannot go on gives way to the next ready task after it in cyclic order, or to the idle task.\<close>

lemma schedule_blocked:
  assumes "sched_pre s (ys @ c # zs) c i" "state_of s c \<noteq> TASK_STATE_RUNNING"
  defines "n \<equiv> next_task s (zs @ ys @ [c]) i"
  shows "\<exists>s'. scheduler_schedule s = Some s' \<and> scheduled s s' (ys @ c # zs) c n i"
proof -
  note p = assms(1) [unfolded sched_pre_def]
  have nf: "state_of s i \<noteq> TASK_STATE_FREE" using p by (auto simp: queue_states_def)
  have ni: "state_of s i \<noteq> TASK_STATE_RUNNING" using p assms(2) by (auto simp: rq_def)
  have pk: "scheduler_pick_next s = Some (case find (ready (task_pool s)) (zs @ ys @ [c]) of
      Some x \<Rightarrow> (Some x, s) | None \<Rightarrow> (Some i, upd i (t_state_update (\<lambda>_. TASK_STATE_READY)) s))"
    using pick_round_robin_rq [of s ys c zs i] p nf ni assms(2) pre_head [OF assms(1)]
    by (auto simp: scheduler_pick_next_def)
  note eq = schedule_eq [OF assms(1)]
  show ?thesis
  proof (cases "find (ready (task_pool s)) (zs @ ys @ [c])")
    case None
    define s1 where "s1 = upd i (t_state_update (\<lambda>_. TASK_STATE_READY)) s"
    have st: "state_of s1 k = (if k = i then TASK_STATE_READY else state_of s k)" for k
      by (simp add: s1_def state_of_upd)
    have "sched_pre s1 (ys @ c # zs) c i"
      using p st by (auto simp: sched_pre_def queue_states_def s1_def rq_upd)
    from switch_to_spec [OF this] have "sched_inv (switch_to c (Some i) s1) (ys @ c # zs) i i
        \<and> keeps s1 (switch_to c (Some i) s1) \<and> (\<forall>k. state_of (switch_to c (Some i) s1) k = (if k = i then TASK_STATE_RUNNING
         else if k = c \<and> state_of s1 c = TASK_STATE_RUNNING then TASK_STATE_READY else state_of s1 k))"
      using p st by simp
    moreover have "keeps s s1" by (simp add: keeps_def s1_def)
    moreover have "scheduler_schedule s = Some (switch_to c (Some i) s1)" using eq pk None assms(2) by (simp add: s1_def)
    ultimately show ?thesis using None st assms(2) keeps_trans [of s s1]
      by (auto simp: scheduled_def n_def next_task_def)
  next
    case (Some x)
    then have x: "x \<in> set (ys @ c # zs)" "state_of s x = TASK_STATE_READY"
      using find_SomeD [OF Some] by (auto simp: ready_state)
    from switch_to_spec [OF assms(1) x(1)] x(2) show ?thesis
      using eq pk Some assms(2) by (simp add: scheduled_def n_def next_task_def)
  qed
qed

text \<open>A running task whose time is used up goes to the tail, and the first ready task of the queue runs.\<close>

lemma schedule_rotate:
  assumes "sched_pre s (ys @ c # zs) c i" "state_of s c = TASK_STATE_RUNNING" "t_time_slice (task_pool s c) = 0"
  shows "\<exists>s' n. scheduler_schedule s = Some s' \<and> scheduled s s' (ys @ zs @ [c]) c n i
    \<and> find (\<lambda>k. k = c \<or> state_of s k = TASK_STATE_READY) (ys @ zs @ [c]) = Some n"
proof -
  note p = assms(1) [unfolded sched_pre_def]
  define s0 where "s0 = upd c (\<lambda>r. r\<lparr>t_state := TASK_STATE_READY,
    t_time_slice := scheduler_time_slice_for_priority (t_priority r)\<rparr>) s"
  have st0: "state_of s0 k = (if k = c then TASK_STATE_READY else state_of s k)" for k
    by (simp add: s0_def state_of_upd)
  have "rq s0 (ys @ c # zs)" using p by (simp add: s0_def rq_upd)
  from rotate_rq [OF this] obtain s1 where s1: "rotate_current c s0 = Some s1" "rq s1 (ys @ zs @ [c])" "links_only s0 s1" by blast
  have st: "state_of s1 k = (if k = c then TASK_STATE_READY else state_of s k)" for k
    using links_onlyD(1) [OF s1(3)] st0 by simp
  have cur: "current_task s1 = Some c" "idle_task s1 = Some i" "scheduler_initialized s1"
    using links_onlyD [OF s1(3)] p by (simp_all add: s0_def)
  have pre: "sched_pre s1 (ys @ zs @ [c]) c i"
    using p st cur s1(2) by (auto simp: sched_pre_def queue_states_def)
  have "scheduler_pick_next s1 = pick_round_robin s1"
    using pre_head [OF pre] cur st by (auto simp: scheduler_pick_next_def)
  moreover have "\<exists>n. find (ready (task_pool s1)) (ys @ zs @ [c]) = Some n"
    using st [of c] by (cases "find (ready (task_pool s1)) (ys @ zs @ [c])") (auto simp: find_None_iff ready_state)
  then obtain n where n: "find (ready (task_pool s1)) (ys @ zs @ [c]) = Some n" by blast
  moreover have "state_of s1 i \<noteq> TASK_STATE_FREE" using pre by (auto simp: sched_pre_def queue_states_def)
  ultimately have pk: "scheduler_pick_next s1 = Some (Some n, s1)"
    using pick_round_robin_rq [of s1 "ys @ zs" c "[]" i] s1(2) cur by simp
  have nn: "n \<in> set (ys @ zs @ [c])" "state_of s1 n = TASK_STATE_READY"
    using find_SomeD [OF n] by (auto simp: ready_state)
  from switch_to_spec [OF pre nn(1)] nn(2) have sw: "scheduled s1 (switch_to c (Some n) s1) (ys @ zs @ [c]) c n i"
    by (simp add: scheduled_def)
  have "keeps s s0" by (simp add: keeps_def s0_def)
  with links_only_keeps [OF s1(3)] have "keeps s s1" by (rule keeps_trans [rotated])
  then have "scheduled s (switch_to c (Some n) s1) (ys @ zs @ [c]) c n i"
    using sw st assms(2) keeps_trans by (auto simp: scheduled_def)
  moreover have "scheduler_schedule s = Some (switch_to c (Some n) s1)"
    using p assms(2,3) s1(1) pk by (simp add: scheduler_schedule_def s0_def)
  moreover have "ready (task_pool s1) = (\<lambda>k. k = c \<or> state_of s k = TASK_STATE_READY)"
    using st by (auto simp: ready_state fun_eq_iff)
  ultimately show ?thesis using n by auto
qed

section \<open>The operations keep the invariant\<close>

lemma preD:
  assumes "sched_pre s xs c i"
  shows "scheduler_initialized s" "rq s xs" "current_task s = Some c" "c \<in> set xs" "idle_task s = Some i" "i \<in> set xs"
    "queue_states s xs" "k < TCB_MAX_TASKS \<Longrightarrow> state_of s k = TASK_STATE_RUNNING \<Longrightarrow> k = c"
  using assms unfolding sched_pre_def by blast+

lemma invD:
  assumes "sched_inv s xs c i"
  shows "sched_pre s xs c i" "state_of s c = TASK_STATE_RUNNING"
    "scheduler_initialized s" "rq s xs" "current_task s = Some c" "c \<in> set xs" "idle_task s = Some i" "i \<in> set xs"
    "queue_states s xs" "k < TCB_MAX_TASKS \<Longrightarrow> state_of s k = TASK_STATE_RUNNING \<Longrightarrow> k = c"
  using assms preD [of s xs c i] unfolding sched_inv_def by blast+

lemma inv_split: "sched_inv s xs c i \<Longrightarrow> \<exists>ys zs. xs = ys @ c # zs"
  by (auto simp: sched_inv_def sched_pre_def in_set_conv_decomp)

lemma inv_lt: "sched_inv s xs c i \<Longrightarrow> x \<in> set xs \<Longrightarrow> x < TCB_MAX_TASKS"
  by (auto simp: sched_inv_def sched_pre_def rq_def)

lemma pre_flags [simp]:
  "sched_pre (s\<lparr>int_flag := b\<rparr>) xs c i = sched_pre s xs c i" "sched_pre (s\<lparr>scheduler_ticks := t\<rparr>) xs c i = sched_pre s xs c i"
  by (simp_all add: sched_pre_def queue_states_def state_of_def)

lemma inv_flags [simp]:
  "sched_inv (s\<lparr>int_flag := b\<rparr>) xs c i = sched_inv s xs c i" "sched_inv (s\<lparr>scheduler_ticks := t\<rparr>) xs c i = sched_inv s xs c i"
  by (simp_all add: sched_inv_def state_of_def)

lemma keeps_flags [simp]: "keeps s (s'\<lparr>int_flag := b\<rparr>) = keeps s s'" "keeps (s\<lparr>int_flag := b\<rparr>) s' = keeps s s'"
  by (simp_all add: keeps_def)

lemma state_of_flags [simp]: "state_of (s\<lparr>int_flag := b\<rparr>) k = state_of s k" "state_of (s\<lparr>scheduler_ticks := t\<rparr>) k = state_of s k"
  by (simp_all add: state_of_def)

lemmas hal_defs = hal_cli_def hal_sti_def

text \<open>A change of one task that keeps its links and its state.\<close>

lemma pre_upd:
  assumes "\<And>r. t_next (f r) = t_next r" "\<And>r. t_prev (f r) = t_prev r" "\<And>r. t_state (f r) = t_state r"
  shows "sched_pre (upd k f s) xs c i = sched_pre s xs c i"
proof -
  have "state_of (upd k f s) = state_of s" using assms(3) by (simp add: state_of_def fun_eq_iff)
  then show ?thesis using assms(1,2) by (simp add: sched_pre_def queue_states_def rq_upd)
qed

lemma preI:
  assumes "scheduler_initialized s" "rq s xs" "current_task s = Some c" "c \<in> set xs" "idle_task s = Some i" "i \<in> set xs"
    "queue_states s xs" "\<And>k. k < TCB_MAX_TASKS \<Longrightarrow> state_of s k = TASK_STATE_RUNNING \<Longrightarrow> k = c"
  shows "sched_pre s xs c i"
  unfolding sched_pre_def using assms by blast

text \<open>A change that keeps the current task running and starts no other one.\<close>

lemma inv_change:
  assumes "sched_inv s xs c i" "rq s' xs'" "set xs \<subseteq> set xs'"
    and "current_task s' = current_task s" "idle_task s' = idle_task s" "scheduler_initialized s' = scheduler_initialized s"
    and "\<And>k. state_of s' k = state_of s k \<or> k \<noteq> c \<and> state_of s' k \<noteq> TASK_STATE_RUNNING"
    and "queue_states s' xs'"
  shows "sched_inv s' xs' c i"
proof -
  note D = invD [OF assms(1)]
  have "state_of s' c = TASK_STATE_RUNNING" using D(2) assms(7) [of c] by auto
  moreover have "sched_pre s' xs' c i"
  proof (intro preI [OF _ assms(2) _ _ _ _ assms(8)])
    fix k
    assume "k < TCB_MAX_TASKS" "state_of s' k = TASK_STATE_RUNNING"
    then show "k = c" using D(10) [of k] assms(7) [of k] by argo
  qed (use D(3-8) assms(3-6) in auto)
  ultimately show ?thesis by (simp add: sched_inv_def)
qed

lemma inv_upd:
  assumes "\<And>r. t_next (f r) = t_next r" "\<And>r. t_prev (f r) = t_prev r" "\<And>r. t_state (f r) = t_state r"
  shows "sched_inv (upd k f s) xs c i = sched_inv s xs c i"
  using assms pre_upd [OF assms] by (simp add: sched_inv_def state_of_def)

lemma yield_law:
  assumes "sched_inv s (ys @ c # zs) c i"
  shows "\<exists>s' n. tcb_yield s = Some s' \<and> scheduled s s' (ys @ zs @ [c]) c n i
    \<and> find (\<lambda>k. k = c \<or> state_of s k = TASK_STATE_READY) (ys @ zs @ [c]) = Some n"
proof -
  define s0 where "s0 = upd c (\<lambda>r. r\<lparr>t_time_slice := 0\<rparr>) (hal_cli s)"
  have st: "state_of s0 k = state_of s k" for k by (simp add: s0_def state_of_def hal_defs)
  have "sched_inv s0 (ys @ c # zs) c i" using assms by (simp add: s0_def hal_defs inv_upd)
  then have "sched_pre s0 (ys @ c # zs) c i" "state_of s0 c = TASK_STATE_RUNNING" by (simp_all add: sched_inv_def)
  moreover have "t_time_slice (task_pool s0 c) = 0" by (simp add: s0_def)
  ultimately obtain s' n where k: "scheduler_schedule s0 = Some s'" "scheduled s0 s' (ys @ zs @ [c]) c n i"
    "find (\<lambda>k. k = c \<or> state_of s0 k = TASK_STATE_READY) (ys @ zs @ [c]) = Some n" using schedule_rotate by blast
  have "keeps s s0" by (simp add: keeps_def s0_def hal_defs)
  then have "scheduled s (hal_sti s') (ys @ zs @ [c]) c n i"
    using k(2) keeps_trans by (auto simp: scheduled_def st hal_defs)
  moreover have "tcb_yield s = Some (hal_sti s')"
    using invD(3,5) [OF assms] k(1) by (simp add: tcb_yield_def s0_def)
  ultimately show ?thesis using k(3) st by auto
qed

text \<open>Scheduling with the current task blocked.\<close>

lemma block_current_law:
  assumes "sched_inv s xs c i" "\<And>r. t_next (f r) = t_next r" "\<And>r. t_prev (f r) = t_prev r" "\<And>r. t_state (f r) = TASK_STATE_BLOCKED"
  shows "\<exists>s' n. scheduler_schedule ((upd c f s)\<lparr>int_flag := b\<rparr>) = Some s' \<and> sched_inv s' xs n i \<and> keeps (upd c f s) s'
    \<and> (n \<noteq> c \<and> state_of s n = TASK_STATE_READY \<or> n = i)
    \<and> (\<forall>k. state_of s' k = (if k = n then TASK_STATE_RUNNING else if k = c then TASK_STATE_BLOCKED else state_of s k))"
proof -
  define s0 where "s0 = (upd c f s)\<lparr>int_flag := b\<rparr>"
  from inv_split [OF assms(1)] obtain ys zs where xs: "xs = ys @ c # zs" by blast
  have st: "state_of s0 k = (if k = c then TASK_STATE_BLOCKED else state_of s k)" for k
    by (simp add: s0_def state_of_upd assms(4))
  have r: "rq s0 xs" using assms(1) by (simp add: s0_def rq_upd assms(2,3) invD(4))
  have "queue_states s0 xs" using invD(9) [OF assms(1)] by (simp add: queue_states_def st)
  then have pre: "sched_pre s0 xs c i"
  proof (intro preI [OF _ r])
    fix k
    assume "k < TCB_MAX_TASKS" "state_of s0 k = TASK_STATE_RUNNING"
    then show "k = c" using invD(10) [OF assms(1), of k] st [of k] by (simp split: if_splits)
  qed (use invD [OF assms(1)] in \<open>simp_all add: s0_def\<close>)
  have nr: "state_of s0 c \<noteq> TASK_STATE_RUNNING" by (simp add: st)
  from schedule_blocked [OF pre [unfolded xs] nr] obtain s' where
    k: "scheduler_schedule s0 = Some s'" "scheduled s0 s' xs c (next_task s0 (zs @ ys @ [c]) i) i" unfolding xs by blast
  define n where "n = next_task s0 (zs @ ys @ [c]) i"
  have "n \<noteq> c \<and> state_of s n = TASK_STATE_READY \<or> n = i"
  proof (cases "find (ready (task_pool s0)) (zs @ ys @ [c])")
    case (Some x)
    then have "state_of s0 n = TASK_STATE_READY" using find_SomeD [OF Some] by (simp add: n_def next_task_def ready_state)
    then show ?thesis using st [of n] by (simp split: if_splits)
  qed (simp add: n_def next_task_def)
  moreover have "keeps (upd c f s) s'" using k(2) by (simp add: scheduled_def s0_def)
  moreover have "state_of s' k = (if k = n then TASK_STATE_RUNNING else if k = c then TASK_STATE_BLOCKED else state_of s k)" for k
    using k(2) by (simp add: scheduled_def n_def [symmetric] st)
  ultimately show ?thesis using k unfolding s0_def [symmetric] n_def [symmetric] scheduled_def by blast
qed

lemma block_law:
  assumes "sched_inv s xs c i"
  shows "\<exists>s' n. tcb_block (Some t) s = Some s' \<and> sched_inv s' xs n i \<and> (state_of s' t = TASK_STATE_BLOCKED \<or> t = i)"
proof (cases "t = c")
  case True
  define s0 where "s0 = (upd c (t_state_update (\<lambda>_. TASK_STATE_BLOCKED)) s)\<lparr>int_flag := False\<rparr>"
  have s0: "upd t (t_state_update (\<lambda>_. TASK_STATE_BLOCKED)) (hal_cli s) = s0" "current_task s0 = Some t"
    using invD(5) [OF assms] True by (simp_all add: s0_def hal_defs upd_def)
  from block_current_law [OF assms, of "t_state_update (\<lambda>_. TASK_STATE_BLOCKED)" False, folded s0_def] obtain s' n where
    "scheduler_schedule s0 = Some s'" "sched_inv s' xs n i" "n \<noteq> c \<or> n = i"
    "\<forall>k. state_of s' k = (if k = n then TASK_STATE_RUNNING else if k = c then TASK_STATE_BLOCKED else state_of s k)" by auto
  then show ?thesis using s0 True unfolding tcb_block_def by (auto simp: hal_sti_def)
next
  case False
  define s' where "s' = hal_sti (upd t (\<lambda>r. r\<lparr>t_accounting := (t_accounting r)\<lparr>wait_time := scheduler_ticks s\<rparr>\<rparr>)
    (upd t (t_state_update (\<lambda>_. TASK_STATE_BLOCKED)) (hal_cli s)))"
  have "tcb_block (Some t) s = Some s'"
    using False invD(5) [OF assms] by (simp add: tcb_block_def s'_def hal_defs)
  moreover have "state_of s' k = (if k = t then TASK_STATE_BLOCKED else state_of s k)" for k
    by (simp add: s'_def state_of_def hal_defs)
  then have "sched_inv s' xs c i"
    using False invD(4,9) [OF assms]
    by (intro inv_change [OF assms]) (simp_all add: queue_states_def, simp_all add: s'_def hal_defs rq_upd)
  ultimately show ?thesis by (auto simp: s'_def state_of_def hal_defs)
qed

lemma unblock_law:
  assumes "sched_inv s xs c i" "t < TCB_MAX_TASKS"
  shows "\<exists>s' xs'. tcb_unblock (Some t) s = Some s' \<and> sched_inv s' xs' c i
    \<and> xs' = (if state_of s t = TASK_STATE_BLOCKED \<and> t \<notin> set xs then xs @ [t] else xs)
    \<and> (\<forall>k. state_of s' k = (if k = t \<and> state_of s t = TASK_STATE_BLOCKED then TASK_STATE_READY else state_of s k))"
proof (cases "state_of s t = TASK_STATE_BLOCKED")
  case False
  then show ?thesis using assms by (simp add: tcb_unblock_def hal_defs)
next
  case True
  define s0 where "s0 = upd t (\<lambda>r. r\<lparr>t_state := TASK_STATE_READY,
                t_time_slice := scheduler_time_slice_for_priority (t_priority r)\<rparr>) (hal_cli s)"
  have st: "state_of s0 k = (if k = t then TASK_STATE_READY else state_of s k)" for k
    by (simp add: s0_def state_of_upd hal_defs)
  have tc: "t \<noteq> c" using assms(1) True by (auto simp: sched_inv_def)
  have inv: "sched_inv s0 xs c i"
  proof (rule inv_change [OF assms(1)])
    show "rq s0 xs" using invD(4) [OF assms(1)] by (simp add: s0_def hal_defs rq_upd)
    show "queue_states s0 xs" using invD(9) [OF assms(1)] st by (simp add: queue_states_def)
  qed (use st tc in \<open>auto simp: s0_def hal_defs\<close>)
  then have r: "rq s0 xs" by (rule invD)
  show ?thesis
  proof (cases "t \<in> set xs")
    case t: True
    then show ?thesis using True inv st in_queue_rq [OF r]
      by (auto simp: tcb_unblock_def s0_def [symmetric] hal_sti_def)
  next
    case f: False
    from rq_append_rq [OF r f assms(2)] obtain s1 where s1: "rq_append t s0 = Some s1" "rq s1 (xs @ [t])" "links_only s0 s1" by blast
    note L = links_onlyD [OF s1(3)]
    have "sched_inv s1 (xs @ [t]) c i"
      using invD(9) [OF inv] st L by (intro inv_change [OF inv s1(2)]) (auto simp: queue_states_def)
    then show ?thesis using True f st L(1) s1(1) in_queue_rq [OF r]
      by (auto simp: tcb_unblock_def s0_def [symmetric] hal_sti_def)
  qed
qed

lemma sleep_law:
  assumes "sched_inv s xs c i" "ms \<noteq> 0"
  shows "\<exists>s' n. tcb_sleep pit_sleep ms s = Some s' \<and> sched_inv s' xs n i \<and> (state_of s' c = TASK_STATE_BLOCKED \<or> c = i)
    \<and> scheduler_ticks s' = scheduler_ticks s
    \<and> sleep_time (t_accounting (task_pool s' c)) = scheduler_ticks s + ucast (sleep_ticks ms)"
proof -
  define f where "f = (\<lambda>r :: tcb. r\<lparr>t_accounting := (t_accounting r)\<lparr>sleep_time := scheduler_ticks s + ucast (sleep_ticks ms)\<rparr>,
                t_state := TASK_STATE_BLOCKED\<rparr>)"
  have e: "tcb_sleep pit_sleep ms s = scheduler_schedule ((upd c f s)\<lparr>int_flag := True\<rparr>)"
    using invD(3,5) [OF assms(1)] assms(2) by (simp add: tcb_sleep_def f_def hal_defs upd_def)
  have f: "t_next (f r) = t_next r" "t_prev (f r) = t_prev r" "t_state (f r) = TASK_STATE_BLOCKED" for r
    by (simp_all add: f_def)
  from block_current_law [OF assms(1) f] e obtain s' n where
    k: "tcb_sleep pit_sleep ms s = Some s'" "sched_inv s' xs n i" "keeps (upd c f s) s'" "n \<noteq> c \<or> n = i"
    "\<forall>k. state_of s' k = (if k = n then TASK_STATE_RUNNING else if k = c then TASK_STATE_BLOCKED else state_of s k)" by metis
  have "scheduler_ticks s' = scheduler_ticks s" "t_accounting (task_pool s' c) = t_accounting (f (task_pool s c))"
    using k(3) by (simp_all add: keeps_def)
  then show ?thesis using k by (intro exI [of _ s'] exI [of _ n]) (auto simp: f_def)
qed

lemma first_hd: "xs \<noteq> [] \<Longrightarrow> first xs n = Some (hd xs)"
  by (cases xs) auto

lemma slice_pos: "0 < scheduler_time_slice_for_priority p"
  by (simp add: scheduler_time_slice_for_priority_def)

lemma remove_eq:
  assumes "rq s (ys @ t # zs)"
  shows "scheduler_remove_task (Some t) s =
    Some (if current_task s = Some t then replace_current (rq_unlink t s) else rq_unlink t s)"
proof -
  obtain x where "runqueue_head s = Some x" using assms by (cases ys) (auto simp: rq_def)
  moreover have "current_task (rq_unlink t s) = current_task s"
    using links_onlyD(5) [OF rq_unlink_rq(2) [OF assms]] .
  ultimately show ?thesis using in_queue_rq [OF assms, of t] by (simp add: scheduler_remove_task_def)
qed

lemma remove_absent:
  assumes "rq s xs" "t \<notin> set xs"
  shows "scheduler_remove_task (Some t) s = Some s"
  using in_queue_rq [OF assms(1), of t] assms(2) by (simp add: scheduler_remove_task_def)

lemma queue_states_sub: "queue_states s xs \<Longrightarrow> set ys \<subseteq> set xs \<Longrightarrow> (\<And>k. k \<in> set ys \<Longrightarrow> state_of s' k = state_of s k \<or>
    state_of s' k = TASK_STATE_RUNNING \<or> state_of s' k = TASK_STATE_READY) \<Longrightarrow> queue_states s' ys"
  unfolding queue_states_def by (metis subsetD task_state.distinct)

text \<open>
  Removing the current task from the queue makes the head of the queue the current and
  running task; the removed task keeps its state.
\<close>

lemma remove_current_parts:
  assumes "rq s (ys @ c # zs)" "current_task s = Some c" "ys @ zs \<noteq> []"
  shows "\<exists>s' h. scheduler_remove_task (Some c) s = Some s' \<and> rq s' (ys @ zs) \<and> current_task s' = Some h \<and> h = hd (ys @ zs)
    \<and> h \<in> set (ys @ zs) \<and> h \<noteq> c \<and> (\<forall>k. state_of s' k = (if k = h then TASK_STATE_RUNNING else state_of s k))
    \<and> keeps s s' \<and> 0 < t_time_slice (task_pool s' h)"
proof -
  define s1 where "s1 = rq_unlink c s"
  have s1: "rq s1 (ys @ zs)" "links_only s s1" using rq_unlink_rq [OF assms(1)] by (simp_all add: s1_def)
  note L = links_onlyD [OF s1(2)]
  define h where "h = hd (ys @ zs)"
  have h: "h \<in> set (ys @ zs)" "runqueue_head s1 = Some h"
    using hd_in_set [OF assms(3)] s1(1) first_hd [OF assms(3)] by (simp_all only: h_def rq_def)
  have hc: "h \<noteq> c" using h(1) assms(1) by (auto simp: rq_def)
  define s2 where "s2 = upd h (\<lambda>r. r\<lparr>t_state := TASK_STATE_RUNNING,
    t_time_slice := scheduler_time_slice_for_priority (t_priority r)\<rparr>) (s1\<lparr>current_task := Some h\<rparr>)"
  have r: "scheduler_remove_task (Some c) s = Some s2"
    using remove_eq [OF assms(1)] assms(2) h(2) by (simp add: replace_current_def s1_def [symmetric] s2_def Let_def)
  have "state_of s2 k = (if k = h then TASK_STATE_RUNNING else state_of s k)" for k
    using L(1) by (simp add: s2_def state_of_def)
  moreover have "keeps s s2" using L by (simp add: keeps_def s2_def)
  moreover have "0 < t_time_slice (task_pool s2 h)" "rq s2 (ys @ zs)" "current_task s2 = Some h"
    using s1(1) by (simp_all add: s2_def slice_pos rq_upd)
  ultimately show ?thesis using r h_def hc h(1) by blast
qed

lemma remove_current_law:
  assumes "sched_inv s (ys @ c # zs) c i" "c \<noteq> i" "st \<noteq> TASK_STATE_RUNNING"
    "\<And>r. t_next (f r) = t_next r" "\<And>r. t_prev (f r) = t_prev r" "\<And>r. t_state (f r) = st"
  shows "\<exists>s' h. scheduler_remove_task (Some c) (upd c f s) = Some s' \<and> sched_inv s' (ys @ zs) h i \<and> h \<noteq> c
    \<and> (\<forall>k. state_of s' k = (if k = h then TASK_STATE_RUNNING else if k = c then st else state_of s k))
    \<and> 0 < t_time_slice (task_pool s' h) \<and> h = hd (ys @ zs)"
proof -
  note D = invD [OF assms(1)]
  define s0 where "s0 = upd c f s"
  have st: "state_of s0 k = (if k = c then st else state_of s k)" for k by (simp add: s0_def state_of_upd assms(6))
  have r: "rq s0 (ys @ c # zs)" using D(4) by (simp add: s0_def rq_upd assms(4,5))
  have "ys @ zs \<noteq> []" using D(8) assms(2) by auto
  from remove_current_parts [OF r _ this] D(5) obtain s' h where
    k: "scheduler_remove_task (Some c) s0 = Some s'" "rq s' (ys @ zs)" "current_task s' = Some h" "h = hd (ys @ zs)"
      "h \<in> set (ys @ zs)" "h \<noteq> c" "\<forall>k. state_of s' k = (if k = h then TASK_STATE_RUNNING else state_of s0 k)"
      "keeps s0 s'" "0 < t_time_slice (task_pool s' h)" by (auto simp: s0_def)
  have cn: "c \<notin> set (ys @ zs)" using r by (auto simp: rq_def)
  have "sched_pre s' (ys @ zs) h i"
  proof (rule preI [OF _ k(2,3,5)])
    show "queue_states s' (ys @ zs)"
      by (rule queue_states_sub [OF D(9)]) (use k(7) st cn in auto)
    show "scheduler_initialized s'" "idle_task s' = Some i" using k(8) D(3,7) by (simp_all add: keeps_def s0_def)
    show "i \<in> set (ys @ zs)" using D(8) assms(2) by auto
    fix k
    assume "k < TCB_MAX_TASKS" "state_of s' k = TASK_STATE_RUNNING"
    then show "k = h" using k(7) st [of k] D(10) [of k] assms(3) by (auto split: if_splits)
  qed
  then have "sched_inv s' (ys @ zs) h i" using k(7) by (simp add: sched_inv_def)
  then show ?thesis using k st unfolding s0_def by auto
qed

lemma exit_law:
  assumes "sched_inv s (ys @ c # zs) c i" "c \<noteq> i"
  shows "\<exists>s' n. tcb_exit s = Some s' \<and> sched_inv s' (ys @ zs) n i \<and> state_of s' c = TASK_STATE_ZOMBIE"
proof -
  note D = invD [OF assms(1)]
  from remove_current_law [OF assms(1,2), of TASK_STATE_ZOMBIE "t_state_update (\<lambda>_. TASK_STATE_ZOMBIE)"] obtain s1 h where
    k: "scheduler_remove_task (Some c) (upd c (t_state_update (\<lambda>_. TASK_STATE_ZOMBIE)) s) = Some s1" "sched_inv s1 (ys @ zs) h i"
      "h \<noteq> c" "\<forall>k. state_of s1 k = (if k = h then TASK_STATE_RUNNING else if k = c then TASK_STATE_ZOMBIE else state_of s k)"
      "0 < t_time_slice (task_pool s1 h)" by auto
  from schedule_keep [OF invD(1,2) [OF k(2)] k(5)] obtain s2 n where
    s2: "scheduler_schedule s1 = Some s2" "scheduled s1 s2 (ys @ zs) h n i" by blast
  have "sched_inv s2 (ys @ zs) n i" using s2(2) by (simp add: scheduled_def)
  moreover have "n \<noteq> c" using invD(6) [OF calculation] D(4) by (auto simp: rq_def)
  then have "state_of s2 c = TASK_STATE_ZOMBIE" using s2(2) k(3,4) by (simp add: scheduled_def)
  moreover have "tcb_exit s = Some s2" using k(1) s2(1) D(5) by (simp add: tcb_exit_def)
  ultimately show ?thesis by blast
qed

lemma free_other:
  assumes "sched_inv s xs c i" "t \<noteq> c" "t \<noteq> i"
  shows "\<exists>s'. tcb_free (Some t) s = Some s' \<and> sched_inv s' (remove1 t xs) c i
    \<and> (\<forall>k. state_of s' k = (if k = t then TASK_STATE_FREE else state_of s k))"
proof -
  note D = invD [OF assms(1)]
  have d: "distinct xs" using D(4) by (simp add: rq_def)
  obtain s1 where s1: "scheduler_remove_task (Some t) s = Some s1" "rq s1 (remove1 t xs)" "links_only s s1"
  proof (cases "t \<in> set xs")
    case True
    then obtain ys zs where xs: "xs = ys @ t # zs" by (auto simp: in_set_conv_decomp)
    then have "remove1 t xs = ys @ zs" using d by (simp add: remove1_append)
    then show ?thesis using that remove_eq [of s ys t zs] rq_unlink_rq [of s ys t zs] D(4,5) assms(2) xs by auto
  next
    case False
    then show ?thesis using that remove_absent [OF D(4) False] D(4) by (simp add: remove1_idem)
  qed
  note L = links_onlyD [OF s1(3)]
  define s2 where "s2 = upd t (\<lambda>r. r\<lparr>t_kernel_stack := 0, t_state := TASK_STATE_FREE, t_tid := TCB_INVALID_TID\<rparr>) s1"
  have st: "state_of s2 k = (if k = t then TASK_STATE_FREE else state_of s k)" for k
    using L(1) by (simp add: s2_def state_of_def)
  have k: "tcb_free (Some t) s = Some s2" using s1(1) D(3,5) L(5) assms(2) by (simp add: tcb_free_def s2_def)
  have "sched_pre s2 (remove1 t xs) c i"
  proof (rule preI)
    show "queue_states s2 (remove1 t xs)" using D(9) d st by (auto simp: queue_states_def)
    show "c \<in> set (remove1 t xs)" "i \<in> set (remove1 t xs)" using D(6,8) d assms(2,3) by auto
    fix k
    assume "k < TCB_MAX_TASKS" "state_of s2 k = TASK_STATE_RUNNING"
    then show "k = c" using st [of k] D(10) [of k] by (simp split: if_splits)
  qed (use L s1(2) D in \<open>simp_all add: s2_def rq_upd\<close>)
  then have "sched_inv s2 (remove1 t xs) c i" using st D(2) assms(2) by (simp add: sched_inv_def)
  then show ?thesis using k st by blast
qed

lemma free_current:
  assumes "sched_inv s (ys @ c # zs) c i" "c \<noteq> i"
  shows "\<exists>s' h. tcb_free (Some c) s = Some s' \<and> sched_inv s' (ys @ zs) h i
    \<and> (\<forall>k. state_of s' k = (if k = c then TASK_STATE_FREE else if k = h then TASK_STATE_RUNNING else state_of s k))"
proof -
  note D = invD [OF assms(1)]
  have ne: "ys @ zs \<noteq> []" using D(8) assms(2) by auto
  from remove_current_parts [OF D(4,5) ne] obtain s1 h where
    k: "scheduler_remove_task (Some c) s = Some s1" "rq s1 (ys @ zs)" "current_task s1 = Some h"
      "h \<in> set (ys @ zs)" "h \<noteq> c" "\<forall>k. state_of s1 k = (if k = h then TASK_STATE_RUNNING else state_of s k)" "keeps s s1" by blast
  define s2 where "s2 = upd c (\<lambda>r. r\<lparr>t_kernel_stack := 0, t_state := TASK_STATE_FREE, t_tid := TCB_INVALID_TID\<rparr>) s1"
  have st: "state_of s2 k = (if k = c then TASK_STATE_FREE else if k = h then TASK_STATE_RUNNING else state_of s k)" for k
    using k(6) by (simp add: s2_def state_of_upd)
  have f: "tcb_free (Some c) s = Some s2" using k(1,3,5) D(3) by (simp add: tcb_free_def s2_def)
  have cn: "c \<notin> set (ys @ zs)" using D(4) by (auto simp: rq_def)
  have "sched_pre s2 (ys @ zs) h i"
  proof (rule preI)
    show "queue_states s2 (ys @ zs)" by (rule queue_states_sub [OF D(9)]) (use st cn in auto)
    show "scheduler_initialized s2" "idle_task s2 = Some i" using k(7) D(3,7) by (simp_all add: s2_def keeps_def)
    show "i \<in> set (ys @ zs)" using D(8) assms(2) by auto
    fix k
    assume "k < TCB_MAX_TASKS" "state_of s2 k = TASK_STATE_RUNNING"
    then show "k = h" using st [of k] D(10) [of k] by (simp split: if_splits)
  qed (use k(2,3,4) in \<open>simp_all add: s2_def rq_upd\<close>)
  then have "sched_inv s2 (ys @ zs) h i" using st k(5) by (simp add: sched_inv_def)
  then show ?thesis using f st by blast
qed

lemma free_law:
  assumes "sched_inv s xs c i" "t \<noteq> i"
  shows "\<exists>s' n. tcb_free (Some t) s = Some s' \<and> sched_inv s' (remove1 t xs) n i \<and> state_of s' t = TASK_STATE_FREE"
proof (cases "t = c")
  case False
  then show ?thesis using free_other [OF assms(1) False assms(2)] by auto
next
  case True
  from inv_split [OF assms(1)] obtain ys zs where xs: "xs = ys @ c # zs" by blast
  have "remove1 c xs = ys @ zs" using invD(4) [OF assms(1)] xs by (simp add: rq_def remove1_append)
  then show ?thesis using free_current [of s ys c zs i] assms xs True by auto
qed

section \<open>Creation of tasks\<close>

lemma rq_upd_notin:
  assumes "t \<notin> set xs"
  shows "rq (upd t f s) xs = rq s xs"
  using seg_upd_other [OF assms] by (simp add: rq_def)

lemma add_task_law:
  assumes "sched_inv s xs c i" "t < TCB_MAX_TASKS" "t \<notin> set xs" "state_of s t = TASK_STATE_READY"
  shows "\<exists>s'. scheduler_add_task (Some t) s = Some s' \<and> sched_inv s' (xs @ [t]) c i \<and> (\<forall>k. state_of s' k = state_of s k)
    \<and> t_context (task_pool s' t) = t_context (task_pool s t)"
proof -
  note D = invD [OF assms(1)]
  define s0 where "s0 = upd t (\<lambda>r. r\<lparr>t_state := TASK_STATE_READY,
                  t_time_slice := (if t_time_slice r = 0 then scheduler_time_slice_for_priority (t_priority r)
                                   else t_time_slice r)\<rparr>) s"
  have st: "state_of s0 k = state_of s k" for k using assms(4) by (simp add: s0_def state_of_upd)
  have "rq s0 xs" using D(4) by (simp add: s0_def rq_upd)
  from rq_append_rq [OF this assms(3,2)] obtain s1 where s1: "rq_append t s0 = Some s1" "rq s1 (xs @ [t])" "links_only s0 s1" by blast
  note L = links_onlyD [OF s1(3)]
  have "current_task s1 = Some c" using L(5) D(5) by (simp add: s0_def)
  then have "scheduler_add_task (Some t) s = Some s1"
    using assms(3,4) in_queue_rq [OF D(4), of t] s1(1) by (simp add: scheduler_add_task_def s0_def)
  moreover have "queue_states s1 (xs @ [t])" using D(9) L(1) st assms(4) by (simp add: queue_states_def)
  then have "sched_inv s1 (xs @ [t]) c i"
    using L st by (intro inv_change [OF assms(1) s1(2)]) (simp_all add: s0_def, auto)
  moreover have "core (task_pool s1 t) = core (task_pool s0 t)" using s1(3) by (simp add: links_only_def)
  then have "t_context (task_pool s1 t) = t_context (task_pool s t)"
    by (auto simp: core_def s0_def dest: arg_cong [of _ _ t_context])
  ultimately show ?thesis using L(1) st by auto
qed

lemma upd_upd [simp]: "upd t g (upd t f s) = upd t (\<lambda>r. g (f r)) s"
  by (simp add: upd_def)

lemma upd_id: "upd t (\<lambda>r. r) s = s"
  by (simp add: upd_def)

lemma setup_context_law:
  assumes "heap_inv kh h"
  shows "\<exists>s' h' g. tcb_setup_context kh tramp (Some t) entry arg s h = Some (s', h') \<and> heap_inv kh h' \<and> s' = upd t g s
    \<and> (state_of s t = TASK_STATE_READY \<longrightarrow> t_state (g (task_pool s t)) = TASK_STATE_READY)"
proof -
  have set: "\<exists>g. set_context tramp entry arg t s1 = upd t g s1 \<and> t_state (g (task_pool s1 t)) = TASK_STATE_READY" for s1
    unfolding set_context_def Let_def by (rule exI, rule conjI, rule refl) simp
  have ok: "kmalloc_ok TCB_STACK_SIZE" by (simp add: kmalloc_ok_def)
  consider "entry = 0" | "entry \<noteq> 0" "t_kernel_stack (task_pool s t) \<noteq> 0" | "entry \<noteq> 0" "t_kernel_stack (task_pool s t) = 0" by blast
  then show ?thesis
  proof cases
    case 1
    have "s = upd t (\<lambda>r. r) s" by (simp add: upd_id)
    then show ?thesis using 1 assms by (force simp: tcb_setup_context_def state_of_def)
  next
    case 2
    then show ?thesis using set [of s] assms by (auto simp: tcb_setup_context_def)
  next
    case 3
    from kheap.alloc_law [OF assms ok] obtain p h1 where k: "kmalloc kh TCB_STACK_SIZE h = Some (p, h1)" by blast
    show ?thesis using kheap.alloc_cases [OF assms ok k]
    proof cases
      case 1
      have "s = upd t (\<lambda>r. r) s" by (simp add: upd_id)
      then show ?thesis using 1 3 k assms by (force simp: tcb_setup_context_def state_of_def)
    next
      case (2 sz)
      define s1 where "s1 = upd t (\<lambda>r. r\<lparr>t_kernel_stack := p, t_stack_size := TCB_STACK_SIZE\<rparr>) s"
      have lv: "live kh h1 p = Some sz" using 2 by simp
      have "set_bytes (kmem h1) p 0 (unat TCB_STACK_SIZE) x = kmem h1 x" if "sz \<le> unat (x - p)" for x
        using 2(4) that by (simp add: set_bytes_at)
      from heap_store(1) [OF 2(2) lv this] have hi: "heap_inv kh (h1\<lparr>kmem := set_bytes (kmem h1) p 0 (unat TCB_STACK_SIZE)\<rparr>)" .
      from set [of s1] obtain g where g: "set_context tramp entry arg t s1 = upd t g s1" "t_state (g (task_pool s1 t)) = TASK_STATE_READY" by blast
      have "tcb_setup_context kh tramp (Some t) entry arg s h =
          Some (upd t g s1, h1\<lparr>kmem := set_bytes (kmem h1) p 0 (unat TCB_STACK_SIZE)\<rparr>)"
        using 3 k 2(1) g(1) by (simp add: tcb_setup_context_def s1_def)
      then show ?thesis using hi g(2) by (auto simp: s1_def)
    qed
  qed
qed

lemma prepare_law:
  assumes "heap_inv kh h" "state_of s t = TASK_STATE_READY"
  shows "\<exists>s' h' g. tcb_prepare kh tramp entry arg name priority t s h = Some (s', h') \<and> heap_inv kh h' \<and> s' = upd t g s
    \<and> t_state (g (task_pool s t)) = TASK_STATE_READY"
proof -
  define f where "f = (\<lambda>r :: tcb. r\<lparr>t_name := (if name \<noteq> None then str_copy (t_name r) name 32 else (t_name r)[0 := 0]),
                            t_priority := priority, t_base_priority := priority\<rparr>)"
  define s1 where "s1 = upd t f s"
  have f: "t_state (f (task_pool s t)) = TASK_STATE_READY" using assms(2) by (simp add: f_def state_of_def)
  then have "state_of s1 t = TASK_STATE_READY" by (simp add: s1_def state_of_def)
  with setup_context_law [OF assms(1), of tramp t entry arg s1] obtain s' h' g where
    "tcb_setup_context kh tramp (Some t) entry arg s1 h = Some (s', h')" "heap_inv kh h'" "s' = upd t g s1"
    "t_state (g (task_pool s1 t)) = TASK_STATE_READY" by blast
  then show ?thesis by (auto simp: tcb_prepare_def s1_def f_def)
qed

lemma create_law:
  assumes "sched_inv s xs c i" "heap_inv kh h"
  shows "\<exists>r s' h'. tcb_create kh tramp entry arg name priority s h = Some (r, s', h') \<and> heap_inv kh h' \<and>
    (r = None \<and> s' = s \<and> h' = h \<and> (\<forall>k<TCB_MAX_TASKS. state_of s k \<noteq> TASK_STATE_FREE)
     \<or> (\<exists>t<TCB_MAX_TASKS. r = Some t \<and> state_of s t = TASK_STATE_FREE \<and> sched_inv s' (xs @ [t]) c i
          \<and> (\<forall>k. state_of s' k = (if k = t then TASK_STATE_READY else state_of s k))))"
proof (cases "find (\<lambda>i. state_of s i = TASK_STATE_FREE) [0..<TCB_MAX_TASKS]")
  case None
  then have "\<forall>k<TCB_MAX_TASKS. state_of s k \<noteq> TASK_STATE_FREE" by (auto simp: find_None_iff)
  then show ?thesis using None assms(2) by (simp add: tcb_create_def tcb_allocate_def)
next
  case (Some t)
  note D = invD [OF assms(1)]
  have t: "t < TCB_MAX_TASKS" "state_of s t = TASK_STATE_FREE" using find_SomeD [OF Some] by auto
  have tx: "t \<notin> set xs" using D(9) t(2) by (auto simp: queue_states_def)
  define s1 where "s1 = (upd t (fresh_tcb (next_tid s) (scheduler_ticks s)) s)\<lparr>next_tid := next_tid s + 1\<rparr>"
  have st1: "state_of s1 k = (if k = t then TASK_STATE_READY else state_of s k)" for k
    by (simp add: s1_def state_of_def fresh_tcb_def)
  from prepare_law [OF assms(2), of s1 t tramp entry arg name priority] st1 [of t] obtain s2 h2 g where
    k: "tcb_prepare kh tramp entry arg name priority t s1 h = Some (s2, h2)" "heap_inv kh h2" "s2 = upd t g s1"
      "t_state (g (task_pool s1 t)) = TASK_STATE_READY" by auto
  have st2: "state_of s2 k = (if k = t then TASK_STATE_READY else state_of s k)" for k
    using k(3,4) st1 by (simp add: state_of_upd)
  have tc: "t \<noteq> c" using D(2) t(2) by auto
  have "sched_inv s2 xs c i"
  proof (rule inv_change [OF assms(1)])
    show "rq s2 xs" using D(4) tx by (simp add: k(3) s1_def rq_upd_notin)
    show "queue_states s2 xs" using D(9) tx st2 by (auto simp: queue_states_def)
  qed (use st2 tc in \<open>auto simp: k(3) s1_def\<close>)
  from add_task_law [OF this t(1) tx] st2 obtain s3 where
    s3: "scheduler_add_task (Some t) s2 = Some s3" "sched_inv s3 (xs @ [t]) c i" "\<forall>k. state_of s3 k = state_of s2 k" by auto
  have "scheduler_initialized s2" using D(3) by (simp add: k(3) s1_def)
  then have "tcb_create kh tramp entry arg name priority s h = Some (Some t, s3, h2)"
    using Some k(1) s3(1) by (simp add: tcb_create_def tcb_allocate_def s1_def)
  then show ?thesis using k(2) t s3 st2 by auto
qed

section \<open>Ticks and sleeping tasks\<close>

definition due :: "sched \<Rightarrow> nat \<Rightarrow> bool" where
  "due s k \<longleftrightarrow> state_of s k = TASK_STATE_BLOCKED \<and> sleep_time (t_accounting (task_pool s k)) \<noteq> 0
     \<and> sleep_time (t_accounting (task_pool s k)) \<le> scheduler_ticks s"

definition wakes :: "sched \<Rightarrow> sched \<Rightarrow> nat set \<Rightarrow> bool" where
  "wakes s s' ks \<longleftrightarrow> scheduler_ticks s' = scheduler_ticks s
     \<and> (\<forall>j. state_of s' j = (if j \<in> ks \<and> due s j then TASK_STATE_READY else state_of s j))
     \<and> (\<forall>j. j \<notin> ks \<or> \<not> due s j \<longrightarrow> t_accounting (task_pool s' j) = t_accounting (task_pool s j))"

lemma wake_sleeper_law:
  assumes "sched_inv s xs c i" "k < TCB_MAX_TASKS"
  shows "\<exists>s' xs'. wake_sleeper k s = Some s' \<and> sched_inv s' xs' c i \<and> wakes s s' {k}
    \<and> set xs' = (if due s k then insert k (set xs) else set xs)"
proof (cases "due s k")
  case False
  then show ?thesis using assms by (auto simp: wake_sleeper_def due_def wakes_def state_of_def Let_def)
next
  case True
  note D = invD [OF assms(1)]
  define s0 where "s0 = upd k (\<lambda>r. r\<lparr>t_accounting := (t_accounting r)\<lparr>sleep_time := 0, wait_time := 0\<rparr>,
            t_state := TASK_STATE_READY, t_time_slice := scheduler_time_slice_for_priority (t_priority r)\<rparr>) s"
  have w: "wake_sleeper k s = do { queued \<leftarrow> in_queue (task_pool s0) (runqueue_head s0) k; if queued then Some s0 else rq_append k s0 }"
    using True unfolding wake_sleeper_def s0_def Let_def by (simp add: due_def state_of_def)
  have st: "state_of s0 j = (if j = k then TASK_STATE_READY else state_of s j)" for j
    by (simp add: s0_def state_of_upd)
  have wk: "wakes s s0 {k}" using True by (auto simp: wakes_def s0_def state_of_upd)
  have kc: "k \<noteq> c" using True D(2) by (auto simp: due_def)
  have inv: "sched_inv s0 xs c i"
  proof (rule inv_change [OF assms(1)])
    show "rq s0 xs" using D(4) by (simp add: s0_def rq_upd)
    show "queue_states s0 xs" using D(9) st by (simp add: queue_states_def)
  qed (use st kc in \<open>auto simp: s0_def\<close>)
  note r = invD(4) [OF inv]
  show ?thesis
  proof (cases "k \<in> set xs")
    case t: True
    then have "wake_sleeper k s = Some s0" using w in_queue_rq [OF r] by simp
    then show ?thesis using inv wk t True by auto
  next
    case f: False
    from rq_append_rq [OF r f assms(2)] obtain s1 where s1: "rq_append k s0 = Some s1" "rq s1 (xs @ [k])" "links_only s0 s1" by blast
    note L = links_onlyD [OF s1(3)]
    have "wake_sleeper k s = Some s1" using w in_queue_rq [OF r] f s1(1) by simp
    moreover have "sched_inv s1 (xs @ [k]) c i"
      using invD(9) [OF inv] st L by (intro inv_change [OF inv s1(2)]) (auto simp: queue_states_def)
    moreover have "wakes s s1 {k}" using wk L by (simp add: wakes_def)
    ultimately show ?thesis using True by (intro exI [of _ s1] exI [of _ "xs @ [k]"]) auto
  qed
qed

lemma wake_sleepers_law:
  assumes "sched_inv s xs c i" "\<forall>k\<in>set ks. k < TCB_MAX_TASKS" "distinct ks"
  shows "\<exists>s' xs'. wake_sleepers ks s = Some s' \<and> sched_inv s' xs' c i \<and> wakes s s' (set ks)
    \<and> set xs' = set xs \<union> {k \<in> set ks. due s k}"
  using assms
proof (induction ks arbitrary: s xs)
  case Nil
  then show ?case by (auto simp: wakes_def)
next
  case (Cons k ks)
  from wake_sleeper_law [OF Cons.prems(1), of k] Cons.prems(2) obtain s1 xs1 where
    k1: "wake_sleeper k s = Some s1" "sched_inv s1 xs1 c i" "wakes s s1 {k}"
      "set xs1 = (if due s k then insert k (set xs) else set xs)" by auto
  from Cons.IH [OF k1(2)] Cons.prems obtain s2 xs2 where
    k2: "wake_sleepers ks s1 = Some s2" "sched_inv s2 xs2 c i" "wakes s1 s2 (set ks)"
      "set xs2 = set xs1 \<union> {k \<in> set ks. due s1 k}" by auto
  have d1: "due s1 j = due s j" if "j \<noteq> k" for j
    using k1(3) that by (simp add: due_def wakes_def)
  have kn: "k \<notin> set ks" using Cons.prems(3) by simp
  have w: "wakes s s2 (set (k # ks))"
    unfolding wakes_def
  proof (intro conjI allI impI)
    show "scheduler_ticks s2 = scheduler_ticks s" using k1(3) k2(3) by (simp add: wakes_def)
    fix j
    show "state_of s2 j = (if j \<in> set (k # ks) \<and> due s j then TASK_STATE_READY else state_of s j)"
      using k1(3) k2(3) kn d1 [of j] by (cases "j = k") (simp_all add: wakes_def)
    assume "j \<notin> set (k # ks) \<or> \<not> due s j"
    then show "t_accounting (task_pool s2 j) = t_accounting (task_pool s j)"
      using k1(3) k2(3) kn d1 [of j] by (cases "j = k") (auto simp: wakes_def)
  qed
  have "set xs2 = set xs \<union> {j \<in> set (k # ks). due s j}" proof -
    have "{j \<in> set ks. due s1 j} = {j \<in> set ks. due s j}" using d1 kn by metis
    then show ?thesis using k1(4) k2(4) by auto
  qed
  then show ?case using k1(1) k2(1,2) w by auto
qed

lemma tick_law:
  assumes "sched_inv s xs c i"
  defines "s1 \<equiv> s\<lparr>scheduler_ticks := scheduler_ticks s + 1\<rparr>"
  shows "\<exists>s' xs'. scheduler_tick s = Some s' \<and> sched_inv s' xs' c i \<and> scheduler_ticks s' = scheduler_ticks s + 1
    \<and> (\<forall>j<TCB_MAX_TASKS. state_of s' j = (if due s1 j then TASK_STATE_READY else state_of s j))
    \<and> (\<forall>j<TCB_MAX_TASKS. \<not> due s1 j \<longrightarrow> sleep_time (t_accounting (task_pool s' j)) = sleep_time (t_accounting (task_pool s j)))
    \<and> set xs' = set xs \<union> {j. j < TCB_MAX_TASKS \<and> due s1 j}"
proof -
  note D = invD [OF assms(1)]
  define s2 where "s2 = upd c (\<lambda>r. r\<lparr>t_accounting := (t_accounting r)\<lparr>total_run_time := total_run_time (t_accounting r) + 1\<rparr>,
                t_time_slice := (if t_state r = TASK_STATE_RUNNING \<and> 0 < t_time_slice r then t_time_slice r - 1
                                 else t_time_slice r)\<rparr>) s1"
  have e: "scheduler_tick s = wake_sleepers [0..<TCB_MAX_TASKS] s2"
    using D(3,5) by (simp add: scheduler_tick_def s2_def s1_def Let_def)
  have st: "state_of s2 j = state_of s j" for j by (simp add: s2_def s1_def state_of_def)
  have dd: "due s2 j = due s1 j" for j by (simp add: due_def s2_def state_of_def)
  have "sched_inv s2 xs c i" using assms(1) by (simp add: s2_def s1_def inv_upd)
  from wake_sleepers_law [OF this, of "[0..<TCB_MAX_TASKS]"] obtain s' xs' where
    k: "wake_sleepers [0..<TCB_MAX_TASKS] s2 = Some s'" "sched_inv s' xs' c i" "wakes s2 s' (set [0..<TCB_MAX_TASKS])"
      "set xs' = set xs \<union> {k \<in> set [0..<TCB_MAX_TASKS]. due s2 k}" by auto
  have "sleep_time (t_accounting (task_pool s' j)) = sleep_time (t_accounting (task_pool s j))" if "\<not> due s1 j" for j
    using k(3) that dd by (simp add: wakes_def) (simp add: s2_def s1_def)
  moreover have "scheduler_ticks s' = scheduler_ticks s + 1" using k(3) by (simp add: wakes_def s2_def s1_def)
  ultimately show ?thesis using e k st dd by (auto simp: wakes_def)
qed

section \<open>Initialisation\<close>

lemma init_law:
  assumes "\<not> scheduler_initialized s" "heap_inv kh h"
  shows "\<exists>s' h'. scheduler_init kh tramp entry s h = Some (s', h') \<and> heap_inv kh h' \<and> sched_inv s' [0] 0 0
    \<and> (\<forall>k<TCB_MAX_TASKS. k \<noteq> 0 \<longrightarrow> state_of s' k = TASK_STATE_FREE)"
proof -
  define s0 where "s0 = (tcb_init s)\<lparr>runqueue_head := None, runqueue_tail := None, current_task := None, scheduler_ticks := 0,
                  scheduler_initialized := True\<rparr>"
  have fr: "state_of s0 k = TASK_STATE_FREE" if "k < TCB_MAX_TASKS" for k
    using that by (simp add: s0_def tcb_init_def state_of_def)
  have "find (\<lambda>i. state_of s0 i = TASK_STATE_FREE) [0..<TCB_MAX_TASKS] = Some 0"
    using fr [of 0] by (simp add: upt_conv_Cons)
  then have al: "tcb_allocate s0 = (Some 0, (upd 0 (fresh_tcb (next_tid s0) (scheduler_ticks s0)) s0)\<lparr>next_tid := next_tid s0 + 1\<rparr>)"
    by (simp add: tcb_allocate_def)
  define s1 where "s1 = (upd 0 (fresh_tcb (next_tid s0) (scheduler_ticks s0)) s0)\<lparr>next_tid := next_tid s0 + 1\<rparr>"
  have st1: "state_of s1 0 = TASK_STATE_READY" by (simp add: s1_def state_of_def fresh_tcb_def)
  from prepare_law [OF assms(2) st1, of tramp entry 0 "Some [0x69, 0x64, 0x6C, 0x65]" TASK_PRIORITY_IDLE] obtain s2 h2 g where
    k: "tcb_prepare kh tramp entry 0 (Some [0x69, 0x64, 0x6C, 0x65]) TASK_PRIORITY_IDLE 0 s1 h = Some (s2, h2)"
      "heap_inv kh h2" "s2 = upd 0 g s1" "t_state (g (task_pool s1 0)) = TASK_STATE_READY" by blast
  have s2: "runqueue_head s2 = None" "runqueue_tail s2 = None" "current_task s2 = None" "scheduler_initialized s2"
    by (simp_all add: k(3) s1_def s0_def)
  have st2: "state_of s2 j = (if j = 0 then TASK_STATE_READY else state_of s0 j)" for j
    using k(4) by (simp add: k(3) state_of_upd) (simp add: s1_def state_of_def)
  define s3 where "s3 = upd 0 (\<lambda>r. r\<lparr>t_time_slice := (if t_time_slice r = 0 then scheduler_time_slice_for_priority (t_priority r)
                                   else t_time_slice r), t_next := None, t_prev := None, t_state := TASK_STATE_RUNNING\<rparr>) (s2\<lparr>runqueue_head := Some 0, runqueue_tail := Some 0, current_task := Some 0\<rparr>)"
  have add: "scheduler_add_task (Some 0) s2 = Some s3"
    using s2 st2 [of 0]
    by (simp add: scheduler_add_task_def in_queue_simps rq_append_def Let_def s3_def upd_def)
  define s4 where "s4 = s3\<lparr>idle_task := Some 0\<rparr>"
  have "scheduler_init kh tramp entry s h = Some (s4, h2)"
    using assms(1) al k(1) add s2(4)
    by (simp add: scheduler_init_def s0_def [symmetric] tcb_create_def s1_def [symmetric] s4_def Let_def) (simp add: s3_def)
  moreover have st4: "state_of s4 j = (if j = 0 then TASK_STATE_RUNNING else state_of s0 j)" for j
    using st2 [of j] by (simp add: s4_def s3_def state_of_def)
  have "sched_pre s4 [0] 0 0"
  proof (rule preI)
    fix k
    assume "k < TCB_MAX_TASKS" "state_of s4 k = TASK_STATE_RUNNING"
    then show "k = 0" using st4 [of k] fr [of k] by (simp split: if_splits)
  next
    show "queue_states s4 [0]" by (simp add: queue_states_def st4)
  qed (use s2(4) in \<open>simp_all add: s4_def s3_def rq_def\<close>)
  then have "sched_inv s4 [0] 0 0" by (simp add: sched_inv_def st4)
  moreover have "\<forall>k<TCB_MAX_TASKS. k \<noteq> 0 \<longrightarrow> state_of s4 k = TASK_STATE_FREE" using st4 fr by simp
  ultimately show ?thesis using k(2) by blast
qed

section \<open>Reachable states\<close>

lemma add_task_any:
  assumes inv: "sched_inv s xs c i" and "t < TCB_MAX_TASKS"
  shows "\<exists>s' xs'. scheduler_add_task (Some t) s = Some s' \<and> sched_inv s' xs' c i"
proof -
  note D = invD [OF inv]
  consider "state_of s t = TASK_STATE_FREE" | "t \<in> set xs" | "state_of s t \<noteq> TASK_STATE_FREE" "t \<notin> set xs" by blast
  then show ?thesis
  proof cases
    case 3
    define s0 where "s0 = upd t (t_state_update (\<lambda>_. TASK_STATE_READY)) s"
    have "sched_inv s0 xs c i"
      using 3(2) D by (intro inv_change [OF inv]) (auto simp: s0_def rq_upd queue_states_def state_of_upd)
    moreover have "state_of s0 t = TASK_STATE_READY" by (simp add: s0_def state_of_upd)
    moreover have "scheduler_add_task (Some t) s0 = scheduler_add_task (Some t) s"
      using in_queue_rq [OF invD(4) [OF calculation(1)], of t] in_queue_rq [OF D(4), of t] 3
      by (simp add: scheduler_add_task_def s0_def state_of_def cong: if_cong)
    ultimately show ?thesis using add_task_law [of s0 xs c i t] 3(2) assms(2) by metis
  qed (use inv in_queue_rq [OF D(4), of t] in \<open>auto simp: scheduler_add_task_def\<close>)
qed

lemma remove_other_law:
  assumes inv: "sched_inv s xs c i" and "t \<noteq> c" "t \<noteq> i"
  shows "\<exists>s'. scheduler_remove_task (Some t) s = Some s' \<and> sched_inv s' (remove1 t xs) c i"
proof (cases "t \<in> set xs")
  case True
  note D = invD [OF inv]
  obtain ys zs where xs: "xs = ys @ t # zs" using True by (auto simp: in_set_conv_decomp)
  have r: "remove1 t xs = ys @ zs" using D(4) xs by (simp add: rq_def remove1_append)
  note u = rq_unlink_rq [OF D(4) [unfolded xs]]
  note L = links_onlyD [OF u(2)]
  have "sched_pre (rq_unlink t s) (ys @ zs) c i"
  proof (rule preI [OF _ u(1)])
    show "queue_states (rq_unlink t s) (ys @ zs)" using D(9) xs L(1) by (simp add: queue_states_def)
    show "c \<in> set (ys @ zs)" "i \<in> set (ys @ zs)" using D(6,8) xs assms(2,3) by auto
    show "k = c" if "k < TCB_MAX_TASKS" "state_of (rq_unlink t s) k = TASK_STATE_RUNNING" for k
      using that L(1) D(10) by simp
  qed (use L D in simp_all)
  then have "sched_inv (rq_unlink t s) (ys @ zs) c i" using L(1) D(2) by (simp add: sched_inv_def)
  then show ?thesis using remove_eq [OF D(4) [unfolded xs]] D(5) assms(2) r by simp
next
  case False
  then show ?thesis using remove_absent [OF invD(4) [OF inv]] inv by (simp add: remove1_idem)
qed

lemma schedule_law:
  assumes "sched_inv s xs c i"
  shows "\<exists>s' xs' n. scheduler_schedule s = Some s' \<and> sched_inv s' xs' n i"
proof -
  from inv_split [OF assms] obtain ys zs where xs: "xs = ys @ c # zs" by blast
  note D = invD [OF assms]
  show ?thesis
    using schedule_keep [OF D(1,2)] schedule_rotate [OF D(1) [unfolded xs] D(2)]
    by (cases "t_time_slice (task_pool s c) = 0") (auto simp: word_gt_0 scheduled_def)
qed

lemma set_state_law:
  assumes inv: "sched_inv s xs c i" and "t \<noteq> c" "st \<in> {TASK_STATE_READY, TASK_STATE_BLOCKED}"
  shows "sched_inv (tcb_set_state (Some t) st s) xs c i"
  using invD [OF inv] assms(2,3)
  by (intro inv_change [OF inv]) (auto simp: tcb_set_state_def rq_upd queue_states_def state_of_upd)

lemma start_law:
  assumes "sched_inv s xs c i"
  shows "sched_inv (scheduler_start s) xs c i"
proof -
  note D = invD [OF assms]
  have "(task_pool s c)\<lparr>t_state := TASK_STATE_RUNNING\<rparr> = task_pool s c"
    using D(2) unfolding state_of_def by (cases "task_pool s c") simp
  then have "upd c (t_state_update (\<lambda>_. TASK_STATE_RUNNING)) s = s" by (simp add: upd_def)
  then show ?thesis using D(3,5) assms by (simp add: scheduler_start_def hal_sti_def)
qed

text \<open>
  The states the kernel can reach from \<open>scheduler_init\<close> by the operations of \<open>tcb.c\<close>, at
  the preemption points between them. The idle task does not exit, is not freed and is not taken off the
  queue; only \<open>tcb_exit\<close> takes the current task off it; and \<open>tcb_set_state\<close>
  makes a task other than the current one ready or blocked. So the calls of \<open>tcb_set_state\<close> in
  \<open>ipc.c\<close> and \<open>syscall.c\<close> that block or end the task that is running, and go on
  running it without scheduling, lie outside: after them no task is in the running state.
\<close>

inductive sched_reach :: "u32 \<Rightarrow> u32 \<Rightarrow> sched \<Rightarrow> kheap \<Rightarrow> bool" for kh tramp where
  init: "\<not> scheduler_initialized s \<Longrightarrow> heap_inv kh h \<Longrightarrow> scheduler_init kh tramp entry s h = Some (s', h') \<Longrightarrow>
    sched_reach kh tramp s' h'"
| create: "sched_reach kh tramp s h \<Longrightarrow> tcb_create kh tramp entry arg name prio s h = Some (r, s', h') \<Longrightarrow>
    sched_reach kh tramp s' h'"
| tick: "sched_reach kh tramp s h \<Longrightarrow> scheduler_tick s = Some s' \<Longrightarrow> sched_reach kh tramp s' h"
| yield: "sched_reach kh tramp s h \<Longrightarrow> tcb_yield s = Some s' \<Longrightarrow> sched_reach kh tramp s' h"
| block: "sched_reach kh tramp s h \<Longrightarrow> tcb_block (Some t) s = Some s' \<Longrightarrow> sched_reach kh tramp s' h"
| unblock: "sched_reach kh tramp s h \<Longrightarrow> t < TCB_MAX_TASKS \<Longrightarrow> tcb_unblock (Some t) s = Some s' \<Longrightarrow> sched_reach kh tramp s' h"
| sleep: "sched_reach kh tramp s h \<Longrightarrow> ms \<noteq> 0 \<Longrightarrow> tcb_sleep pit_sleep ms s = Some s' \<Longrightarrow> sched_reach kh tramp s' h"
| exit: "sched_reach kh tramp s h \<Longrightarrow> current_task s \<noteq> idle_task s \<Longrightarrow> tcb_exit s = Some s' \<Longrightarrow> sched_reach kh tramp s' h"
| free: "sched_reach kh tramp s h \<Longrightarrow> Some t \<noteq> idle_task s \<Longrightarrow> tcb_free (Some t) s = Some s' \<Longrightarrow> sched_reach kh tramp s' h"
| priority: "sched_reach kh tramp s h \<Longrightarrow> sched_reach kh tramp (tcb_set_priority (Some t) prio s) h"
| start_op: "sched_reach kh tramp s h \<Longrightarrow> sched_reach kh tramp (scheduler_start s) h"
| schedule_op: "sched_reach kh tramp s h \<Longrightarrow> scheduler_schedule s = Some s' \<Longrightarrow> sched_reach kh tramp s' h"
| add_op: "sched_reach kh tramp s h \<Longrightarrow> t < TCB_MAX_TASKS \<Longrightarrow> scheduler_add_task (Some t) s = Some s' \<Longrightarrow> sched_reach kh tramp s' h"
| remove_op: "sched_reach kh tramp s h \<Longrightarrow> Some t \<noteq> current_task s \<Longrightarrow> Some t \<noteq> idle_task s \<Longrightarrow>
    scheduler_remove_task (Some t) s = Some s' \<Longrightarrow> sched_reach kh tramp s' h"
| set_state_op: "sched_reach kh tramp s h \<Longrightarrow> Some t \<noteq> current_task s \<Longrightarrow> st \<in> {TASK_STATE_READY, TASK_STATE_BLOCKED} \<Longrightarrow>
    sched_reach kh tramp (tcb_set_state (Some t) st s) h"

lemma sched_reach_inv:
  "sched_reach kh tramp s h \<Longrightarrow> heap_inv kh h \<and> (\<exists>xs c i. sched_inv s xs c i)"
proof (induction rule: sched_reach.induct)
  case (init s h entry s' h')
  then show ?case using init_law [OF init(1,2), of tramp entry] by auto
next
  case (create s h entry arg name prio r s' h')
  then obtain xs c i where inv: "sched_inv s xs c i" and h: "heap_inv kh h" by blast
  from create_law [OF inv h, of tramp entry arg name prio] create(2) inv show ?case by auto
next
  case (tick s h s')
  then show ?case using tick_law by (metis option.inject)
next
  case (yield s h s')
  then obtain ys zs c i where "sched_inv s (ys @ c # zs) c i" using inv_split by blast
  from yield_law [OF this] yield show ?case by (auto simp: scheduled_def)
next
  case (block s h t s')
  then show ?case using block_law by (metis option.inject)
next
  case (unblock s h t s')
  then show ?case using unblock_law by (metis option.inject)
next
  case (sleep s h ms pit_sleep s')
  then show ?case using sleep_law by (metis option.inject)
next
  case (exit s h s')
  then obtain ys zs c i where inv: "sched_inv s (ys @ c # zs) c i" using inv_split by blast
  moreover from this have "c \<noteq> i" using exit(2) invD(5,7) by force
  ultimately show ?case using exit_law exit by (metis option.inject)
next
  case (free s h t s')
  then obtain xs c i where inv: "sched_inv s xs c i" by blast
  moreover from this have "t \<noteq> i" using free(2) invD(7) by force
  ultimately show ?case using free_law free by (metis option.inject)
next
  case (priority s h t prio)
  then show ?case by (auto simp: tcb_set_priority_def Let_def inv_upd)
next
  case (start_op s h)
  then show ?case using start_law by blast
next
  case (schedule_op s h s')
  then show ?case using schedule_law by (metis option.inject)
next
  case (add_op s h t s')
  then show ?case using add_task_any by (metis option.inject)
next
  case (remove_op s h t s')
  then obtain xs c i where inv: "sched_inv s xs c i" by blast
  moreover from this have "t \<noteq> c" "t \<noteq> i" using remove_op(2,3) invD(5,7) by force+
  ultimately show ?case using remove_other_law remove_op by (metis option.inject)
next
  case (set_state_op s h t st)
  then obtain xs c i where inv: "sched_inv s xs c i" by blast
  moreover from this have "t \<noteq> c" using set_state_op(2) invD(5) by force
  ultimately show ?case using set_state_law set_state_op by blast
qed

text \<open>C14. In every state reached from \<open>scheduler_init\<close> by creating, exiting, freeing, sleeping,
  blocking, unblocking, yielding, ticking, scheduling, starting the scheduler, changing priorities, adding
  any task to the queue, removing from it, or making ready or blocked, a task other than the current one (and
  the idle task neither ended nor removed), the run queue is a well-formed doubly linked list of distinct tasks, none
  of them free or a zombie; the current task is in it and is the only task in the running state; and
  ticks, yields, blocking and scheduling return. Setting the state of the current task directly, as
  \<open>ipc.c\<close> and \<open>syscall.c\<close> do, is not among these operations.\<close>

theorem sched_reach_sound:
  assumes "sched_reach kh tramp s h"
  shows "\<exists>xs c. rq s xs \<and> current_task s = Some c \<and> c \<in> set xs
    \<and> (\<forall>k<TCB_MAX_TASKS. state_of s k = TASK_STATE_RUNNING \<longleftrightarrow> k = c)
    \<and> (\<forall>x\<in>set xs. state_of s x \<noteq> TASK_STATE_FREE \<and> state_of s x \<noteq> TASK_STATE_ZOMBIE)
    \<and> (\<exists>s'. scheduler_tick s = Some s') \<and> (\<exists>s'. tcb_yield s = Some s') \<and> (\<forall>t. \<exists>s'. tcb_block (Some t) s = Some s')
    \<and> (\<exists>s'. scheduler_schedule s = Some s')"
proof -
  from sched_reach_inv [OF assms] obtain xs c i where inv: "sched_inv s xs c i" by blast
  from inv_split [OF inv] obtain ys zs where xs: "xs = ys @ c # zs" by blast
  note D = invD [OF inv]
  have "\<exists>s'. scheduler_schedule s = Some s'"
    using schedule_keep [OF D(1,2)] schedule_rotate [OF D(1) [unfolded xs] D(2)]
    by (cases "t_time_slice (task_pool s c) = 0") (auto simp: word_gt_0)
  moreover have "\<exists>s'. tcb_yield s = Some s'" using yield_law [OF inv [unfolded xs]] by blast
  moreover have "\<exists>s'. tcb_block (Some t) s = Some s'" for t using block_law [OF inv, of t] by blast
  moreover have "\<exists>s'. scheduler_tick s = Some s'" using tick_law [OF inv] by blast
  moreover have "state_of s k = TASK_STATE_RUNNING \<longleftrightarrow> k = c" if "k < TCB_MAX_TASKS" for k using D(2) D(10) [OF that] by blast
  ultimately show ?thesis using D(4,5,6,9) unfolding queue_states_def by blast
qed

section \<open>Fairness\<close>

fun yields :: "nat \<Rightarrow> sched \<Rightarrow> sched option" where
  "yields 0 s = Some s"
| "yields (Suc n) s = do { s \<leftarrow> tcb_yield s; yields n s }"

definition active :: "sched \<Rightarrow> nat \<Rightarrow> bool" where
  "active s k \<longleftrightarrow> state_of s k = TASK_STATE_READY \<or> state_of s k = TASK_STATE_RUNNING"

lemma find_hd_filter: "find P xs = Some x \<Longrightarrow> filter P xs = x # tl (filter P xs)"
  by (induction xs) (auto split: if_splits)

text \<open>A yield rotates the list of active tasks of the queue, and its first task runs.\<close>

lemma yield_rotates:
  assumes "sched_inv s (ys @ c # zs) c i"
  shows "\<exists>s' xs' n. tcb_yield s = Some s' \<and> sched_inv s' xs' n i \<and> active s' = active s
    \<and> filter (active s) xs' = filter (active s) (ys @ zs) @ [c] \<and> n = hd (filter (active s) xs')"
proof -
  note D = invD [OF assms]
  from yield_law [OF assms] obtain s' n where k: "tcb_yield s = Some s'" "scheduled s s' (ys @ zs @ [c]) c n i"
    "find (\<lambda>k. k = c \<or> state_of s k = TASK_STATE_READY) (ys @ zs @ [c]) = Some n" by blast
  have n: "n = c \<or> state_of s n = TASK_STATE_READY" using find_SomeD [OF k(3)] by simp
  have act: "active s' = active s"
    using k(2) n D(2) by (auto simp: scheduled_def active_def fun_eq_iff)
  have eq: "(k = c \<or> state_of s k = TASK_STATE_READY) = active s k" if "k \<in> set (ys @ zs @ [c])" for k
    using D(2) D(10) [of k] inv_lt [OF assms, of k] that by (auto simp: active_def)
  have "filter (active s) (ys @ zs @ [c]) = filter (\<lambda>k. k = c \<or> state_of s k = TASK_STATE_READY) (ys @ zs @ [c])"
    by (rule filter_cong [OF refl]) (simp only: eq)
  then have "n = hd (filter (active s) (ys @ zs @ [c]))" using find_hd_filter [OF k(3)] by (metis list.sel(1))
  moreover have "filter (active s) (ys @ zs @ [c]) = filter (active s) (ys @ zs) @ [c]" using D(2) by (simp add: active_def)
  ultimately show ?thesis using k(1,2) act unfolding scheduled_def by blast
qed

lemma filter_head:
  assumes "filter P (ys @ c # zs) = c # rest" "c \<notin> set ys" "P c"
  shows "filter P (ys @ zs) = rest"
proof (cases "filter P ys")
  case (Cons a l)
  then have "a \<in> set (filter P ys)" by simp
  then have "a \<in> set ys" by simp
  moreover have "a = c" using assms(1) Cons by simp
  ultimately show ?thesis using assms(2) by simp
qed (use assms in auto)

lemma yields_reach:
  "sched_inv s xs c i \<Longrightarrow> filter (active s) xs = c # rest \<Longrightarrow> j < length rest \<Longrightarrow>
    \<exists>s'. yields (Suc j) s = Some s' \<and> current_task s' = Some (rest ! j)"
proof (induction j arbitrary: s xs c rest)
  case (Suc j)
  from inv_split [OF Suc.prems(1)] obtain ys zs where xs: "xs = ys @ c # zs" by blast
  from yield_rotates [OF Suc.prems(1) [unfolded xs]] obtain s1 xs1 n where
    k: "tcb_yield s = Some s1" "sched_inv s1 xs1 n i" "active s1 = active s"
      "filter (active s) xs1 = filter (active s) (ys @ zs) @ [c]" "n = hd (filter (active s) xs1)" by blast
  have "c \<notin> set ys" "active s c" using invD(2,4) [OF Suc.prems(1)] xs by (auto simp: rq_def active_def)
  then have f: "filter (active s) xs1 = rest @ [c]" using k(4) filter_head [OF Suc.prems(2) [unfolded xs]] by simp
  moreover obtain r rs where r: "rest = r # rs" using Suc.prems(3) by (cases rest) auto
  ultimately have "filter (active s1) xs1 = n # rs @ [c]" "n = r" using k(3,5) by simp_all
  with Suc.IH [OF k(2) this(1)] Suc.prems(3) r k(1) show ?case by (auto simp: nth_append)
next
  case 0
  from inv_split [OF 0(1)] obtain ys zs where xs: "xs = ys @ c # zs" by blast
  from yield_rotates [OF 0(1) [unfolded xs]] obtain s1 xs1 n where
    k: "tcb_yield s = Some s1" "sched_inv s1 xs1 n i" "filter (active s) xs1 = filter (active s) (ys @ zs) @ [c]"
      "n = hd (filter (active s) xs1)" by blast
  have "c \<notin> set ys" "active s c" using invD(2,4) [OF 0(1)] xs by (auto simp: rq_def active_def)
  then have "filter (active s) xs1 = rest @ [c]" using k(3) filter_head [OF 0(2) [unfolded xs]] by simp
  then have "n = rest ! 0" using k(4) 0(3) by (cases rest) auto
  then show ?case using k(1) invD(5) [OF k(2)] by simp
qed

text \<open>C15. Yielding is a round robin over all the ready tasks of the run queue, whatever their
  priority and the idle task included: from any consistent state, when the tasks that become current do nothing but
  yield, each ready task becomes the current task after at most as many yields as there are tasks in the queue. The comments of
  \<open>scheduler_pick_next\<close> and \<open>idle_task_entry\<close> announce otherwise, a scan for the highest
  priority and an idle task that runs when no other is ready.\<close>

theorem yield_fair:
  assumes "sched_inv s xs c i" "t \<in> set xs" "state_of s t = TASK_STATE_READY"
  shows "\<exists>n s'. n \<le> length xs \<and> yields n s = Some s' \<and> current_task s' = Some t"
proof -
  from inv_split [OF assms(1)] obtain ys zs where xs: "xs = ys @ c # zs" by blast
  from yield_rotates [OF assms(1) [unfolded xs]] obtain s1 xs1 n where
    k: "tcb_yield s = Some s1" "sched_inv s1 xs1 n i" "active s1 = active s"
      "filter (active s) xs1 = filter (active s) (ys @ zs) @ [c]" "n = hd (filter (active s) xs1)" by blast
  define l where "l = filter (active s) xs1"
  have "t \<noteq> c" using assms(3) invD(2) [OF assms(1)] by auto
  then have "t \<in> set l" using assms(2,3) k(4) xs by (auto simp: l_def active_def)
  then obtain j where j: "j < length l" "l ! j = t" by (auto simp: in_set_conv_nth)
  have "length l \<le> length xs"
    using k(4) xs length_filter_le [of "active s" "ys @ zs"] by (simp add: l_def del: length_filter_le)
  then have jl: "Suc j \<le> length xs" using j(1) by simp
  show ?thesis
  proof (cases j)
    case 0
    then have "current_task s1 = Some t" using k(5) j invD(5) [OF k(2)] by (cases l) (auto simp: l_def)
    then show ?thesis using k(1) jl 0 by (intro exI [of _ 1] exI [of _ s1]) simp
  next
    case (Suc m)
    then obtain rest where l: "l = n # rest" using k(5) j(1) by (cases l) (auto simp: l_def)
    then have "\<exists>s'. yields (Suc m) s1 = Some s' \<and> current_task s' = Some (rest ! m)"
      using yields_reach [OF k(2), of rest m] j(1) Suc k(3) by (simp add: l_def)
    then obtain s' where "yields (Suc m) s1 = Some s'" "current_task s' = Some t" using j(2) l Suc by auto
    then show ?thesis using k(1) jl Suc by (intro exI [of _ "Suc j"] exI [of _ s']) simp
  qed
qed

section \<open>Sleeping\<close>

text \<open>Scheduling leaves a blocked task as it is.\<close>

lemma scheduled_blocked:
  assumes "scheduled s s' xs c n i" "state_of s k = TASK_STATE_BLOCKED" "state_of s c = TASK_STATE_RUNNING"
    "n = c \<or> state_of s n = TASK_STATE_READY"
  shows "sched_inv s' xs n i \<and> state_of s' k = TASK_STATE_BLOCKED \<and> scheduler_ticks s' = scheduler_ticks s
    \<and> t_accounting (task_pool s' k) = t_accounting (task_pool s k)"
  using assms by (auto simp: scheduled_def keeps_def)

lemma yield_keeps_blocked:
  assumes "sched_inv s xs c i" "state_of s k = TASK_STATE_BLOCKED" "tcb_yield s = Some s'"
  shows "\<exists>xs' n. sched_inv s' xs' n i \<and> state_of s' k = TASK_STATE_BLOCKED \<and> scheduler_ticks s' = scheduler_ticks s
    \<and> t_accounting (task_pool s' k) = t_accounting (task_pool s k)"
proof -
  from inv_split [OF assms(1)] obtain ys zs where xs: "xs = ys @ c # zs" by blast
  from yield_law [OF assms(1) [unfolded xs]] assms(3) obtain n where
    n: "scheduled s s' (ys @ zs @ [c]) c n i" "find (\<lambda>k. k = c \<or> state_of s k = TASK_STATE_READY) (ys @ zs @ [c]) = Some n" by auto
  from scheduled_blocked [OF n(1) assms(2) invD(2) [OF assms(1)]] find_SomeD [OF n(2)] show ?thesis by blast
qed

lemma schedule_keeps_blocked:
  assumes "sched_inv s xs c i" "state_of s k = TASK_STATE_BLOCKED" "scheduler_schedule s = Some s'"
  shows "\<exists>xs' n. sched_inv s' xs' n i \<and> state_of s' k = TASK_STATE_BLOCKED \<and> scheduler_ticks s' = scheduler_ticks s
    \<and> t_accounting (task_pool s' k) = t_accounting (task_pool s k)"
proof (cases "t_time_slice (task_pool s c) = 0")
  case True
  from inv_split [OF assms(1)] obtain ys zs where xs: "xs = ys @ c # zs" by blast
  note D = invD [OF assms(1)]
  from schedule_rotate [OF D(1) [unfolded xs] D(2) True] assms(3) obtain n where
    n: "scheduled s s' (ys @ zs @ [c]) c n i" "find (\<lambda>k. k = c \<or> state_of s k = TASK_STATE_READY) (ys @ zs @ [c]) = Some n" by auto
  from scheduled_blocked [OF n(1) assms(2) D(2)] find_SomeD [OF n(2)] show ?thesis by blast
next
  case False
  note D = invD [OF assms(1)]
  let ?f = "find (\<lambda>k. k \<noteq> c \<and> state_of s k = TASK_STATE_READY \<and> t_priority (task_pool s c) < t_priority (task_pool s k)) xs"
  define n where "n = (case ?f of Some k \<Rightarrow> k | None \<Rightarrow> c)"
  from schedule_keep [OF D(1,2)] False assms(3) have "scheduled s s' xs c n i" by (simp add: word_gt_0 n_def)
  moreover have "n = c \<or> state_of s n = TASK_STATE_READY" using find_SomeD [of _ xs n] by (auto simp: n_def dest: find_SomeD split: option.splits)
  ultimately show ?thesis using scheduled_blocked assms(2) D(2) by blast
qed

text \<open>Time passes: the timer ticks \<open>n\<close> times, and the tasks yield and are scheduled in between.\<close>

inductive passes :: "sched \<Rightarrow> nat \<Rightarrow> sched \<Rightarrow> bool" for s where
  now: "passes s 0 s"
| ticks: "passes s n s1 \<Longrightarrow> scheduler_tick s1 = Some s2 \<Longrightarrow> passes s (Suc n) s2"
| yields: "passes s n s1 \<Longrightarrow> tcb_yield s1 = Some s2 \<Longrightarrow> passes s n s2"
| schedules: "passes s n s1 \<Longrightarrow> scheduler_schedule s1 = Some s2 \<Longrightarrow> passes s n s2"

lemma passes_blocked:
  assumes "passes s n s'" "sched_inv s xs c i" "k < TCB_MAX_TASKS" "state_of s k = TASK_STATE_BLOCKED"
    "unat (sleep_time (t_accounting (task_pool s k))) = unat (scheduler_ticks s) + N" "n < N"
  shows "\<exists>xs' c'. sched_inv s' xs' c' i \<and> state_of s' k = TASK_STATE_BLOCKED
    \<and> unat (scheduler_ticks s') = unat (scheduler_ticks s) + n
    \<and> sleep_time (t_accounting (task_pool s' k)) = sleep_time (t_accounting (task_pool s k))"
  using assms(1,6)
proof (induction rule: passes.induct)
  case now
  then show ?case using assms(2,4) by auto
next
  case (ticks n s1 s2)
  then obtain xs1 c1 where s1: "sched_inv s1 xs1 c1 i" "state_of s1 k = TASK_STATE_BLOCKED"
    "unat (scheduler_ticks s1) = unat (scheduler_ticks s) + n"
    "sleep_time (t_accounting (task_pool s1 k)) = sleep_time (t_accounting (task_pool s k))" by auto
  have lt: "unat (scheduler_ticks s1) + 1 < 2 ^ 64"
    using s1(3) assms(5) ticks.prems unsigned_less [of "sleep_time (t_accounting (task_pool s k))", where 'a = nat] by simp
  then have u: "unat (scheduler_ticks s1 + 1) = unat (scheduler_ticks s) + Suc n"
    using s1(3) by (simp add: unat_word_ariths)
  have nd: "\<not> due (s1\<lparr>scheduler_ticks := scheduler_ticks s1 + 1\<rparr>) k"
    using s1(4) assms(5) ticks.prems u by (simp add: due_def word_le_nat_alt)
  from tick_law [OF s1(1)] nd assms(3) s1 u ticks(2) show ?case by fastforce
next
  case (yields n s1 s2)
  then obtain xs1 c1 where "sched_inv s1 xs1 c1 i" "state_of s1 k = TASK_STATE_BLOCKED"
    "unat (scheduler_ticks s1) = unat (scheduler_ticks s) + n"
    "sleep_time (t_accounting (task_pool s1 k)) = sleep_time (t_accounting (task_pool s k))" by auto
  with yield_keeps_blocked [OF this(1,2) yields(2)] show ?case by auto
next
  case (schedules n s1 s2)
  then obtain xs1 c1 where "sched_inv s1 xs1 c1 i" "state_of s1 k = TASK_STATE_BLOCKED"
    "unat (scheduler_ticks s1) = unat (scheduler_ticks s) + n"
    "sleep_time (t_accounting (task_pool s1 k)) = sleep_time (t_accounting (task_pool s k))" by auto
  with schedule_keeps_blocked [OF this(1,2) schedules(2)] show ?case by auto
qed

text \<open>C16. A task that goes to sleep is woken on time, as long as nothing but timer ticks, yields and
  scheduling happens meanwhile: in every such history it stays blocked until the number of ticks that
  \<open>tcb_sleep\<close> computes from the milliseconds has passed, the next tick always returns, and the last of
  them makes the task ready in the run queue. Other operations can end the sleep early, an exiting task
  among them.\<close>

theorem sleep_wakes_on_time:
  assumes "sched_inv s xs c i" "c \<noteq> i" "ms \<noteq> 0" "unat (scheduler_ticks s) + unat (sleep_ticks ms) < 2 ^ 64"
  shows "\<exists>s1. tcb_sleep pit_sleep ms s = Some s1 \<and> 0 < unat (sleep_ticks ms)
    \<and> (\<forall>n s2. passes s1 n s2 \<and> n < unat (sleep_ticks ms) \<longrightarrow> state_of s2 c = TASK_STATE_BLOCKED
        \<and> (\<exists>s3. scheduler_tick s2 = Some s3 \<and>
            (n + 1 = unat (sleep_ticks ms) \<longrightarrow> state_of s3 c = TASK_STATE_READY \<and> (\<exists>ys. rq s3 ys \<and> c \<in> set ys))))"
proof -
  define N where "N = unat (sleep_ticks ms)"
  have N: "0 < N" by (auto simp: N_def sleep_ticks_def Let_def unat_gt_0)
  from sleep_law [OF assms(1,3)] assms(2) obtain s1 n where s1: "tcb_sleep pit_sleep ms s = Some s1" "sched_inv s1 xs n i"
    "state_of s1 c = TASK_STATE_BLOCKED" "scheduler_ticks s1 = scheduler_ticks s"
    "sleep_time (t_accounting (task_pool s1 c)) = scheduler_ticks s + ucast (sleep_ticks ms)" by blast
  have c: "c < TCB_MAX_TASKS" using inv_lt [OF assms(1)] invD(6) [OF assms(1)] by blast
  have "unat (ucast (sleep_ticks ms) :: u64) = N" 
    using order_less_trans [OF unat_less_2p32 [of "sleep_ticks ms"], of "2 ^ 64"]
    by (simp add: N_def unsigned_ucast_eq take_bit_nat_eq_self)
  then have w: "unat (sleep_time (t_accounting (task_pool s1 c))) = unat (scheduler_ticks s1) + N"
    using assms(4) s1(4,5) by (simp add: unat_word_ariths N_def)
  have "state_of s2 c = TASK_STATE_BLOCKED \<and> (\<exists>s3. scheduler_tick s2 = Some s3 \<and>
      (m + 1 = N \<longrightarrow> state_of s3 c = TASK_STATE_READY \<and> (\<exists>ys. rq s3 ys \<and> c \<in> set ys)))" if p: "passes s1 m s2" "m < N" for m s2
  proof -
    from passes_blocked [OF p(1) s1(2) c s1(3) w p(2)] obtain ys d where s2: "sched_inv s2 ys d i"
      "state_of s2 c = TASK_STATE_BLOCKED" "unat (scheduler_ticks s2) = unat (scheduler_ticks s1) + m"
      "sleep_time (t_accounting (task_pool s2 c)) = sleep_time (t_accounting (task_pool s1 c))" by blast
    have "due (s2\<lparr>scheduler_ticks := scheduler_ticks s2 + 1\<rparr>) c" if "m + 1 = N"
    proof -
      have "unat (scheduler_ticks s2 + 1) = unat (scheduler_ticks s1) + N"
        using s2(3) that assms(4) s1(4) by (simp add: unat_word_ariths N_def)
      moreover have "sleep_time (t_accounting (task_pool s2 c)) \<noteq> 0" using s2(4) w N by (auto simp: unat_eq_zero)
      ultimately show ?thesis using s2(2,4) w by (simp add: due_def word_le_nat_alt)
    qed
    with tick_law [OF s2(1)] c obtain s3 zs where "scheduler_tick s2 = Some s3" "sched_inv s3 zs d i"
      "m + 1 = N \<longrightarrow> state_of s3 c = TASK_STATE_READY \<and> c \<in> set zs" by fastforce
    then show ?thesis using s2(2) invD(4) [of s3 zs d i] by blast
  qed
  then show ?thesis using s1(1) N unfolding N_def by blast
qed

section \<open>States for the witnesses\<close>

definition blank_tcb :: tcb where
  "blank_tcb = \<lparr>t_tid = TCB_INVALID_TID, t_pid = 0, t_name = replicate 32 0, t_state = TASK_STATE_FREE,
     t_priority = 0, t_base_priority = 0, t_context = init_context, t_fpu = 0, t_kernel_stack = 0, t_user_stack = 0,
     t_stack_size = 0, t_time_slice = 0, t_last_run = 0, t_next = None, t_prev = None, t_page_directory = 0,
     t_heap_start = 0, t_heap_end = 0, t_msg_buffer = 0, t_msg_size = 0, t_waiting_for = TCB_INVALID_TID,
     t_limits = \<lparr>max_memory = 0, max_open_files = 0, max_threads = 0\<rparr>, t_open_handles = 0, t_handle_count = 0,
     t_accounting = \<lparr>creation_time = 0, total_run_time = 0, sleep_time = 0, wait_time = 0\<rparr>,
     t_parent = None, t_children = None, t_sibling = None, t_arch_data = 0\<rparr>"

text \<open>Task 0 is idle and ready, task 1 sleeps until tick 50, task 2 is running.\<close>

definition demo_sched :: sched where
  "demo_sched = \<lparr>task_pool = (\<lambda>_. blank_tcb)
       (0 := blank_tcb\<lparr>t_tid := 1, t_state := TASK_STATE_READY, t_prev := Some 2, t_time_slice := 2\<rparr>,
        1 := blank_tcb\<lparr>t_tid := 2, t_state := TASK_STATE_BLOCKED, t_next := Some 2,
               t_accounting := \<lparr>creation_time = 0, total_run_time = 0, sleep_time = 50, wait_time = 0\<rparr>\<rparr>,
        2 := blank_tcb\<lparr>t_tid := 3, t_state := TASK_STATE_RUNNING, t_prev := Some 1, t_next := Some 0, t_time_slice := 10\<rparr>),
     next_tid = 4, runqueue_head = Some 1, runqueue_tail = Some 0, current_task = Some 2, scheduler_ticks = 20,
     scheduler_initialized = True, idle_task = Some 0, int_flag = True\<rparr>"

lemma demo_sched_states:
  "state_of demo_sched 0 = TASK_STATE_READY" "state_of demo_sched 1 = TASK_STATE_BLOCKED"
  "state_of demo_sched 2 = TASK_STATE_RUNNING" "2 < k \<Longrightarrow> state_of demo_sched k = TASK_STATE_FREE"
  by (simp_all add: demo_sched_def state_of_def blank_tcb_def)

lemma demo_sched_inv: "sched_inv demo_sched [1, 2, 0] 2 0"
proof -
  have r: "rq demo_sched [1, 2, 0]" by (simp add: rq_def demo_sched_def blank_tcb_def)
  have q: "queue_states demo_sched [1, 2, 0]" using demo_sched_states by (simp add: queue_states_def)
  have run: "k = 2" if "state_of demo_sched k = TASK_STATE_RUNNING" for k
  proof (rule ccontr)
    assume "k \<noteq> 2"
    then consider "k = 0" | "k = 1" | "2 < k" by linarith
    then show False using that demo_sched_states by cases auto
  qed
  have "sched_pre demo_sched [1, 2, 0] 2 0"
    by (rule preI [OF _ r _ _ _ _ q run]) (simp_all add: demo_sched_def)
  then show ?thesis using demo_sched_states(3) by (simp add: sched_inv_def)
qed

theorem sched_reach_sound_witness:
  "\<exists>s h xs c. sched_reach 0x200000 0x100000 s h \<and> rq s xs \<and> current_task s = Some c
    \<and> (\<forall>k<TCB_MAX_TASKS. state_of s k = TASK_STATE_RUNNING \<longleftrightarrow> k = c)"
proof -
  have i: "\<not> scheduler_initialized (demo_sched\<lparr>scheduler_initialized := False\<rparr>)" by simp
  from init_law [OF this demo_heap_inv, of "0x100000" "0x100040"] obtain s h where
    "scheduler_init 0x200000 0x100000 0x100040 (demo_sched\<lparr>scheduler_initialized := False\<rparr>) demo_heap = Some (s, h)" by blast
  from sched_reach.init [OF i demo_heap_inv this] have r: "sched_reach 0x200000 0x100000 s h" .
  from sched_reach_sound [OF this] show ?thesis using r by blast
qed

theorem yield_fair_witness:
  "\<exists>n s'. n \<le> 3 \<and> yields n demo_sched = Some s' \<and> current_task s' = Some 0"
  using yield_fair [OF demo_sched_inv, of 0] demo_sched_states(1) by (simp add: numeral_3_eq_3)

theorem sleep_wakes_on_time_witness:
  "\<exists>s1 s2 s3. tcb_sleep (\<lambda>_. Some) 100 demo_sched = Some s1 \<and> passes s1 9 s2 \<and> state_of s2 2 = TASK_STATE_BLOCKED
    \<and> scheduler_tick s2 = Some s3 \<and> state_of s3 2 = TASK_STATE_READY"
proof -
  have ticks: "unat (sleep_ticks 100) = 10" "unat (scheduler_ticks demo_sched) = 20"
    by (simp_all add: sleep_ticks_def demo_sched_def)
  have "\<exists>s1. tcb_sleep (\<lambda>_. Some) 100 demo_sched = Some s1 \<and> (\<forall>n s2. passes s1 n s2 \<and> n < 10 \<longrightarrow>
      state_of s2 2 = TASK_STATE_BLOCKED \<and> (\<exists>s3. scheduler_tick s2 = Some s3 \<and> (n + 1 = 10 \<longrightarrow> state_of s3 2 = TASK_STATE_READY)))"
    using sleep_wakes_on_time [OF demo_sched_inv, of 100 "\<lambda>_. Some", unfolded ticks] by (simp del: One_nat_def) blast
  then obtain s1 where s1: "tcb_sleep (\<lambda>_. Some) 100 demo_sched = Some s1"
    and p: "\<And>n s2. passes s1 n s2 \<Longrightarrow> n < 10 \<Longrightarrow> state_of s2 2 = TASK_STATE_BLOCKED
      \<and> (\<exists>s3. scheduler_tick s2 = Some s3 \<and> (n + 1 = 10 \<longrightarrow> state_of s3 2 = TASK_STATE_READY))" by blast
  have "\<exists>s2. passes s1 n s2" if "n < 10" for n
    using that
  proof (induction n)
    case 0
    show ?case using passes.now by blast
  next
    case (Suc n)
    then obtain s2 where "passes s1 n s2" by auto
    moreover from p [OF this] Suc.prems obtain s3 where "scheduler_tick s2 = Some s3" by auto
    ultimately show ?case using passes.ticks by blast
  qed
  from this [of 9] obtain s2 where "passes s1 9 s2" by auto
  with p [OF this] s1 show ?thesis by auto
qed

section \<open>Limits of the scheduler\<close>

text \<open>C35. A task that exits wakes the task at the head of the run queue, even when that task is
  blocked and its wake-up time has not come: blocked tasks stay in the queue, and the choice of the
  new current task does not look at their state.\<close>

theorem exit_resumes_blocked:
  assumes "sched_inv s (x # ys @ c # zs) c i" "c \<noteq> i" "state_of s x = TASK_STATE_BLOCKED"
  shows "\<exists>s'. tcb_exit s = Some s' \<and> (state_of s' x = TASK_STATE_RUNNING \<or> state_of s' x = TASK_STATE_READY)"
proof -
  have inv: "sched_inv s ((x # ys) @ c # zs) c i" using assms(1) by simp
  from remove_current_law [OF inv assms(2), of TASK_STATE_ZOMBIE "t_state_update (\<lambda>_. TASK_STATE_ZOMBIE)"] obtain s1 h where
    k: "scheduler_remove_task (Some c) (upd c (t_state_update (\<lambda>_. TASK_STATE_ZOMBIE)) s) = Some s1"
      "sched_inv s1 ((x # ys) @ zs) h i" "0 < t_time_slice (task_pool s1 h)" "h = x" by auto
  from schedule_keep [OF invD(1,2) [OF k(2)] k(3)] obtain s2 n where
    s2: "scheduler_schedule s1 = Some s2" "scheduled s1 s2 ((x # ys) @ zs) h n i" by blast
  have "state_of s2 x = TASK_STATE_RUNNING \<or> state_of s2 x = TASK_STATE_READY"
    using s2(2) k(4) invD(2) [OF k(2)] by (simp add: scheduled_def)
  moreover have "tcb_exit s = Some s2" using k(1) s2(1) invD(5) [OF assms(1)] by (simp add: tcb_exit_def)
  ultimately show ?thesis by blast
qed

theorem exit_resumes_blocked_witness:
  "\<exists>s'. tcb_exit demo_sched = Some s' \<and> (state_of s' 1 = TASK_STATE_RUNNING \<or> state_of s' 1 = TASK_STATE_READY)"
  using exit_resumes_blocked [of demo_sched 1 "[]" 2 "[0]" 0] demo_sched_inv demo_sched_states(2) by simp

text \<open>When no memory is left for a kernel stack, \<open>tcb_create\<close> still reports success: the task
  it returns is ready and in the run queue, with an instruction pointer of 0.\<close>

theorem create_without_stack:
  assumes "sched_inv s xs c i" "heap_inv kh h" "kmalloc kh TCB_STACK_SIZE h = Some (0, h)" "entry \<noteq> 0"
    "k < TCB_MAX_TASKS" "state_of s k = TASK_STATE_FREE"
  shows "\<exists>t s' ys. tcb_create kh tramp entry arg name prio s h = Some (Some t, s', h) \<and> rq s' ys \<and> t \<in> set ys
    \<and> state_of s' t = TASK_STATE_READY \<and> c_eip (t_context (task_pool s' t)) = 0"
proof -
  note D = invD [OF assms(1)]
  obtain t where f: "find (\<lambda>i. state_of s i = TASK_STATE_FREE) [0..<TCB_MAX_TASKS] = Some t"
    using assms(5,6) by (cases "find (\<lambda>i. state_of s i = TASK_STATE_FREE) [0..<TCB_MAX_TASKS]") (auto simp: find_None_iff)
  have t: "t < TCB_MAX_TASKS" "state_of s t = TASK_STATE_FREE" using find_SomeD [OF f] by auto
  have tx: "t \<notin> set xs" using D(9) t(2) by (auto simp: queue_states_def)
  have tc: "t \<noteq> c" using D(2) t(2) by auto
  define s1 where "s1 = (upd t (fresh_tcb (next_tid s) (scheduler_ticks s)) s)\<lparr>next_tid := next_tid s + 1\<rparr>"
  define s2 where "s2 = upd t (\<lambda>r. r\<lparr>t_name := (if name \<noteq> None then str_copy (t_name r) name 32 else (t_name r)[0 := 0]),
                            t_priority := prio, t_base_priority := prio\<rparr>) s1"
  have pr: "tcb_prepare kh tramp entry arg name prio t s1 h = Some (s2, h)"
    using assms(3,4) by (simp add: tcb_prepare_def tcb_setup_context_def s2_def s1_def fresh_tcb_def Let_def)
  have st2: "state_of s2 j = (if j = t then TASK_STATE_READY else state_of s j)" for j
    by (simp add: s2_def s1_def state_of_def fresh_tcb_def)
  have "sched_inv s2 xs c i"
  proof (rule inv_change [OF assms(1)])
    show "rq s2 xs" using D(4) tx by (simp add: s2_def s1_def rq_upd_notin)
    show "queue_states s2 xs" using D(9) tx st2 by (auto simp: queue_states_def)
  qed (use st2 tc in \<open>auto simp: s2_def s1_def\<close>)
  from add_task_law [OF this t(1) tx] st2 obtain s3 where
    s3: "scheduler_add_task (Some t) s2 = Some s3" "sched_inv s3 (xs @ [t]) c i" "\<forall>k. state_of s3 k = state_of s2 k"
      "t_context (task_pool s3 t) = t_context (task_pool s2 t)" by auto
  have "scheduler_initialized s2" using D(3) by (simp add: s2_def s1_def)
  then have "tcb_create kh tramp entry arg name prio s h = Some (Some t, s3, h)"
    using f pr s3(1) by (simp add: tcb_create_def tcb_allocate_def s1_def)
  moreover have "c_eip (t_context (task_pool s3 t)) = 0"
    using s3(4) by (simp add: s2_def s1_def fresh_tcb_def init_context_def)
  ultimately show ?thesis using invD(4) [OF s3(2)] s3(3) st2 by (intro exI [of _ t] exI [of _ s3] exI [of _ "xs @ [t]"]) simp
qed

theorem create_without_stack_witness:
  "\<exists>h t s'. tcb_create 0x200000 0x100000 0x100040 0 None 5 demo_sched h = Some (Some t, s', h)
    \<and> state_of s' t = TASK_STATE_READY \<and> c_eip (t_context (task_pool s' t)) = 0"
proof -
  obtain m where r: "heap_rep 0x200000 (demo_heap\<lparr>kmem := m\<rparr>) [(0x3FFFF0, False)]"
    using kmalloc_abs [OF demo_heap_rep, of "0x3FFFF0"] by (auto simp: round8_def)
  define h where "h = demo_heap\<lparr>kmem := m\<rparr>"
  have "kmalloc 0x200000 TCB_STACK_SIZE h = Some (0, h)"
    using kmalloc_abs [OF r, of TCB_STACK_SIZE] by (simp add: round8_def h_def)
  moreover have "heap_inv 0x200000 h" using r by (auto simp: heap_inv_def h_def intro!: exI [of _ "[(0x3FFFF0, False)]"])
  ultimately show ?thesis
    using create_without_stack [OF demo_sched_inv, of "0x200000" h "0x100040" 3 "0x100000" 0 None 5] demo_sched_states(4) [of 3]
    by (intro exI [of _ h]) auto
qed

end
