(* ===== verification/Ipc.thy ===== *)
theory Ipc
  imports Tcb
begin

text \<open>
  Message passing of \<^verbatim>\<open>src/ipc.c\<close>: ports with circular queues and the per-task mailboxes that
  tasks without a port fall back to. A circular queue, of a port or of a mailbox, is a
  record \<open>ring\<close>: 16 slots, the capacity in use, head, tail and count. The operations take
  and return the state of this file and the scheduler state, whose tasks they block and
  wake. Task pointers are optional indices, as in the scheduler; the payload union of a
  message is its four words. Serial messages are not part of the model.

  The lemmas show that the circular queues implement lists, so that a send appends to the
  inbox of the receiver and a receive removes its oldest matching message and nothing
  else; they also show where two tasks share a mailbox.
\<close>

section \<open>Data\<close>

record ipc_message =
  sender_tid :: u32
  receiver_tid :: u32
  msg_type :: u32
  msg_id :: u32
  msg_payload :: "u32 list"
  msg_flags :: u32

record ring =
  slots :: "ipc_message list"
  queue_size :: nat
  head :: nat
  tail :: nat
  qcount :: nat

record ipc_port =
  port_id :: int
  port_name :: "u8 list"
  port_owner :: "nat option"
  port_ring :: ring

record ipc =
  ipc_ports :: "nat \<Rightarrow> ipc_port"
  ipc_port_used :: "nat \<Rightarrow> bool"
  task_mailboxes :: "nat \<Rightarrow> ring"

abbreviation IPC_QUEUE_SIZE :: nat where "IPC_QUEUE_SIZE \<equiv> 16"
abbreviation IPC_MAX_PORTS :: nat where "IPC_MAX_PORTS \<equiv> 128"
abbreviation IPC_FLAG_NONBLOCK :: u32 where "IPC_FLAG_NONBLOCK \<equiv> 1"

definition null_message :: ipc_message where
  "null_message = \<lparr>sender_tid = 0, receiver_tid = 0, msg_type = 0, msg_id = 0, msg_payload = [0, 0, 0, 0], msg_flags = 0\<rparr>"

definition empty_ring :: "nat \<Rightarrow> ring" where
  "empty_ring n = \<lparr>slots = replicate IPC_QUEUE_SIZE null_message, queue_size = n, head = 0, tail = 0, qcount = 0\<rparr>"

section \<open>Circular queues\<close>

definition ring_full :: "ring \<Rightarrow> bool" where
  "ring_full r \<longleftrightarrow> queue_size r \<le> qcount r"

definition ring_at :: "ring \<Rightarrow> nat \<Rightarrow> ipc_message" where
  "ring_at r k = slots r ! ((head r + k) mod queue_size r)"

definition ring_put :: "ipc_message \<Rightarrow> ring \<Rightarrow> ring" where
  "ring_put m r = r\<lparr>slots := (slots r)[tail r := m], tail := (tail r + 1) mod queue_size r, qcount := qcount r + 1\<rparr>"

text \<open>The scan for the oldest message of a sender, as an offset from the head; \<open>-1\<close> takes any.\<close>

definition ring_find :: "u32 \<Rightarrow> ring \<Rightarrow> nat option" where
  "ring_find from r =
     (if qcount r = 0 then None
      else if from = -1 then Some 0
      else find (\<lambda>k. sender_tid (ring_at r k) = from) [0..<qcount r])"

text \<open>The loop that closes the gap of a message taken from the middle.\<close>

definition shift_slot :: "nat \<Rightarrow> nat \<Rightarrow> nat \<Rightarrow> ipc_message list \<Rightarrow> ipc_message list" where
  "shift_slot h n k ms = ms[(h + k) mod n := ms ! ((h + k + 1) mod n)]"

definition ring_take :: "nat \<Rightarrow> ring \<Rightarrow> ring" where
  "ring_take pos r =
     (if pos = 0 then r\<lparr>head := (head r + 1) mod queue_size r, qcount := qcount r - 1\<rparr>
      else r\<lparr>slots := fold (shift_slot (head r) (queue_size r)) [pos..<qcount r - 1] (slots r),
             tail := (if tail r = 0 then queue_size r - 1 else tail r - 1), qcount := qcount r - 1\<rparr>)"

section \<open>Ports\<close>

definition tid_to_mbox_idx :: "u32 \<Rightarrow> nat" where
  "tid_to_mbox_idx tid = (if sint tid < 0 then 0 else unat tid mod TCB_MAX_TASKS)"

definition find_port_for_task :: "nat option \<Rightarrow> ipc \<Rightarrow> nat option" where
  "find_port_for_task task q =
     (if task = None then None
      else find (\<lambda>i. ipc_port_used q i \<and> port_owner (ipc_ports q i) = task) [0..<IPC_MAX_PORTS])"

definition ipc_init :: "ipc \<Rightarrow> int \<times> ipc" where
  "ipc_init q = (0, q\<lparr>
     ipc_port_used := (\<lambda>i. if i < IPC_MAX_PORTS then False else ipc_port_used q i),
     ipc_ports := (\<lambda>i. if i < IPC_MAX_PORTS
       then \<lparr>port_id = -1, port_name = (port_name (ipc_ports q i))[0 := 0], port_owner = None,
              port_ring = empty_ring IPC_QUEUE_SIZE\<rparr>
       else ipc_ports q i),
     task_mailboxes := (\<lambda>i. if i < TCB_MAX_TASKS then empty_ring IPC_QUEUE_SIZE else task_mailboxes q i)\<rparr>)"

text \<open>\<open>ipc_strncpy\<close> copies a string and pads the destination with zeros.\<close>

definition ipc_strncpy :: "u8 list \<Rightarrow> u8 list \<Rightarrow> nat \<Rightarrow> u8 list" where
  "ipc_strncpy dst src n =
     (if n = 0 then dst
      else let cut = take (n - 1) (takeWhile (\<lambda>c. c \<noteq> 0) src)
           in cut @ replicate (n - length cut) 0 @ drop n dst)"

definition ipc_create_port :: "u8 list option \<Rightarrow> nat \<Rightarrow> ipc \<Rightarrow> int \<times> ipc" where
  "ipc_create_port name qsize q =
     (let qsize = (if qsize = 0 \<or> IPC_QUEUE_SIZE < qsize then IPC_QUEUE_SIZE else qsize)
      in case find (\<lambda>i. \<not> ipc_port_used q i) [0..<IPC_MAX_PORTS] of
           None \<Rightarrow> (-1, q)
         | Some i \<Rightarrow> (int i, q\<lparr>ipc_port_used := (ipc_port_used q)(i := True),
             ipc_ports := (ipc_ports q)(i := \<lparr>port_id = int i,
               port_name = (case name of
                   Some n \<Rightarrow> ipc_strncpy (port_name (ipc_ports q i)) n 32
                 | None \<Rightarrow> (port_name (ipc_ports q i))[0 := 0]),
               port_owner = None, port_ring = empty_ring qsize\<rparr>)\<rparr>))"

definition usable :: "sched \<Rightarrow> nat \<Rightarrow> bool" where
  "usable s t \<longleftrightarrow> state_of s t \<noteq> TASK_STATE_FREE \<and> state_of s t \<noteq> TASK_STATE_ZOMBIE"

definition tid_of :: "sched \<Rightarrow> nat \<Rightarrow> u32" where
  "tid_of s t = t_tid (task_pool s t)"

definition waiting_for :: "sched \<Rightarrow> nat \<Rightarrow> u32" where
  "waiting_for s t = t_waiting_for (task_pool s t)"

definition valid_port :: "int \<Rightarrow> ipc \<Rightarrow> bool" where
  "valid_port p q \<longleftrightarrow> 0 \<le> p \<and> p < int IPC_MAX_PORTS \<and> ipc_port_used q (nat p)"

definition ipc_bind_port :: "nat option \<Rightarrow> int \<Rightarrow> ipc \<Rightarrow> sched \<Rightarrow> int \<times> ipc" where
  "ipc_bind_port task p q s =
     (case task of
        None \<Rightarrow> (-1, q)
      | Some t \<Rightarrow>
          if \<not> valid_port p q then (-1, q)
          else (case tcb_get_by_tid (tid_of s t) s of
              None \<Rightarrow> (-1, q)
            | Some v \<Rightarrow>
                if \<not> usable s v then (-1, q)
                else if port_owner (ipc_ports q (nat p)) \<noteq> None \<and> port_owner (ipc_ports q (nat p)) \<noteq> task then (-1, q)
                else (0, q\<lparr>ipc_ports := (ipc_ports q)(nat p := (ipc_ports q (nat p))\<lparr>port_owner := task\<rparr>)\<rparr>)))"

definition ipc_unbind_port :: "nat option \<Rightarrow> int \<Rightarrow> ipc \<Rightarrow> int \<times> ipc" where
  "ipc_unbind_port task p q =
     (if task = None \<or> \<not> valid_port p q then (-1, q)
      else if port_owner (ipc_ports q (nat p)) \<noteq> task then (-1, q)
      else (0, q\<lparr>ipc_ports := (ipc_ports q)(nat p := (ipc_ports q (nat p))\<lparr>port_owner := None\<rparr>)\<rparr>))"

section \<open>Blocking and waking\<close>

definition block_on :: "nat \<Rightarrow> u32 \<Rightarrow> sched \<Rightarrow> sched" where
  "block_on t tid s = tcb_set_state (Some t) TASK_STATE_BLOCKED (upd t (\<lambda>r. r\<lparr>t_waiting_for := tid\<rparr>) s)"

definition make_ready :: "nat \<Rightarrow> sched \<Rightarrow> sched" where
  "make_ready t s = upd t (\<lambda>r. r\<lparr>t_waiting_for := TCB_INVALID_TID\<rparr>) (tcb_set_state (Some t) TASK_STATE_READY s)"

definition ipc_wait_for_message :: "nat option \<Rightarrow> u32 \<Rightarrow> sched \<Rightarrow> sched" where
  "ipc_wait_for_message task from_tid s = (case task of None \<Rightarrow> s | Some t \<Rightarrow> block_on t from_tid s)"

definition ipc_waiting_task :: "nat option \<Rightarrow> sched \<Rightarrow> sched" where
  "ipc_waiting_task task s =
     (case task of
        None \<Rightarrow> s
      | Some t \<Rightarrow> if state_of s t \<noteq> TASK_STATE_BLOCKED then block_on t (-1) s else s)"

text \<open>The scans over task identifiers that wake senders waiting for a receiver.\<close>

definition wake_one :: "u32 \<Rightarrow> bool \<Rightarrow> nat \<Rightarrow> sched \<Rightarrow> sched" where
  "wake_one rtid has_space tid s =
     (case tcb_get_by_tid (of_nat tid) s of
        None \<Rightarrow> s
      | Some t \<Rightarrow>
          if state_of s t = TASK_STATE_BLOCKED \<and> waiting_for s t = rtid \<and> has_space then make_ready t s else s)"

definition wakeup_owner :: "nat \<Rightarrow> ipc \<Rightarrow> sched \<Rightarrow> sched" where
  "wakeup_owner p q s =
     (let r = port_ring (ipc_ports q p) in
      case port_owner (ipc_ports q p) of
        None \<Rightarrow> s
      | Some own \<Rightarrow>
          if state_of s own = TASK_STATE_BLOCKED \<and> 0 < qcount r
             \<and> (waiting_for s own = -1 \<or> find (\<lambda>k. sender_tid (ring_at r k) = waiting_for s own) [0..<qcount r] \<noteq> None)
          then make_ready own s else s)"

definition ipc_wakeup_waiters :: "int \<Rightarrow> ipc \<Rightarrow> sched \<Rightarrow> sched" where
  "ipc_wakeup_waiters p q s =
     (if \<not> valid_port p q then s
      else let port = ipc_ports q (nat p); s = wakeup_owner (nat p) q s
           in if ring_full (port_ring port) then s
              else (case port_owner port of
                  None \<Rightarrow> s
                | Some own \<Rightarrow> fold (\<lambda>tid s. wake_one (tid_of s own) True tid s) [1..<2048] s))"

definition ipc_destroy_port :: "int \<Rightarrow> ipc \<Rightarrow> sched \<Rightarrow> ipc \<times> sched" where
  "ipc_destroy_port p q s =
     (if \<not> valid_port p q then (q, s)
      else let s = ipc_wakeup_waiters p q s; port = ipc_ports q (nat p)
           in (q\<lparr>ipc_port_used := (ipc_port_used q)(nat p := False),
                 ipc_ports := (ipc_ports q)(nat p := port\<lparr>port_id := -1, port_owner := None,
                   port_name := (port_name port)[0 := 0],
                   port_ring := (port_ring port)\<lparr>head := 0, tail := 0, queue_size := 0, qcount := 0\<rparr>\<rparr>)\<rparr>, s))"

definition has_space :: "nat \<Rightarrow> ipc \<Rightarrow> sched \<Rightarrow> bool" where
  "has_space receiver q s =
     (case find_port_for_task (Some receiver) q of
        Some p \<Rightarrow> \<not> ring_full (port_ring (ipc_ports q p))
      | None \<Rightarrow> \<not> ring_full (task_mailboxes q (tid_to_mbox_idx (tid_of s receiver))))"

definition wake_sender_waiters_for_receiver :: "nat option \<Rightarrow> ipc \<Rightarrow> sched \<Rightarrow> sched" where
  "wake_sender_waiters_for_receiver receiver q s =
     (case receiver of
        None \<Rightarrow> s
      | Some r \<Rightarrow> fold (\<lambda>tid s. wake_one (tid_of s r) (has_space r q s) tid s) [1..<2048] s)"

section \<open>Sending and receiving\<close>

text \<open>A receiver that waits for this sender, or for anyone, is made ready.\<close>

definition wake_receiver :: "nat \<Rightarrow> u32 \<Rightarrow> sched \<Rightarrow> sched" where
  "wake_receiver t from s =
     (if state_of s t = TASK_STATE_BLOCKED \<and> (waiting_for s t = from \<or> waiting_for s t = -1) then make_ready t s else s)"

text \<open>The inbox of a task: the ring of its port, or the mailbox of its identifier.\<close>

definition get_ring :: "nat option \<Rightarrow> u32 \<Rightarrow> ipc \<Rightarrow> ring" where
  "get_ring port tid q =
     (case port of Some p \<Rightarrow> port_ring (ipc_ports q p) | None \<Rightarrow> task_mailboxes q (tid_to_mbox_idx tid))"

definition set_ring :: "nat option \<Rightarrow> u32 \<Rightarrow> ring \<Rightarrow> ipc \<Rightarrow> ipc" where
  "set_ring port tid r q =
     (case port of
        Some p \<Rightarrow> q\<lparr>ipc_ports := (ipc_ports q)(p := (ipc_ports q p)\<lparr>port_ring := r\<rparr>)\<rparr>
      | None \<Rightarrow> q\<lparr>task_mailboxes := (task_mailboxes q)(tid_to_mbox_idx tid := r)\<rparr>)"

definition ipc_send :: "nat option \<Rightarrow> nat option \<Rightarrow> ipc_message option \<Rightarrow> ipc \<Rightarrow> sched \<Rightarrow> int \<times> ipc \<times> sched" where
  "ipc_send from to msg q s =
     (case (from, to, msg) of
        (Some from, Some to, Some msg) \<Rightarrow>
          (case (tcb_get_by_tid (tid_of s from) s, tcb_get_by_tid (tid_of s to) s) of
             (Some f, Some t) \<Rightarrow>
               if \<not> usable s f \<or> \<not> usable s t then (-1, q, s)
               else
                 let kmsg = msg\<lparr>sender_tid := tid_of s from, receiver_tid := tid_of s to\<rparr>;
                     port = find_port_for_task (Some to) q;
                     r = get_ring port (tid_of s to) q
                 in if ring_full r then
                      if msg_flags kmsg AND IPC_FLAG_NONBLOCK \<noteq> 0 then (-1, q, s)
                      else (-2, q, block_on f (tid_of s to) s)
                    else (0, set_ring port (tid_of s to) (ring_put kmsg r) q, wake_receiver t (tid_of s f) s)
           | _ \<Rightarrow> (-1, q, s))
      | _ \<Rightarrow> (-1, q, s))"

text \<open>
  The result of \<open>ipc_recv\<close> carries the message copied out, if any; \<open>out\<close> says that the pointer to
  the message buffer is not NULL.
\<close>

definition ipc_recv :: "nat option \<Rightarrow> bool \<Rightarrow> u32 \<Rightarrow> ipc \<Rightarrow> sched \<Rightarrow> int \<times> ipc_message option \<times> ipc \<times> sched" where
  "ipc_recv task out from_tid q s =
     (case task of
        None \<Rightarrow> (-1, None, q, s)
      | Some task \<Rightarrow>
          if \<not> out then (-1, None, q, s)
          else (case tcb_get_by_tid (tid_of s task) s of
             None \<Rightarrow> (-1, None, q, s)
           | Some t \<Rightarrow>
               if \<not> usable s t then (-1, None, q, s)
               else
                 let port = find_port_for_task (Some task) q;
                     r = get_ring port (tid_of s task) q
                 in case ring_find from_tid r of
                      None \<Rightarrow> (-1, None, q, block_on t from_tid s)
                    | Some k \<Rightarrow>
                        let q' = set_ring port (tid_of s task) (ring_take k r) q;
                            s = (if state_of s t = TASK_STATE_BLOCKED then make_ready t s else s)
                        in (0, Some (ring_at r k), q', wake_sender_waiters_for_receiver (Some t) q' s)))"

definition ipc_reply :: "nat option \<Rightarrow> ipc_message option \<Rightarrow> ipc \<Rightarrow> sched \<Rightarrow> int \<times> ipc \<times> sched" where
  "ipc_reply to reply q s =
     (case (to, reply) of
        (Some to, Some reply) \<Rightarrow>
          (case tcb_get_by_tid (tid_of s to) s of
             None \<Rightarrow> (-1, q, s)
           | Some dest \<Rightarrow>
               if \<not> usable s dest then (-1, q, s)
               else
                 let from = (if sender_tid reply \<noteq> TCB_INVALID_TID then tcb_get_by_tid (sender_tid reply) s else None)
                 in if (case from of Some f \<Rightarrow> usable s f | None \<Rightarrow> False) then ipc_send from (Some dest) (Some reply) q s
                    else
                      let kmsg = reply\<lparr>receiver_tid := tid_of s dest,
                            sender_tid := (if sender_tid reply = TCB_INVALID_TID then -2 else sender_tid reply)\<rparr>;
                          port = find_port_for_task (Some dest) q;
                          r = get_ring port (tid_of s dest) q
                      in if ring_full r then (-1, q, s)
                         else (0, set_ring port (tid_of s dest) (ring_put kmsg r) q, wake_receiver dest (sender_tid kmsg) s))
      | _ \<Rightarrow> (-1, q, s))"

definition ipc_try_send :: "nat option \<Rightarrow> nat option \<Rightarrow> ipc_message option \<Rightarrow> ipc \<Rightarrow> sched \<Rightarrow> int \<times> ipc \<times> sched" where
  "ipc_try_send from to msg q s =
     (case (from, to, msg) of
        (Some _, Some _, Some m) \<Rightarrow> ipc_send from to (Some (m\<lparr>msg_flags := msg_flags m OR IPC_FLAG_NONBLOCK\<rparr>)) q s
      | _ \<Rightarrow> (-1, q, s))"

definition ipc_try_recv :: "nat option \<Rightarrow> bool \<Rightarrow> u32 \<Rightarrow> ipc \<Rightarrow> sched \<Rightarrow> int \<times> ipc_message option \<times> ipc \<times> sched" where
  "ipc_try_recv task out from_tid q s =
     (case task of
        None \<Rightarrow> (-1, None, q, s)
      | Some t \<Rightarrow>
          if \<not> out then (-1, None, q, s)
          else if tcb_get_by_tid (tid_of s t) s = None then (-1, None, q, s)
          else
            let r = get_ring (find_port_for_task task q) (tid_of s t) q
            in if ring_find from_tid r = None then (-1, None, q, s) else ipc_recv task out from_tid q s)"

definition ipc_port_send :: "int \<Rightarrow> nat option \<Rightarrow> ipc_message option \<Rightarrow> ipc \<Rightarrow> sched \<Rightarrow> int \<times> ipc \<times> sched" where
  "ipc_port_send p from msg q s =
     (if from = None \<or> msg = None \<or> \<not> valid_port p q then (-1, q, s)
      else if port_owner (ipc_ports q (nat p)) = None then (-1, q, s)
      else ipc_send from (port_owner (ipc_ports q (nat p))) msg q s)"

definition ipc_port_recv :: "int \<Rightarrow> nat option \<Rightarrow> bool \<Rightarrow> u32 \<Rightarrow> ipc \<Rightarrow> sched \<Rightarrow> int \<times> ipc_message option \<times> ipc \<times> sched" where
  "ipc_port_recv p task out from_tid q s =
     (if task = None \<or> \<not> out \<or> \<not> valid_port p q then (-1, None, q, s)
      else if port_owner (ipc_ports q (nat p)) \<noteq> task then (-1, None, q, s)
      else ipc_recv task out from_tid q s)"

section \<open>Queues as lists\<close>

text \<open>
  The contract of a bounded queue that clients rely on: its contents are a list, putting
  appends to it, taking removes the element at an offset.
\<close>

locale bounded_queue =
  fixes ok :: "'q \<Rightarrow> bool"
    and contents :: "'q \<Rightarrow> 'a list"
    and full :: "'q \<Rightarrow> bool"
    and put :: "'a \<Rightarrow> 'q \<Rightarrow> 'q"
    and take_at :: "nat \<Rightarrow> 'q \<Rightarrow> 'q"
  assumes put_law: "ok q \<Longrightarrow> \<not> full q \<Longrightarrow> ok (put x q) \<and> contents (put x q) = contents q @ [x]"
    and take_law: "ok q \<Longrightarrow> k < length (contents q) \<Longrightarrow>
      ok (take_at k q) \<and> contents (take_at k q) = take k (contents q) @ drop (Suc k) (contents q)"
    and take_room: "ok q \<Longrightarrow> k < length (contents q) \<Longrightarrow> \<not> full (take_at k q)"
begin

text \<open>What is put into an empty queue comes out again, and leaves it empty.\<close>

lemma put_take:
  assumes "ok q" "\<not> full q" "contents q = []"
  shows "contents (put x q) ! 0 = x" "contents (take_at 0 (put x q)) = []"
  using put_law [OF assms(1,2), of x] take_law [of "put x q" 0] assms(3) by auto

text \<open>Taking the oldest element that satisfies a predicate keeps the order of the others.\<close>

lemma take_first:
  assumes "ok q" "k < length (contents q)" "P (contents q ! k)" "\<forall>j<k. \<not> P (contents q ! j)"
  shows "filter P (contents q) = contents q ! k # filter P (contents (take_at k q))"
    and "filter (\<lambda>x. \<not> P x) (contents (take_at k q)) = filter (\<lambda>x. \<not> P x) (contents q)"
proof -
  let ?l = "contents q"
  have l: "?l = take k ?l @ ?l ! k # drop (Suc k) ?l" using assms(2) by (rule id_take_nth_drop)
  have e: "filter P (take k ?l) = []"
    using assms(2,4) by (auto simp: filter_empty_conv in_set_conv_nth)
  have t: "contents (take_at k q) = take k ?l @ drop (Suc k) ?l" using take_law [OF assms(1,2)] by simp
  show "filter P ?l = ?l ! k # filter P (contents (take_at k q))"
    unfolding t by (subst l) (simp add: e assms(3))
  show "filter (\<lambda>x. \<not> P x) (contents (take_at k q)) = filter (\<lambda>x. \<not> P x) ?l"
    unfolding t by (subst (3) l) (simp add: assms(3))
qed

end

definition ring_ok :: "ring \<Rightarrow> bool" where
  "ring_ok r \<longleftrightarrow> length (slots r) = IPC_QUEUE_SIZE \<and> 0 < queue_size r \<and> queue_size r \<le> IPC_QUEUE_SIZE
     \<and> head r < queue_size r \<and> qcount r \<le> queue_size r \<and> tail r = (head r + qcount r) mod queue_size r"

definition ring_list :: "ring \<Rightarrow> ipc_message list" where
  "ring_list r = map (ring_at r) [0..<qcount r]"

lemma length_ring_list [simp]: "length (ring_list r) = qcount r"
  by (simp add: ring_list_def)

lemma ring_list_nth [simp]: "k < qcount r \<Longrightarrow> ring_list r ! k = ring_at r k"
  by (simp add: ring_list_def)

lemma mod_slot_inj:
  assumes "(h + i) mod n = (h + j) mod n" "i < n" "j < n"
  shows "i = (j :: nat)"
proof -
  have le: "i = j" if "i \<le> j" "(h + i) mod n = (h + j) mod n" "j < n" for i j
  proof -
    have "n dvd (h + j) - (h + i)" using that by (metis mod_eq_dvd_iff_nat add_le_cancel_left)
    then have "n dvd j - i" by simp
    then show ?thesis using that by (auto dest: dvd_imp_le)
  qed
  show ?thesis using le [of i j] le [of j i] assms by (cases "i \<le> j") auto
qed

lemma mod_pred:
  assumes "0 < n" "0 < m"
  shows "(if m mod n = 0 then n - 1 else m mod n - 1) = (m - 1) mod (n :: nat)"
  using assms by (cases m) (auto simp: mod_Suc)

lemma ring_put_law:
  assumes "ring_ok r" "\<not> ring_full r"
  shows "ring_ok (ring_put m r)" "ring_list (ring_put m r) = ring_list r @ [m]"
proof -
  note ok = assms(1) [unfolded ring_ok_def] and nf = assms(2) [unfolded ring_full_def]
  have t: "tail r < length (slots r)" using ok by (auto intro: order_less_le_trans [OF mod_less_divisor])
  show "ring_ok (ring_put m r)" using ok nf by (auto simp: ring_ok_def ring_put_def mod_Suc_eq)
  have "ring_at (ring_put m r) k = (if k = qcount r then m else ring_at r k)" if "k \<le> qcount r" for k
  proof (cases "k = qcount r")
    case True
    then show ?thesis using ok t by (simp add: ring_at_def ring_put_def)
  next
    case False
    then have "(head r + k) mod queue_size r \<noteq> tail r"
      using mod_slot_inj [of "head r" k "queue_size r" "qcount r"] that ok nf by auto
    then show ?thesis using False by (simp add: ring_at_def ring_put_def)
  qed
  then show "ring_list (ring_put m r) = ring_list r @ [m]"
    by (simp add: ring_list_def) (simp add: ring_put_def ring_list_def)
qed

lemma fold_shift:
  assumes "b < n" "n \<le> length ms" "k < n" "a \<le> b"
  shows "length (fold (shift_slot h n) [a..<b] ms) = length ms
    \<and> fold (shift_slot h n) [a..<b] ms ! ((h + k) mod n) = (if a \<le> k \<and> k < b then ms ! ((h + k + 1) mod n) else ms ! ((h + k) mod n))"
  using assms(4,1,3)
proof (induction b arbitrary: k rule: dec_induct)
  case (step b)
  define f where "f = fold (shift_slot h n) [a..<b] ms"
  have sh: "fold (shift_slot h n) [a..<Suc b] ms = f[(h + b) mod n := f ! ((h + b + 1) mod n)]"
    using step.hyps(1) by (simp add: f_def shift_slot_def)
  have IH: "length f = length ms" "f ! ((h + b + 1) mod n) = ms ! ((h + b + 1) mod n)"
    using step.IH [of "b + 1"] step.prems by (simp_all add: add.assoc f_def)
  have l: "(h + b) mod n < length f" using IH(1) assms(2) step.prems by (auto intro: order_less_le_trans [OF mod_less_divisor])
  show ?case
  proof (cases "k = b")
    case True
    then show ?thesis using sh IH l step.hyps(1) by simp
  next
    case False
    then have "(h + k) mod n \<noteq> (h + b) mod n" using mod_slot_inj [of h k n b] step.prems by auto
    then show ?thesis using sh IH(1) step.IH [of k] step.prems False by (simp add: less_Suc_eq f_def)
  qed
qed auto

lemma ring_take_law:
  assumes "ring_ok r" "k < qcount r"
  shows "ring_ok (ring_take k r)" "ring_list (ring_take k r) = take k (ring_list r) @ drop (Suc k) (ring_list r)"
proof -
  note ok = assms(1) [unfolded ring_ok_def]
  have at: "ring_at (ring_take k r) j = (if j < k then ring_at r j else ring_at r (Suc j))" if "j < qcount r - 1" for j
  proof (cases "k = 0")
    case True
    then show ?thesis by (simp add: ring_at_def ring_take_def mod_simps)
  next
    case False
    then show ?thesis
      using fold_shift [of "qcount r - 1" "queue_size r" "slots r" j k "head r"] that ok assms(2)
      by (auto simp: ring_at_def ring_take_def)
  qed
  have "((head r + 1) mod queue_size r + (qcount r - 1)) mod queue_size r = (head r + 1 + (qcount r - 1)) mod queue_size r"
    by (simp add: mod_simps)
  moreover have "(if tail r = 0 then queue_size r - 1 else tail r - 1) = (head r + (qcount r - 1)) mod queue_size r"
    using mod_pred [of "queue_size r" "head r + qcount r"] ok assms(2) by (metis Nat.add_diff_assoc One_nat_def Suc_leI add_pos_pos gr0I less_nat_zero_code trans_less_add2)
  ultimately show "ring_ok (ring_take k r)"
    using ok assms(2) fold_shift [of "qcount r - 1" "queue_size r" "slots r" 0 k "head r"]
    by (auto simp: ring_ok_def ring_take_def)
  show "ring_list (ring_take k r) = take k (ring_list r) @ drop (Suc k) (ring_list r)"
  proof (rule nth_equalityI)
    have c: "qcount (ring_take k r) = qcount r - 1" by (simp add: ring_take_def)
    then show "length (ring_list (ring_take k r)) = length (take k (ring_list r) @ drop (Suc k) (ring_list r))"
      using assms(2) by simp
    fix j
    assume "j < length (ring_list (ring_take k r))"
    then have j: "j < qcount r - 1" using c by simp
    then show "ring_list (ring_take k r) ! j = (take k (ring_list r) @ drop (Suc k) (ring_list r)) ! j"
      using at [OF j] c assms(2) by (auto simp: nth_append min_def)
  qed
qed

interpretation ring: bounded_queue ring_ok ring_list ring_full ring_put ring_take
proof
  fix q :: ring and x :: ipc_message
  assume "ring_ok q" "\<not> ring_full q"
  then show "ring_ok (ring_put x q) \<and> ring_list (ring_put x q) = ring_list q @ [x]" using ring_put_law by blast
next
  fix q :: ring and k :: nat
  assume a: "ring_ok q" "k < length (ring_list q)"
  then show "ring_ok (ring_take k q) \<and> ring_list (ring_take k q) = take k (ring_list q) @ drop (Suc k) (ring_list q)"
    using ring_take_law by simp
  show "\<not> ring_full (ring_take k q)" using a by (auto simp: ring_full_def ring_take_def ring_ok_def)
qed

lemma empty_ring_ok: "0 < n \<Longrightarrow> n \<le> IPC_QUEUE_SIZE \<Longrightarrow> ring_ok (empty_ring n)" "ring_list (empty_ring n) = []"
  by (simp_all add: ring_ok_def empty_ring_def ring_list_def)

text \<open>The scan returns the offset of the oldest message that matches.\<close>

definition matches :: "u32 \<Rightarrow> ipc_message \<Rightarrow> bool" where
  "matches from m \<longleftrightarrow> from = -1 \<or> sender_tid m = from"

lemma ring_find_Some:
  assumes "ring_find from r = Some k"
  shows "k < length (ring_list r)" "matches from (ring_list r ! k)" "\<forall>j<k. \<not> matches from (ring_list r ! j)"
proof -
  have "k < qcount r \<and> matches from (ring_at r k) \<and> (\<forall>j<k. \<not> matches from (ring_at r j))"
    using assms by (auto simp: ring_find_def matches_def find_Some_iff split: if_splits)
  then show "k < length (ring_list r)" "matches from (ring_list r ! k)" "\<forall>j<k. \<not> matches from (ring_list r ! j)" by auto
qed

lemma ring_find_None: "ring_find from r = None \<longleftrightarrow> (\<forall>m\<in>set (ring_list r). \<not> matches from m)"
  by (auto simp: ring_find_def matches_def find_None_iff ring_list_def)

section \<open>Inboxes\<close>

definition ipc_ok :: "ipc \<Rightarrow> bool" where
  "ipc_ok q \<longleftrightarrow> (\<forall>p<IPC_MAX_PORTS. ipc_port_used q p \<longrightarrow> ring_ok (port_ring (ipc_ports q p)))
     \<and> (\<forall>i<TCB_MAX_TASKS. ring_ok (task_mailboxes q i) \<and> queue_size (task_mailboxes q i) = IPC_QUEUE_SIZE)"

definition inbox_ring :: "ipc \<Rightarrow> sched \<Rightarrow> nat \<Rightarrow> ring" where
  "inbox_ring q s t = get_ring (find_port_for_task (Some t) q) (tid_of s t) q"

definition inbox :: "ipc \<Rightarrow> sched \<Rightarrow> nat \<Rightarrow> ipc_message list" where
  "inbox q s t = ring_list (inbox_ring q s t)"

definition valid :: "sched \<Rightarrow> nat \<Rightarrow> bool" where
  "valid s t \<longleftrightarrow> tcb_get_by_tid (tid_of s t) s = Some t \<and> usable s t"

lemma tid_to_mbox_idx_less: "tid_to_mbox_idx tid < TCB_MAX_TASKS"
  by (simp add: tid_to_mbox_idx_def)

lemma find_port_used:
  "find_port_for_task task q = Some p \<Longrightarrow> p < IPC_MAX_PORTS \<and> ipc_port_used q p \<and> port_owner (ipc_ports q p) = task"
  by (auto simp: find_port_for_task_def split: if_splits dest!: find_SomeD)

lemma inbox_ring_ok: "ipc_ok q \<Longrightarrow> ring_ok (inbox_ring q s t)"
  using tid_to_mbox_idx_less
  by (auto simp: inbox_ring_def get_ring_def ipc_ok_def dest: find_port_used split: option.split)

lemma find_port_set_ring [simp]: "find_port_for_task task (set_ring port tid r q) = find_port_for_task task q"
proof -
  have "(\<lambda>i. ipc_port_used (set_ring port tid r q) i \<and> port_owner (ipc_ports (set_ring port tid r q) i) = task)
      = (\<lambda>i. ipc_port_used q i \<and> port_owner (ipc_ports q i) = task)"
    by (auto simp: set_ring_def fun_eq_iff split: option.split)
  then show ?thesis by (simp add: find_port_for_task_def)
qed

lemma get_set_ring [simp]: "get_ring port tid (set_ring port tid r q) = r"
  by (simp add: get_ring_def set_ring_def split: option.split)

lemma set_inbox_ok:
  assumes "ipc_ok q" "ring_ok r" "queue_size r = queue_size (inbox_ring q s t)"
  shows "ipc_ok (set_ring (find_port_for_task (Some t) q) (tid_of s t) r q)"
  using assms tid_to_mbox_idx_less
  by (auto simp: ipc_ok_def set_ring_def inbox_ring_def get_ring_def split: option.split option.splits)

lemma set_inbox:
  "tid_of s' t = tid_of s t \<Longrightarrow> inbox (set_ring (find_port_for_task (Some t) q) (tid_of s t) r q) s' t = ring_list r"
  by (simp add: inbox_def inbox_ring_def)

lemma tid_of_upd: "(\<And>r. t_tid (f r) = t_tid r) \<Longrightarrow> tid_of (upd k f s) t = tid_of s t"
  by (simp add: tid_of_def)

lemma tid_of_simps [simp]:
  "tid_of (make_ready k s) t = tid_of s t" "tid_of (block_on k x s) t = tid_of s t" "tid_of (wake_receiver k x s) t = tid_of s t"
  by (simp_all add: make_ready_def block_on_def wake_receiver_def tcb_set_state_def tid_of_upd)

lemma state_simps:
  "state_of (make_ready k s) t = (if t = k then TASK_STATE_READY else state_of s t)"
  "state_of (block_on k x s) t = (if t = k then TASK_STATE_BLOCKED else state_of s t)"
  "waiting_for (block_on k x s) k = x"
  by (simp_all add: make_ready_def block_on_def tcb_set_state_def state_of_def waiting_for_def)

lemma ring_sizes [simp]: "queue_size (ring_put m r) = queue_size r" "queue_size (ring_take k r) = queue_size r"
  by (simp_all add: ring_put_def ring_take_def)

definition stamped :: "sched \<Rightarrow> nat \<Rightarrow> nat \<Rightarrow> ipc_message \<Rightarrow> ipc_message" where
  "stamped s f t m = m\<lparr>sender_tid := tid_of s f, receiver_tid := tid_of s t\<rparr>"

lemma ipc_send_eq:
  assumes "valid s f" "valid s t"
  shows "ipc_send (Some f) (Some t) (Some m) q s =
    (if ring_full (inbox_ring q s t) then
       if msg_flags m AND IPC_FLAG_NONBLOCK \<noteq> 0 then (-1, q, s) else (-2, q, block_on f (tid_of s t) s)
     else (0, set_ring (find_port_for_task (Some t) q) (tid_of s t) (ring_put (stamped s f t m) (inbox_ring q s t)) q,
           wake_receiver t (tid_of s f) s))"
  using assms by (simp add: ipc_send_def valid_def Let_def inbox_ring_def stamped_def)

lemma send_law:
  assumes "ipc_ok q" "valid s f" "valid s t" "\<not> ring_full (inbox_ring q s t)"
  shows "\<exists>q'. ipc_send (Some f) (Some t) (Some m) q s = (0, q', wake_receiver t (tid_of s f) s)
    \<and> ipc_ok q' \<and> (\<forall>s'. tid_of s' t = tid_of s t \<longrightarrow> inbox q' s' t = inbox q s t @ [stamped s f t m])"
proof -
  define r where "r = ring_put (stamped s f t m) (inbox_ring q s t)"
  have r: "ring_ok r" "ring_list r = inbox q s t @ [stamped s f t m]"
    using ring.put_law [OF inbox_ring_ok [OF assms(1)] assms(4)] by (simp_all add: r_def inbox_def)
  moreover have "queue_size r = queue_size (inbox_ring q s t)" by (simp add: r_def)
  ultimately show ?thesis
    using ipc_send_eq [OF assms(2,3), of m q] assms(4) set_inbox_ok [OF assms(1) r(1)] set_inbox [of _ t s q r]
    by (simp add: r_def)
qed

section \<open>Waking senders\<close>

lemma get_by_tid_make_ready:
  "state_of s k \<noteq> TASK_STATE_FREE \<Longrightarrow> tcb_get_by_tid tid (make_ready k s) = tcb_get_by_tid tid s"
proof -
  assume a: "state_of s k \<noteq> TASK_STATE_FREE"
  have "(\<lambda>i. t_tid (task_pool (make_ready k s) i) = tid \<and> state_of (make_ready k s) i \<noteq> TASK_STATE_FREE)
      = (\<lambda>i. t_tid (task_pool s i) = tid \<and> state_of s i \<noteq> TASK_STATE_FREE)"
    using a tid_of_simps(1) [of k s, unfolded tid_of_def] by (auto simp: state_simps fun_eq_iff)
  then show ?thesis by (simp add: tcb_get_by_tid_def)
qed

text \<open>What the scan that wakes senders keeps of the scheduler state.\<close>

definition woken :: "sched \<Rightarrow> sched \<Rightarrow> bool" where
  "woken s s' \<longleftrightarrow> (\<forall>t. tid_of s' t = tid_of s t) \<and> (\<forall>tid. tcb_get_by_tid tid s' = tcb_get_by_tid tid s)
     \<and> (\<forall>t. state_of s' t = state_of s t \<and> waiting_for s' t = waiting_for s t
          \<or> state_of s t = TASK_STATE_BLOCKED \<and> state_of s' t = TASK_STATE_READY)"

lemma wake_one_woken: "woken s (wake_one rtid sp tid s)"
proof (cases "tcb_get_by_tid (of_nat tid) s")
  case (Some t)
  have w: "waiting_for (make_ready t s) u = waiting_for s u" if "u \<noteq> t" for u
    using that by (simp add: make_ready_def tcb_set_state_def waiting_for_def)
  show ?thesis using Some get_by_tid_make_ready [of s t] w by (auto simp: wake_one_def woken_def state_simps)
qed (simp add: wake_one_def woken_def)

lemma woken_state: "woken s s' \<Longrightarrow> state_of s t \<noteq> TASK_STATE_BLOCKED \<Longrightarrow> state_of s' t = state_of s t"
  unfolding woken_def by blast

lemma woken_trans:
  assumes "woken s t" "woken t u"
  shows "woken s u"
proof -
  have "state_of u k = state_of s k \<and> waiting_for u k = waiting_for s k
      \<or> state_of s k = TASK_STATE_BLOCKED \<and> state_of u k = TASK_STATE_READY" for k
  proof (cases "state_of t k = TASK_STATE_READY \<and> state_of s k = TASK_STATE_BLOCKED")
    case True
    then show ?thesis using woken_state [OF assms(2), of k] by simp
  next
    case False
    then have "state_of t k = state_of s k \<and> waiting_for t k = waiting_for s k" using assms(1) unfolding woken_def by blast
    then show ?thesis using assms(2) unfolding woken_def by metis
  qed
  then show ?thesis using assms unfolding woken_def by simp
qed

lemma fold_wake:
  assumes "\<And>s. has s = has0 \<or> \<not> woken s0 s" "\<And>s. rt s = rtid \<or> \<not> woken s0 s"
  shows "woken s0 s \<Longrightarrow> woken s0 (fold (\<lambda>tid s. wake_one (rt s) (has s) tid s) ks s)
    \<and> (has0 \<longrightarrow> (\<forall>k\<in>set ks. \<forall>u. tcb_get_by_tid (of_nat k) s0 = Some u \<longrightarrow> state_of s0 u = TASK_STATE_BLOCKED \<longrightarrow>
         waiting_for s0 u = rtid \<longrightarrow> state_of (fold (\<lambda>tid s. wake_one (rt s) (has s) tid s) ks s) u = TASK_STATE_READY))"
proof (induction ks arbitrary: s rule: rev_induct)
  case (snoc k ks)
  let ?s = "fold (\<lambda>tid s. wake_one (rt s) (has s) tid s) ks s"
  have IH: "woken s0 ?s" using snoc by blast
  have e: "rt ?s = rtid" "has ?s = has0" using assms(1) [of ?s] assms(2) [of ?s] IH by blast+
  have w: "woken s0 (wake_one rtid has0 k ?s)" using woken_trans [OF IH wake_one_woken] .
  have "state_of (wake_one rtid has0 k ?s) u = TASK_STATE_READY"
    if h: has0 and k': "k' \<in> set (ks @ [k])" and u: "tcb_get_by_tid (of_nat k') s0 = Some u"
      "state_of s0 u = TASK_STATE_BLOCKED" "waiting_for s0 u = rtid" for k' u
  proof (cases "k' \<in> set ks")
    case True
    then have "state_of ?s u = TASK_STATE_READY" using snoc h u by blast
    then show ?thesis using woken_state [OF wake_one_woken [of ?s rtid has0 k], of u] by simp
  next
    case False
    then have kk: "k' = k" using k' by simp
    have g: "tcb_get_by_tid (of_nat k) ?s = Some u" using IH u(1) kk by (simp add: woken_def)
    have "state_of ?s u = state_of s0 u \<and> waiting_for ?s u = waiting_for s0 u \<or>
        state_of s0 u = TASK_STATE_BLOCKED \<and> state_of ?s u = TASK_STATE_READY"
      using IH unfolding woken_def by blast
    then show ?thesis
    proof (elim disjE)
      assume "state_of ?s u = state_of s0 u \<and> waiting_for ?s u = waiting_for s0 u"
      then have "wake_one rtid has0 k ?s = make_ready u ?s" using g h u(2,3) by (simp add: wake_one_def)
      then show ?thesis by (simp add: state_simps)
    next
      assume "state_of s0 u = TASK_STATE_BLOCKED \<and> state_of ?s u = TASK_STATE_READY"
      then show ?thesis using g by (simp add: wake_one_def)
    qed
  qed
  then show ?case using w e by simp
qed simp

lemma wake_senders_law:
  "woken s (wake_sender_waiters_for_receiver (Some t) q s)"
  "has_space t q s \<Longrightarrow> 0 < k \<Longrightarrow> k < 2048 \<Longrightarrow> tcb_get_by_tid (of_nat k) s = Some u \<Longrightarrow> state_of s u = TASK_STATE_BLOCKED \<Longrightarrow>
    waiting_for s u = tid_of s t \<Longrightarrow> state_of (wake_sender_waiters_for_receiver (Some t) q s) u = TASK_STATE_READY"
proof -
  have tid: "tid_of s' t = tid_of s t \<or> \<not> woken s s'" for s' unfolding woken_def by blast
  have sp: "has_space t q s' = has_space t q s \<or> \<not> woken s s'" for s'
    using tid [of s'] by (auto simp: has_space_def split: option.splits)
  have r: "woken s s" by (simp add: woken_def)
  note f = fold_wake [of "has_space t q" "has_space t q s" s "\<lambda>s. tid_of s t" "tid_of s t", OF sp tid r, of "[1..<2048]"]
  show "woken s (wake_sender_waiters_for_receiver (Some t) q s)"
    using f by (simp add: wake_sender_waiters_for_receiver_def)
  assume "has_space t q s" "0 < k" "k < 2048" "tcb_get_by_tid (of_nat k) s = Some u" "state_of s u = TASK_STATE_BLOCKED"
    "waiting_for s u = tid_of s t"
  then show "state_of (wake_sender_waiters_for_receiver (Some t) q s) u = TASK_STATE_READY"
    using f by (force simp: wake_sender_waiters_for_receiver_def)
qed

lemma ipc_recv_eq:
  assumes "valid s t"
  shows "ipc_recv (Some t) True from q s =
    (case ring_find from (inbox_ring q s t) of
       None \<Rightarrow> (-1, None, q, block_on t from s)
     | Some k \<Rightarrow>
         let q' = set_ring (find_port_for_task (Some t) q) (tid_of s t) (ring_take k (inbox_ring q s t)) q;
             s1 = (if state_of s t = TASK_STATE_BLOCKED then make_ready t s else s)
         in (0, Some (ring_at (inbox_ring q s t) k), q', wake_sender_waiters_for_receiver (Some t) q' s1))"
  unfolding inbox_ring_def ipc_recv_def using assms by (simp add: valid_def Let_def)

lemma has_space_inbox: "has_space t q s \<longleftrightarrow> \<not> ring_full (inbox_ring q s t)"
  by (simp add: has_space_def inbox_ring_def get_ring_def split: option.split)

lemma recv_law:
  assumes "ipc_ok q" "valid s t" "ring_find from (inbox_ring q s t) = Some k"
  defines "s1 \<equiv> (if state_of s t = TASK_STATE_BLOCKED then make_ready t s else s)"
  shows "\<exists>q' s'. ipc_recv (Some t) True from q s = (0, Some (inbox q s t ! k), q', s') \<and> ipc_ok q'
    \<and> inbox q' s' t = take k (inbox q s t) @ drop (Suc k) (inbox q s t) \<and> k < length (inbox q s t)
    \<and> s' = wake_sender_waiters_for_receiver (Some t) q' s1 \<and> woken s1 s' \<and> has_space t q' s1"
proof -
  let ?r = "inbox_ring q s t"
  define r where "r = ring_take k ?r"
  define q' where "q' = set_ring (find_port_for_task (Some t) q) (tid_of s t) r q"
  define s' where "s' = wake_sender_waiters_for_receiver (Some t) q' s1"
  have k: "k < length (ring_list ?r)" using ring_find_Some(1) [OF assms(3)] .
  note rt = ring.take_law [OF inbox_ring_ok [OF assms(1)] k]
  have "ipc_ok q'" using set_inbox_ok [OF assms(1), of r] rt by (simp add: q'_def r_def)
  moreover have w: "woken s1 s'" unfolding s'_def by (rule wake_senders_law)
  have t1: "tid_of s1 t = tid_of s t" by (simp add: s1_def)
  moreover have "inbox q' s' t = ring_list r"
    unfolding q'_def by (rule set_inbox) (use w t1 in \<open>simp add: woken_def\<close>)
  moreover have "ipc_recv (Some t) True from q s = (0, Some (ring_at ?r k), q', s')"
    using ipc_recv_eq [OF assms(2), of "from" q] assms(3) by (simp add: q'_def r_def s'_def s1_def Let_def)
  moreover have "has_space t q' s1"
    using ring.take_room [OF inbox_ring_ok [OF assms(1)] k] t1
    by (simp add: has_space_inbox inbox_ring_def q'_def r_def)
  ultimately show ?thesis using rt k w by (auto simp: inbox_def r_def s'_def)
qed

text \<open>C18. \<open>ipc_send\<close> between two live tasks keeps every queue well formed. When it reports success,
  the message, stamped with both task identifiers, is the newest of the inbox of the receiver
  and a receiver that waited for it is not blocked any more; the sender does not wait for the message to be received,
  although the documents call sending synchronous by default. It fails only on a full inbox, where nothing is lost:
  a blocking sender is blocked on the receiver, and any other sender gets an error and no change.\<close>

theorem ipc_send_correct:
  assumes "ipc_ok q" "valid s f" "valid s t"
  shows "\<exists>r q' s'. ipc_send (Some f) (Some t) (Some m) q s = (r, q', s') \<and> ipc_ok q' \<and>
    (r = 0 \<and> inbox q' s' t = inbox q s t @ [m\<lparr>sender_tid := tid_of s f, receiver_tid := tid_of s t\<rparr>]
        \<and> \<not> (state_of s' t = TASK_STATE_BLOCKED \<and> (waiting_for s' t = tid_of s f \<or> waiting_for s' t = -1))
     \<or> r = -1 \<and> msg_flags m AND IPC_FLAG_NONBLOCK \<noteq> 0 \<and> q' = q \<and> s' = s \<and> ring_full (inbox_ring q s t)
     \<or> r = -2 \<and> q' = q \<and> ring_full (inbox_ring q s t) \<and> state_of s' f = TASK_STATE_BLOCKED \<and> waiting_for s' f = tid_of s t)"
proof (cases "ring_full (inbox_ring q s t)")
  case True
  then show ?thesis using ipc_send_eq [OF assms(2,3), of m q] assms(1) by (auto simp: state_simps)
next
  case False
  from send_law [OF assms False, of m] obtain q' where
    k: "ipc_send (Some f) (Some t) (Some m) q s = (0, q', wake_receiver t (tid_of s f) s)" "ipc_ok q'"
      "inbox q' (wake_receiver t (tid_of s f) s) t = inbox q s t @ [stamped s f t m]" by auto
  moreover have "\<not> (state_of (wake_receiver t (tid_of s f) s) t = TASK_STATE_BLOCKED \<and>
      (waiting_for (wake_receiver t (tid_of s f) s) t = tid_of s f \<or> waiting_for (wake_receiver t (tid_of s f) s) t = -1))"
    by (simp add: wake_receiver_def state_simps)
  ultimately show ?thesis by (auto simp: stamped_def)
qed

text \<open>C19. \<open>ipc_recv\<close> by a live task takes the oldest message of its inbox that matches the requested
  sender, removes nothing else, keeps every queue well formed, and leaves no sender blocked that waits for this task
  (the scan covers the identifiers below 2048). Without a matching message it blocks the task and changes no queue.\<close>

theorem ipc_recv_correct:
  assumes "ipc_ok q" "valid s t"
  shows "(\<exists>k q' s'. ipc_recv (Some t) True from q s = (0, Some (inbox q s t ! k), q', s') \<and> ipc_ok q'
        \<and> k < length (inbox q s t) \<and> matches from (inbox q s t ! k) \<and> (\<forall>j<k. \<not> matches from (inbox q s t ! j))
        \<and> inbox q' s' t = take k (inbox q s t) @ drop (Suc k) (inbox q s t)
        \<and> (\<forall>u n. 0 < n \<and> n < 2048 \<and> tcb_get_by_tid (of_nat n) s = Some u \<and> u \<noteq> t \<and> state_of s u = TASK_STATE_BLOCKED
             \<and> waiting_for s u = tid_of s t \<longrightarrow> state_of s' u = TASK_STATE_READY))
    \<or> (\<exists>s'. ipc_recv (Some t) True from q s = (-1, None, q, s') \<and> (\<forall>m\<in>set (inbox q s t). \<not> matches from m)
        \<and> state_of s' t = TASK_STATE_BLOCKED \<and> waiting_for s' t = from)"
proof (cases "ring_find from (inbox_ring q s t)")
  case None
  then have "ipc_recv (Some t) True from q s = (-1, None, q, block_on t from s)"
    using ipc_recv_eq [OF assms(2), of "from" q] by simp
  then show ?thesis using None by (simp add: ring_find_None inbox_def state_simps)
next
  case (Some k)
  define s1 where "s1 = (if state_of s t = TASK_STATE_BLOCKED then make_ready t s else s)"
  from recv_law [OF assms Some, folded s1_def] obtain q' s' where
    r: "ipc_recv (Some t) True from q s = (0, Some (inbox q s t ! k), q', s')" "ipc_ok q'"
      "inbox q' s' t = take k (inbox q s t) @ drop (Suc k) (inbox q s t)" "k < length (inbox q s t)"
      "s' = wake_sender_waiters_for_receiver (Some t) q' s1" "has_space t q' s1" by blast
  have "state_of s' u = TASK_STATE_READY"
    if "0 < n" "n < 2048" "tcb_get_by_tid (of_nat n) s = Some u" "u \<noteq> t" "state_of s u = TASK_STATE_BLOCKED"
      "waiting_for s u = tid_of s t" for u n
  proof -
    have "waiting_for (make_ready t s) u = waiting_for s u"
      using that(4) by (simp add: make_ready_def tcb_set_state_def waiting_for_def)
    then have "tcb_get_by_tid (of_nat n) s1 = Some u" "state_of s1 u = TASK_STATE_BLOCKED" "waiting_for s1 u = tid_of s1 t"
      using that assms(2) get_by_tid_make_ready [of s t "of_nat n"]
      by (auto simp: s1_def state_simps valid_def usable_def)
    then show ?thesis using wake_senders_law(2) [OF r(6) that(1,2)] r(5) by simp
  qed
  then show ?thesis using r ring_find_Some [OF Some, folded inbox_def] by blast
qed

section \<open>Traffic of other tasks\<close>

text \<open>Where the inbox of a task is: the port it owns, or the mailbox its identifier selects.\<close>

definition slot :: "ipc \<Rightarrow> sched \<Rightarrow> nat \<Rightarrow> nat + nat" where
  "slot q s t = (case find_port_for_task (Some t) q of Some p \<Rightarrow> Inl p | None \<Rightarrow> Inr (tid_to_mbox_idx (tid_of s t)))"

lemma inbox_slot:
  "inbox q s t = (case slot q s t of Inl p \<Rightarrow> ring_list (port_ring (ipc_ports q p)) | Inr i \<Rightarrow> ring_list (task_mailboxes q i))"
  by (simp add: inbox_def inbox_ring_def get_ring_def slot_def split: option.split)

text \<open>A step of another task leaves the inbox of a task alone.\<close>

definition apart :: "nat \<Rightarrow> ipc \<Rightarrow> sched \<Rightarrow> ipc \<Rightarrow> sched \<Rightarrow> bool" where
  "apart t q s q' s' \<longleftrightarrow> ipc_ok q' \<and> inbox q' s' t = inbox q s t"

lemma set_ring_apart:
  assumes "ipc_ok q" "slot q s u \<noteq> slot q s t" "ring_ok r" "queue_size r = queue_size (inbox_ring q s u)" "tid_of s' t = tid_of s t"
  shows "apart t q s (set_ring (find_port_for_task (Some u) q) (tid_of s u) r q) s'"
proof -
  let ?q = "set_ring (find_port_for_task (Some u) q) (tid_of s u) r q"
  have "get_ring (find_port_for_task (Some t) q) (tid_of s t) ?q = get_ring (find_port_for_task (Some t) q) (tid_of s t) q"
    using assms(2) by (auto simp: slot_def get_ring_def set_ring_def split: option.splits)
  then show ?thesis
    using set_inbox_ok [OF assms(1,3,4)] assms(5) by (simp add: apart_def inbox_def inbox_ring_def)
qed

lemma same_apart: "ipc_ok q \<Longrightarrow> tid_of s' t = tid_of s t \<Longrightarrow> apart t q s q s'"
  by (simp add: apart_def inbox_def inbox_ring_def)

lemma put_apart:
  assumes "ipc_ok q" "slot q s u \<noteq> slot q s t" "\<not> ring_full (inbox_ring q s u)" "tid_of s' t = tid_of s t"
  shows "apart t q s (set_ring (find_port_for_task (Some u) q) (tid_of s u) (ring_put m (inbox_ring q s u)) q) s'"
  using set_ring_apart [OF assms(1,2) _ _ assms(4)] ring.put_law [OF inbox_ring_ok [OF assms(1)] assms(3)] by simp

lemma send_apart:
  assumes "ipc_ok q" "slot q s u \<noteq> slot q s t" "ipc_send from (Some u) msg q s = (r, q', s')"
  shows "apart t q s q' s'"
  using assms put_apart [OF assms(1,2)] same_apart [OF assms(1)]
  by (auto simp: ipc_send_def Let_def inbox_ring_def split: option.splits if_splits)

lemma recv_apart:
  assumes "ipc_ok q" "slot q s u \<noteq> slot q s t" "ipc_recv (Some u) out from q s = (r, m, q', s')"
  shows "apart t q s q' s'"
proof -
  have tk: "apart t q s (set_ring (find_port_for_task (Some u) q) (tid_of s u) (ring_take k (inbox_ring q s u)) q) s''"
    if "ring_find from (inbox_ring q s u) = Some k" "tid_of s'' t = tid_of s t" for k s''
    using set_ring_apart [OF assms(1,2) _ _ that(2)] ring.take_law [OF inbox_ring_ok [OF assms(1)] ring_find_Some(1) [OF that(1)]]
    by simp
  have w: "tid_of (wake_sender_waiters_for_receiver (Some v) x y) t = tid_of y t" for v x y
    using wake_senders_law(1) [of y v x] by (simp add: woken_def)
  show ?thesis
    using assms tk same_apart [OF assms(1)]
    by (auto simp: ipc_recv_def Let_def inbox_ring_def w split: option.splits if_splits)
qed


text \<open>What a reply carries: the identifier of its sender is kept, an invalid one becomes \<open>-2\<close>.\<close>

definition replied :: "sched \<Rightarrow> nat \<Rightarrow> ipc_message \<Rightarrow> ipc_message" where
  "replied s t m = m\<lparr>receiver_tid := tid_of s t,
     sender_tid := (if sender_tid m = TCB_INVALID_TID then -2 else sender_tid m)\<rparr>"

lemma get_by_tid_tid: "tcb_get_by_tid x s = Some f \<Longrightarrow> tid_of s f = x"
  by (auto simp: tcb_get_by_tid_def tid_of_def dest!: find_SomeD split: if_splits)

lemma reply_eq:
  assumes "valid s t" "ipc_reply (Some t) (Some m) q s = (r, q', s')"
  shows "(r = 0 \<and> \<not> ring_full (inbox_ring q s t) \<and>
      q' = set_ring (find_port_for_task (Some t) q) (tid_of s t) (ring_put (replied s t m) (inbox_ring q s t)) q \<or>
    r \<noteq> 0 \<and> q' = q) \<and> (\<forall>u. tid_of s' u = tid_of s u)"
proof (cases "sender_tid m \<noteq> TCB_INVALID_TID \<and> (\<exists>f. tcb_get_by_tid (sender_tid m) s = Some f \<and> usable s f)")
  case True
  then obtain f where f: "sender_tid m \<noteq> TCB_INVALID_TID" "tcb_get_by_tid (sender_tid m) s = Some f" "usable s f" by blast
  then have v: "valid s f" using get_by_tid_tid [OF f(2)] by (simp add: valid_def)
  have "stamped s f t m = replied s t m" using f(1) get_by_tid_tid [OF f(2)] by (simp add: stamped_def replied_def)
  moreover have "ipc_reply (Some t) (Some m) q s = ipc_send (Some f) (Some t) (Some m) q s"
    using assms(1) f by (simp add: ipc_reply_def valid_def Let_def)
  ultimately show ?thesis using assms(2) ipc_send_eq [OF v assms(1), of m q] by (auto split: if_splits)
next
  case False
  then have "ipc_reply (Some t) (Some m) q s = (if ring_full (inbox_ring q s t) then (-1, q, s)
      else (0, set_ring (find_port_for_task (Some t) q) (tid_of s t) (ring_put (replied s t m) (inbox_ring q s t)) q,
        wake_receiver t (sender_tid (replied s t m)) s))"
    using assms(1) by (auto simp: ipc_reply_def valid_def Let_def inbox_ring_def replied_def split: option.splits)
  then show ?thesis using assms(2) by (auto split: if_splits)
qed

lemma reply_apart:
  assumes "ipc_ok q" "valid s u" "slot q s u \<noteq> slot q s t" "ipc_reply (Some u) (Some m) q s = (r, q', s')"
  shows "apart t q s q' s'"
  using reply_eq [OF assms(2,4)] put_apart [OF assms(1,3)] same_apart [OF assms(1)] by auto

lemma slot_port: "slot q s t = Inl p \<Longrightarrow> p < IPC_MAX_PORTS \<and> ipc_port_used q p \<and> port_owner (ipc_ports q p) = Some t"
  using find_port_used [of "Some t" q p] by (simp add: slot_def split: option.splits)

lemma create_apart:
  assumes "ipc_ok q" "ipc_create_port name n q = (r, q')"
  shows "apart t q s q' s"
proof (cases "find (\<lambda>i. \<not> ipc_port_used q i) [0..<IPC_MAX_PORTS]")
  case None
  then show ?thesis using assms same_apart by (simp add: ipc_create_port_def)
next
  case (Some i)
  define n' where "n' = (if n = 0 \<or> IPC_QUEUE_SIZE < n then IPC_QUEUE_SIZE else n)"
  have i: "\<not> ipc_port_used q i" using find_SomeD [OF Some] by simp
  define nm where "nm = (case name of Some x \<Rightarrow> ipc_strncpy (port_name (ipc_ports q i)) x 32
    | None \<Rightarrow> (port_name (ipc_ports q i))[0 := 0])"
  have q': "q' = q\<lparr>ipc_port_used := (ipc_port_used q)(i := True),
      ipc_ports := (ipc_ports q)(i := \<lparr>port_id = int i, port_name = nm, port_owner = None, port_ring = empty_ring n'\<rparr>)\<rparr>"
    using assms(2) Some by (auto simp: ipc_create_port_def Let_def n'_def nm_def)
  have "0 < n'" "n' \<le> IPC_QUEUE_SIZE" by (auto simp: n'_def)
  then have ok: "ipc_ok q'" using assms(1) empty_ring_ok(1) by (auto simp: q' ipc_ok_def)
  have "find_port_for_task (Some t) q' = find_port_for_task (Some t) q"
    using i by (auto simp: q' find_port_for_task_def intro!: arg_cong [where f = "\<lambda>P. find P _"] ext)
  then have "slot q' s t = slot q s t" by (simp add: slot_def)
  moreover have "slot q s t \<noteq> Inl i" using slot_port [of q s t i] i by blast
  ultimately show ?thesis using ok by (auto simp: apart_def inbox_slot q' split: sum.split)
qed

lemma bind_apart:
  assumes "ipc_ok q" "ipc_bind_port task p q s = (r, q')" "slot q' s t = slot q s t"
  shows "apart t q s q' s"
  using assms by (auto simp: ipc_bind_port_def apart_def inbox_slot ipc_ok_def split: option.splits if_splits sum.split)

lemma unbind_apart:
  assumes "ipc_ok q" "ipc_unbind_port task p q = (r, q')" "slot q' s t = slot q s t"
  shows "apart t q s q' s"
  using assms by (auto simp: ipc_unbind_port_def apart_def inbox_slot ipc_ok_def split: option.splits if_splits sum.split)

lemma destroy_apart:
  assumes "ipc_ok q" "ipc_destroy_port p q s = (q', s')" "slot q' s' t = slot q s t"
  shows "apart t q s q' s'"
proof (cases "valid_port p q")
  case False
  then show ?thesis using assms same_apart by (simp add: ipc_destroy_port_def)
next
  case True
  then have "\<not> ipc_port_used q' (nat p)" using assms(2) by (auto simp: ipc_destroy_port_def Let_def)
  then have "slot q s t \<noteq> Inl (nat p)" using slot_port [of q' s' t "nat p"] assms(3) by auto
  then show ?thesis using True assms by (auto simp: ipc_destroy_port_def Let_def apart_def inbox_slot ipc_ok_def split: sum.split)
qed

section \<open>Order of messages\<close>

text \<open>
  The history of the inbox of a task \<open>t\<close>, with the messages accepted for it and the messages it received.
  Live tasks send and reply to \<open>t\<close>, and \<open>t\<close> receives with any filter. The other tasks send,
  receive and reply among themselves, as long as their inbox is not the one of \<open>t\<close>; ports are created,
  bound, unbound and destroyed, as long as the inbox of \<open>t\<close> stays in its place; and the scheduler state changes
  in any way that keeps the identifier of \<open>t\<close>.
\<close>

inductive channel :: "nat \<Rightarrow> ipc \<Rightarrow> sched \<Rightarrow> ipc_message list \<Rightarrow> ipc_message list \<Rightarrow> bool" for t where
  start: "ipc_ok q \<Longrightarrow> valid s t \<Longrightarrow> inbox q s t = [] \<Longrightarrow> channel t q s [] []"
| send: "channel t q s snt rcv \<Longrightarrow> valid s f \<Longrightarrow> valid s t \<Longrightarrow> ipc_send (Some f) (Some t) (Some m) q s = (r, q', s') \<Longrightarrow>
    channel t q' s' (if r = 0 then snt @ [stamped s f t m] else snt) rcv"
| reply: "channel t q s snt rcv \<Longrightarrow> valid s t \<Longrightarrow> ipc_reply (Some t) (Some m) q s = (r, q', s') \<Longrightarrow>
    channel t q' s' (if r = 0 then snt @ [replied s t m] else snt) rcv"
| recv: "channel t q s snt rcv \<Longrightarrow> valid s t \<Longrightarrow> ipc_recv (Some t) True from q s = (r, mo, q', s') \<Longrightarrow>
    channel t q' s' snt (case mo of Some m \<Rightarrow> rcv @ [m] | None \<Rightarrow> rcv)"
| other_send: "channel t q s snt rcv \<Longrightarrow> slot q s u \<noteq> slot q s t \<Longrightarrow> ipc_send f (Some u) mo q s = (r, q', s') \<Longrightarrow>
    channel t q' s' snt rcv"
| other_reply: "channel t q s snt rcv \<Longrightarrow> valid s u \<Longrightarrow> slot q s u \<noteq> slot q s t \<Longrightarrow> ipc_reply (Some u) (Some m) q s = (r, q', s') \<Longrightarrow>
    channel t q' s' snt rcv"
| other_recv: "channel t q s snt rcv \<Longrightarrow> slot q s u \<noteq> slot q s t \<Longrightarrow> ipc_recv (Some u) out from q s = (r, mo, q', s') \<Longrightarrow>
    channel t q' s' snt rcv"
| create: "channel t q s snt rcv \<Longrightarrow> ipc_create_port name n q = (r, q') \<Longrightarrow> channel t q' s snt rcv"
| bind: "channel t q s snt rcv \<Longrightarrow> ipc_bind_port task p q s = (r, q') \<Longrightarrow> slot q' s t = slot q s t \<Longrightarrow> channel t q' s snt rcv"
| unbind: "channel t q s snt rcv \<Longrightarrow> ipc_unbind_port task p q = (r, q') \<Longrightarrow> slot q' s t = slot q s t \<Longrightarrow> channel t q' s snt rcv"
| destroy: "channel t q s snt rcv \<Longrightarrow> ipc_destroy_port p q s = (q', s') \<Longrightarrow> slot q' s' t = slot q s t \<Longrightarrow> channel t q' s' snt rcv"
| sched: "channel t q s snt rcv \<Longrightarrow> tid_of s' t = tid_of s t \<Longrightarrow> channel t q s' snt rcv"

text \<open>Every message accepted is received or waits; the messages of each sender keep their order.\<close>

definition ordered :: "u32 \<Rightarrow> ipc_message list \<Rightarrow> ipc_message list \<Rightarrow> ipc_message list \<Rightarrow> bool" where
  "ordered a snt rcv l \<longleftrightarrow>
     filter (\<lambda>m. sender_tid m = a) snt = filter (\<lambda>m. sender_tid m = a) rcv @ filter (\<lambda>m. sender_tid m = a) l"

lemma ordered_put: "ordered a snt rcv l \<Longrightarrow> ordered a (snt @ [m]) rcv (l @ [m])"
  by (simp add: ordered_def)

lemma ordered_take:
  assumes "ordered a snt rcv l" "k < length l" "matches from (l ! k)" "\<forall>j<k. \<not> matches from (l ! j)"
  shows "ordered a snt (rcv @ [l ! k]) (take k l @ drop (Suc k) l)"
proof -
  let ?P = "\<lambda>m. sender_tid m = a"
  have l: "l = take k l @ l ! k # drop (Suc k) l" using assms(2) by (rule id_take_nth_drop)
  have "filter ?P (take k l) = []" if "?P (l ! k)"
    using assms(2-4) that by (auto simp: filter_empty_conv in_set_conv_nth matches_def)
  then have "filter ?P l = filter ?P (l ! k # take k l @ drop (Suc k) l)" by (subst l) auto
  then show ?thesis using assms(1) by (simp add: ordered_def)
qed

lemma channel_put:
  assumes "ipc_ok q" "\<not> ring_full (inbox_ring q s t)" "tid_of s' t = tid_of s t" "ordered a snt rcv (inbox q s t)"
  shows "ordered a (snt @ [m]) rcv
      (inbox (set_ring (find_port_for_task (Some t) q) (tid_of s t) (ring_put m (inbox_ring q s t)) q) s' t)
    \<and> ipc_ok (set_ring (find_port_for_task (Some t) q) (tid_of s t) (ring_put m (inbox_ring q s t)) q)"
  using ring.put_law [OF inbox_ring_ok [OF assms(1)] assms(2), of m] set_inbox_ok [OF assms(1), of _ s t] ordered_put [OF assms(4), of m]
  by (simp add: set_inbox [OF assms(3)]) (simp add: inbox_def)

lemma channel_recv:
  assumes "ipc_ok q" "valid s t" "ipc_recv (Some t) True from q s = (r, mo, q', s')" "ordered a snt rcv (inbox q s t)"
  shows "ordered a snt (case mo of Some m \<Rightarrow> rcv @ [m] | None \<Rightarrow> rcv) (inbox q' s' t) \<and> ipc_ok q'"
proof (cases "ring_find from (inbox_ring q s t)")
  case None
  then have "mo = None" "q' = q" "tid_of s' t = tid_of s t"
    using assms(3) ipc_recv_eq [OF assms(2), of "from" q] by auto
  then show ?thesis using assms(1,4) by (simp add: inbox_def inbox_ring_def)
next
  case (Some k)
  from recv_law [OF assms(1,2) Some] assms(3) have "mo = Some (inbox q s t ! k)" "ipc_ok q'"
    "inbox q' s' t = take k (inbox q s t) @ drop (Suc k) (inbox q s t)" by auto
  then show ?thesis using ordered_take [OF assms(4) ring_find_Some [OF Some, folded inbox_def]] by simp
qed

text \<open>C17. Messages from one sender arrive in the order in which they were accepted, and no message is
  lost or duplicated: at any point of a history the messages received from a sender, followed by those waiting in the
  inbox, are the messages accepted from it. The history may hold sends, replies and receives of all the tasks and
  operations on ports, as long as no other task shares the mailbox of the receiver and its inbox is not moved:
  binding or losing a port switches it to another queue.\<close>

theorem ipc_channel_fifo:
  assumes "channel t q s snt rcv"
  shows "filter (\<lambda>m. sender_tid m = a) snt = filter (\<lambda>m. sender_tid m = a) rcv @ filter (\<lambda>m. sender_tid m = a) (inbox q s t)
    \<and> ipc_ok q"
proof -
  have "ordered a snt rcv (inbox q s t) \<and> ipc_ok q"
    using assms
  proof (induction rule: channel.induct)
    case (send q s snt rcv f m r q' s')
    then show ?case using ipc_send_eq [OF send(2,3), of m q] channel_put [of q s t s' a snt rcv "stamped s f t m"]
      by (auto simp: inbox_def inbox_ring_def split: if_splits)
  next
    case (reply q s snt rcv m r q' s')
    then show ?case using reply_eq [OF reply(2,3)] channel_put [of q s t s' a snt rcv "replied s t m"]
      by (auto simp: inbox_def inbox_ring_def)
  next
    case (recv q s snt rcv "from" r mo q' s')
    then show ?case using channel_recv by blast
  next
    case (other_send q s snt rcv u f mo r q' s')
    then show ?case using send_apart [OF _ other_send(2,3)] by (simp add: apart_def)
  next
    case (other_reply q s snt rcv u m r q' s')
    then show ?case using reply_apart [OF _ other_reply(2-4)] by (simp add: apart_def)
  next
    case (other_recv q s snt rcv u out "from" r mo q' s')
    then show ?case using recv_apart [OF _ other_recv(2,3)] by (simp add: apart_def)
  next
    case (create q s snt rcv name n r q')
    then show ?case using create_apart [OF _ create(2), of t s] by (simp add: apart_def)
  next
    case (bind q s snt rcv task p r q')
    then show ?case using bind_apart [OF _ bind(2,3)] by (simp add: apart_def)
  next
    case (unbind q s snt rcv task p r q')
    then show ?case using unbind_apart [OF _ unbind(2,3)] by (simp add: apart_def)
  next
    case (destroy q s snt rcv p q' s')
    then show ?case using destroy_apart [OF _ destroy(2,3)] by (simp add: apart_def)
  qed (simp_all add: ordered_def inbox_def inbox_ring_def)
  then show ?thesis by (simp add: ordered_def)
qed

lemma valid_wake_receiver:
  assumes "valid s u"
  shows "valid (wake_receiver t x s) u"
proof (cases "wake_receiver t x s = s")
  case False
  then have w: "wake_receiver t x s = make_ready t s" "state_of s t = TASK_STATE_BLOCKED"
    by (auto simp: wake_receiver_def split: if_splits)
  then show ?thesis using assms get_by_tid_make_ready [of s t] by (auto simp: valid_def usable_def state_simps)
qed (use assms in simp)

text \<open>C36. Two tasks without ports whose identifiers agree modulo 256 share a mailbox: a message sent to one of them is
  delivered to the other.\<close>

theorem mailbox_collision:
  assumes "ipc_ok q" "valid s f" "valid s t" "valid s u"
    and "find_port_for_task (Some t) q = None" "find_port_for_task (Some u) q = None"
    and "tid_to_mbox_idx (tid_of s t) = tid_to_mbox_idx (tid_of s u)" "inbox q s t = []"
  shows "\<exists>q1 s1 q2 s2 m'. ipc_send (Some f) (Some t) (Some m) q s = (0, q1, s1)
    \<and> ipc_recv (Some u) True (-1) q1 s1 = (0, Some m', q2, s2) \<and> receiver_tid m' = tid_of s t"
proof -
  have "\<not> ring_full (inbox_ring q s t)"
    using assms(1,8) inbox_ring_ok [OF assms(1), of s t] by (auto simp: inbox_def ring_list_def ring_full_def ring_ok_def)
  from send_law [OF assms(1-3) this, of m] obtain q1 where
    k: "ipc_send (Some f) (Some t) (Some m) q s = (0, q1, wake_receiver t (tid_of s f) s)" "ipc_ok q1"
      "inbox q1 (wake_receiver t (tid_of s f) s) t = [stamped s f t m]" using assms(8) by auto
  define s1 where "s1 = wake_receiver t (tid_of s f) s"
  have q1: "q1 = set_ring None (tid_of s t) (ring_put (stamped s f t m) (inbox_ring q s t)) q"
    using k(1) ipc_send_eq [OF assms(2,3), of m q] \<open>\<not> ring_full (inbox_ring q s t)\<close> assms(5) by simp
  have same: "inbox_ring q1 s1 u = inbox_ring q1 s1 t"
    using assms(5-7) by (simp add: inbox_ring_def q1 get_ring_def s1_def)
  have l: "ring_list (inbox_ring q1 s1 u) = [stamped s f t m]" using k(3) same by (simp add: inbox_def s1_def)
  have "qcount (inbox_ring q1 s1 u) = 1" using arg_cong [OF l, of length] by simp
  then have "ring_find (-1) (inbox_ring q1 s1 u) = Some 0" by (simp add: ring_find_def)
  from recv_law [OF k(2) valid_wake_receiver [OF assms(4)], of "-1" t "tid_of s f" 0, folded s1_def, OF this]
  obtain q2 s2 where "ipc_recv (Some u) True (-1) q1 s1 = (0, Some (stamped s f t m), q2, s2)"
    using l by (auto simp: inbox_def)
  then show ?thesis using k(1) by (auto simp: s1_def stamped_def)
qed

text \<open>States for the witnesses: empty queues, and a fourth task whose identifier collides with that of task 2.\<close>

definition demo_ipc :: ipc where
  "demo_ipc = \<lparr>ipc_ports = (\<lambda>_. \<lparr>port_id = -1, port_name = replicate 32 0, port_owner = None, port_ring = empty_ring IPC_QUEUE_SIZE\<rparr>),
     ipc_port_used = (\<lambda>_. False), task_mailboxes = (\<lambda>_. empty_ring IPC_QUEUE_SIZE)\<rparr>"

definition demo_sched4 :: sched where
  "demo_sched4 = upd 3 (\<lambda>r. r\<lparr>t_tid := 259, t_state := TASK_STATE_READY\<rparr>) demo_sched"

lemma upt_256: "[0..<TCB_MAX_TASKS] = 0 # 1 # 2 # 3 # [4..<TCB_MAX_TASKS]"
  by (simp add: upt_conv_Cons)

lemma demo_ipc_facts:
  "ipc_ok demo_ipc" "find_port_for_task t demo_ipc = None" "inbox demo_ipc s k = []"
proof -
  show "ipc_ok demo_ipc" by (simp add: ipc_ok_def demo_ipc_def empty_ring_ok) (simp add: empty_ring_def)
  show p: "find_port_for_task t demo_ipc = None" for t by (simp add: find_port_for_task_def demo_ipc_def find_None_iff)
  show "inbox demo_ipc s k = []" by (simp add: inbox_def inbox_ring_def get_ring_def p) (simp add: demo_ipc_def empty_ring_ok)
qed

lemma demo_tids: "tid_of demo_sched4 0 = 1" "tid_of demo_sched4 1 = 2" "tid_of demo_sched4 2 = 3" "tid_of demo_sched4 3 = 259"
  by (simp_all add: tid_of_def demo_sched4_def demo_sched_def)

lemma demo_valid: "valid demo_sched4 0" "valid demo_sched4 1" "valid demo_sched4 2" "valid demo_sched4 3"
  by (simp_all only: valid_def usable_def tcb_get_by_tid_def upt_256 demo_tids)
    (simp_all add: demo_sched4_def demo_sched_def state_of_def blank_tcb_def)

theorem ipc_send_correct_witness:
  "\<exists>q' s'. ipc_send (Some 0) (Some 1) (Some null_message) demo_ipc demo_sched4 = (0, q', s')
    \<and> inbox q' s' 1 = [null_message\<lparr>sender_tid := 1, receiver_tid := 2\<rparr>]"
proof -
  have nf: "\<not> ring_full (inbox_ring demo_ipc demo_sched4 1)"
    using demo_ipc_facts(2) by (simp add: inbox_ring_def get_ring_def) (simp add: demo_ipc_def empty_ring_def ring_full_def)
  have "\<exists>r q' s'. ipc_send (Some 0) (Some 1) (Some null_message) demo_ipc demo_sched4 = (r, q', s')
      \<and> r = 0 \<and> inbox q' s' 1 = [null_message\<lparr>sender_tid := 1, receiver_tid := 2\<rparr>]"
    using ipc_send_correct [OF demo_ipc_facts(1) demo_valid(1,2), of null_message] nf demo_ipc_facts(3)
    by (auto simp: demo_tids [unfolded One_nat_def])
  then show ?thesis by auto
qed

theorem ipc_recv_correct_witness:
  "\<exists>s'. ipc_recv (Some 0) True 2 demo_ipc demo_sched4 = (-1, None, demo_ipc, s') \<and> state_of s' 0 = TASK_STATE_BLOCKED"
  using ipc_recv_correct [OF demo_ipc_facts(1) demo_valid(1), of 2] by (auto simp: demo_ipc_facts(3))

theorem ipc_channel_fifo_witness:
  "\<exists>q s snt. channel 1 q s snt [] \<and> snt \<noteq> [] \<and> filter (\<lambda>m. sender_tid m = 1) snt = filter (\<lambda>m. sender_tid m = 1) (inbox q s 1)"
proof -
  from ipc_send_eq [OF demo_valid(1,2), of null_message demo_ipc] obtain q s where
    k: "ipc_send (Some 0) (Some 1) (Some null_message) demo_ipc demo_sched4 = (0, q, s)"
    using demo_ipc_facts(2) by (simp add: inbox_ring_def get_ring_def) (simp add: demo_ipc_def empty_ring_def ring_full_def)
  have "channel 1 demo_ipc demo_sched4 [] []" by (rule channel.start [OF demo_ipc_facts(1) demo_valid(2) demo_ipc_facts(3)])
  from channel.send [OF this demo_valid(1,2) k] have c: "channel 1 q s [stamped demo_sched4 0 1 null_message] []" by simp
  from ipc_channel_fifo [OF this, of 1] show ?thesis using c by (intro exI [of _ q] exI [of _ s] exI) auto
qed

theorem mailbox_collision_witness:
  "\<exists>q1 s1 q2 s2 m. ipc_send (Some 0) (Some 2) (Some null_message) demo_ipc demo_sched4 = (0, q1, s1)
    \<and> ipc_recv (Some 3) True (-1) q1 s1 = (0, Some m, q2, s2) \<and> receiver_tid m = 3"
  using mailbox_collision [OF demo_ipc_facts(1) demo_valid(1,3,4) demo_ipc_facts(2) demo_ipc_facts(2), of null_message]
    demo_ipc_facts(3) by (simp add: demo_tids tid_to_mbox_idx_def)

end
