(* ===== verification/Unnamedfs.thy ===== *)
theory Unnamedfs
  imports Lib_String
begin

text \<open>
  The file system of \<open>src/unnamedfs.c\<close>.
  \<^item> The device is a range of the flat memory: the superblock at its start, the inode
    table one block further and the data blocks two blocks further. The structures are
    read and written at the offsets of their packed layout, so an inode occupies 4104
    bytes (\<open>inode_at\<close>) and block \<open>b\<close> of the bitmap is found at \<open>data_at\<close>.
  \<^item> The record \<open>ufs\<close> holds the statics of the file: the block bitmap, the descriptors,
    the current mount and the one-entry inode cache.
  \<^item> A string in a local array or an argument is the list of its characters before the NUL;
    a pointer argument that may be NULL is an option, or a flag when only its being NULL matters.
    Names inside inodes stay in memory (\<open>str_eq\<close>, \<open>store_str\<close>).
  \<^item> A function that returns \<open>int\<close> returns an integer, with -1 the error.
  The lemmas at the end show that the search for free blocks is sound and complete; the theory
  \<open>Ufs_Files\<close> builds the correctness of the file operations on them.
\<close>

section \<open>Layout and statics\<close>

definition unamedfs_magic :: u32 where "unamedfs_magic = 0x554E4653"

definition sb_magic :: "mem \<Rightarrow> u32 \<Rightarrow> u32" where "sb_magic m sb = rd32 m sb"
definition sb_total :: "mem \<Rightarrow> u32 \<Rightarrow> u32" where "sb_total m sb = rd32 m (sb + 8)"
definition sb_free :: "mem \<Rightarrow> u32 \<Rightarrow> u32" where "sb_free m sb = rd32 m (sb + 12)"
definition sb_inode_count :: "mem \<Rightarrow> u32 \<Rightarrow> u32" where "sb_inode_count m sb = rd32 m (sb + 16)"
definition set_sb_free :: "mem \<Rightarrow> u32 \<Rightarrow> u32 \<Rightarrow> mem" where "set_sb_free m sb v = wr32 m (sb + 12) v"

definition i_size :: "mem \<Rightarrow> u32 \<Rightarrow> u32" where "i_size m a = rd32 m (a + 4)"
definition i_flags :: "mem \<Rightarrow> u32 \<Rightarrow> u32" where "i_flags m a = rd32 m (a + 8)"
definition i_parent :: "mem \<Rightarrow> u32 \<Rightarrow> u32" where "i_parent m a = rd32 m (a + 12)"
definition i_first :: "mem \<Rightarrow> u32 \<Rightarrow> u32" where "i_first m a = rd32 m (a + 16)"
definition i_blocks :: "mem \<Rightarrow> u32 \<Rightarrow> u32" where "i_blocks m a = rd32 m (a + 20)"
definition set_i_size :: "mem \<Rightarrow> u32 \<Rightarrow> u32 \<Rightarrow> mem" where "set_i_size m a v = wr32 m (a + 4) v"
definition set_i_first :: "mem \<Rightarrow> u32 \<Rightarrow> u32 \<Rightarrow> mem" where "set_i_first m a v = wr32 m (a + 16) v"
definition set_i_blocks :: "mem \<Rightarrow> u32 \<Rightarrow> u32 \<Rightarrow> mem" where "set_i_blocks m a v = wr32 m (a + 20) v"

primrec str_eq :: "mem \<Rightarrow> u32 \<Rightarrow> u8 list \<Rightarrow> bool" where
  "str_eq m a [] = (m a = 0)"
| "str_eq m a (c # s) = (m a = c \<and> str_eq m (a + 1) s)"

primrec store_str :: "mem \<Rightarrow> u32 \<Rightarrow> u8 list \<Rightarrow> mem" where
  "store_str m a [] = m(a := 0)"
| "store_str m a (c # s) = store_str (m(a := c)) (a + 1) s"

record fd_entry =
  fd_ino :: int
  fd_offset :: u32
  fd_flags :: u32
  fd_used :: bool

record fs_mount =
  mnt_device :: u32
  mnt_device_size :: u32
  mnt_sb :: u32
  mnt_inodes :: u32
  mnt_data_blocks :: u32
  mnt_mounted :: bool

record inode_cache_ent =
  ic_name :: "u8 list"
  ic_parent :: u32
  ic_ino :: int
  ic_valid :: bool

record ufs =
  block_bitmap :: "u8 list"
  bitmap_blocks :: nat
  fd_entries :: "fd_entry list"
  current_mount :: fs_mount
  mount_valid :: bool
  icache :: inode_cache_ent

definition inode_at :: "ufs \<Rightarrow> int \<Rightarrow> u32" where
  "inode_at u i = mnt_inodes (current_mount u) + 4104 * word_of_int i"

section \<open>The block bitmap\<close>

definition bitmap_set :: "int \<Rightarrow> ufs \<Rightarrow> ufs" where
  "bitmap_set b u =
     (if 0 \<le> b \<and> nat b < bitmap_blocks u
      then let k = nat b div 8 in
        u\<lparr>block_bitmap := (block_bitmap u)[k := block_bitmap u ! k OR push_bit (nat b mod 8) 1]\<rparr>
      else u)"

definition bitmap_clear :: "int \<Rightarrow> ufs \<Rightarrow> ufs" where
  "bitmap_clear b u =
     (if 0 \<le> b \<and> nat b < bitmap_blocks u
      then let k = nat b div 8 in
        u\<lparr>block_bitmap := (block_bitmap u)[k := block_bitmap u ! k AND NOT (push_bit (nat b mod 8) 1)]\<rparr>
      else u)"

definition bitmap_test :: "int \<Rightarrow> ufs \<Rightarrow> bool" where
  "bitmap_test b u =
     (if b < 0 \<or> bitmap_blocks u \<le> nat b then True
      else drop_bit (nat b mod 8) (block_bitmap u ! (nat b div 8)) AND 1 \<noteq> 0)"

definition bitmap_init :: "nat \<Rightarrow> ufs \<Rightarrow> ufs" where
  "bitmap_init total_blocks u =
     (let u = u\<lparr>block_bitmap := replicate 512 0,
                bitmap_blocks := (if 512 * 8 < total_blocks then 512 * 8 else total_blocks)\<rparr>;
          u = (if 0 < bitmap_blocks u then bitmap_set 0 u else u)
      in if 1 < bitmap_blocks u then bitmap_set 1 u else u)"

definition bitmap_find_free :: "ufs \<Rightarrow> nat option" where
  "bitmap_find_free u = find (\<lambda>b. \<not> bitmap_test (int b) u) [2..<bitmap_blocks u]"

function find_contiguous_from :: "nat \<Rightarrow> nat \<Rightarrow> ufs \<Rightarrow> nat option" where
  "find_contiguous_from start n u =
     (if start + n \<le> bitmap_blocks u
      then case find (\<lambda>j. bitmap_test (int (start + j)) u) [0..<n] of
             None \<Rightarrow> Some start
           | Some j \<Rightarrow> find_contiguous_from (start + (j + 1)) n u
      else None)"
  by pat_completeness auto
termination by (relation "measure (\<lambda>(start, n, u). bitmap_blocks u + 1 - start)") auto

definition bitmap_find_contiguous :: "nat \<Rightarrow> ufs \<Rightarrow> nat option" where
  "bitmap_find_contiguous n u =
     (if n = 0 then Some 0
      else if bitmap_blocks u < n then None
      else find_contiguous_from 2 n u)"

definition bitmap_mark_range :: "int \<Rightarrow> nat \<Rightarrow> bool \<Rightarrow> ufs \<Rightarrow> ufs" where
  "bitmap_mark_range first n used u =
     fold (\<lambda>i. if used then bitmap_set (first + int i) else bitmap_clear (first + int i)) [0..<n] u"

definition rebuild_inode :: "mem \<Rightarrow> nat \<Rightarrow> ufs \<Rightarrow> ufs" where
  "rebuild_inode m i u =
     (let a = inode_at u (int i) in
      if i_flags m a = 0 then u
      else if i_blocks m a = 0 then u
      else bitmap_mark_range (sint (i_first m a)) (unat (i_blocks m a)) True u)"

definition bitmap_rebuild :: "mem \<Rightarrow> ufs \<Rightarrow> ufs" where
  "bitmap_rebuild m u =
     (if \<not> mount_valid u then u
      else fold (rebuild_inode m) [0..<unat (sb_inode_count m (mnt_sb (current_mount u)))] u)"

section \<open>Paths\<close>

abbreviation slash :: u8 where "slash \<equiv> 47"

fun normalize_loop :: "u8 list \<Rightarrow> nat \<Rightarrow> u8 list \<Rightarrow> bool \<Rightarrow> u8 list" where
  "normalize_loop [] out_size out last_slash = out"
| "normalize_loop (c # path) out_size out last_slash =
     (if length out + 1 < out_size
      then if c = slash
           then if out = [] then normalize_loop path out_size (out @ [slash]) True
                else if \<not> last_slash then normalize_loop path out_size (out @ [slash]) True
                else normalize_loop path out_size out last_slash
           else normalize_loop path out_size (out @ [c]) False
      else out)"

definition path_normalize :: "u8 list \<Rightarrow> nat \<Rightarrow> u8 list" where
  "path_normalize path out_size =
     (let out = normalize_loop path out_size [] False;
          out = (if 1 < length out \<and> last out = slash then butlast out else out)
      in if out = [] then [slash] else out)"

fun drop_trailing :: "u8 list \<Rightarrow> nat \<Rightarrow> nat" where
  "drop_trailing path 0 = 0"
| "drop_trailing path (Suc len) =
     (if 1 < Suc len \<and> path ! len = slash then drop_trailing path len else Suc len)"

fun name_start :: "u8 list \<Rightarrow> nat \<Rightarrow> nat" where
  "name_start path 0 = 0"
| "name_start path (Suc start) = (if path ! start \<noteq> slash then name_start path start else Suc start)"

definition path_basename :: "u8 list \<Rightarrow> nat \<Rightarrow> u8 list" where
  "path_basename path outsz =
     (let len = drop_trailing path (length path);
          start = name_start path len;
          n = len - start;
          n = (if outsz \<le> n then outsz - 1 else n)
      in take n (drop start path))"

definition path_dirname :: "u8 list \<Rightarrow> u8 list" where
  "path_dirname path =
     (let tmp = path_normalize path 256 in
      if tmp = [slash] then [slash]
      else case find (\<lambda>i. tmp ! i = slash) (rev [0..<length tmp]) of
             None \<Rightarrow> [slash]
           | Some n \<Rightarrow> if n = 0 then [slash] else take (if 256 \<le> n then 255 else n) tmp)"

lemma length_tl_dropWhile: "length (dropWhile p xs) - Suc 0 \<le> length xs"
  using length_dropWhile_le [of p xs] by linarith

section \<open>Inode lookup\<close>

definition inode_is :: "mem \<Rightarrow> ufs \<Rightarrow> u8 list \<Rightarrow> u32 \<Rightarrow> int \<Rightarrow> bool" where
  "inode_is m u name parent i =
     (let a = inode_at u i in
      i_flags m a \<noteq> 0 \<and> i_parent m a = parent \<and> str_eq m (a + 24) name)"

definition inode_count :: "mem \<Rightarrow> ufs \<Rightarrow> nat" where
  "inode_count m u = unat (sb_inode_count m (mnt_sb (current_mount u)))"

definition find_inode_by_name_parent :: "mem \<Rightarrow> u8 list \<Rightarrow> u32 \<Rightarrow> ufs \<Rightarrow> int \<times> ufs" where
  "find_inode_by_name_parent m name parent u =
     (if \<not> mount_valid u then (- 1, u)
      else let c = icache u;
               hit = ic_valid c \<and> ic_parent c = parent \<and> ic_name c = name
      in if hit \<and> 0 \<le> ic_ino c \<and> ic_ino c < int (inode_count m u) \<and> inode_is m u name parent (ic_ino c)
         then (ic_ino c, u)
         else let u = (if hit then u\<lparr>icache := c\<lparr>ic_valid := False\<rparr>\<rparr> else u)
         in case find (\<lambda>i. inode_is m u name parent (int i)) [0..<inode_count m u] of
              Some i \<Rightarrow> (int i, u\<lparr>icache := \<lparr>ic_name = take 63 name, ic_parent = parent,
                                     ic_ino = int i, ic_valid = True\<rparr>\<rparr>)
            | None \<Rightarrow> (- 1, u))"

definition icache_invalidate :: "int \<Rightarrow> ufs \<Rightarrow> ufs" where
  "icache_invalidate ino u =
     (if ic_valid (icache u) \<and> ic_ino (icache u) = ino
      then u\<lparr>icache := (icache u)\<lparr>ic_valid := False\<rparr>\<rparr> else u)"

definition icache_invalidate_name :: "mem \<Rightarrow> u32 \<Rightarrow> u32 \<Rightarrow> ufs \<Rightarrow> ufs" where
  "icache_invalidate_name m name parent u =
     (if ic_valid (icache u) \<and> ic_parent (icache u) = parent \<and> str_eq m name (ic_name (icache u))
      then u\<lparr>icache := (icache u)\<lparr>ic_valid := False\<rparr>\<rparr> else u)"

definition step_component :: "mem \<Rightarrow> u8 list \<Rightarrow> int \<Rightarrow> ufs \<Rightarrow> int \<times> ufs" where
  "step_component m name cur_ino u =
     (if name = [46] then (cur_ino, u)
      else if name = [46, 46] then
        (if cur_ino \<noteq> 0 then sint (i_parent m (inode_at u cur_ino)) else cur_ino, u)
      else find_inode_by_name_parent m name (word_of_int cur_ino) u)"

function walk_path :: "mem \<Rightarrow> u8 list \<Rightarrow> int \<Rightarrow> ufs \<Rightarrow> int \<times> ufs" where
  "walk_path m [] cur_ino u = (cur_ino, u)"
| "walk_path m (c # norm) cur_ino u =
     (let name = take 63 (takeWhile (\<lambda>c. c \<noteq> slash) (c # norm));
          rest = dropWhile (\<lambda>c. c \<noteq> slash) (c # norm)
      in if name = [] then walk_path m (tl rest) cur_ino u
         else let (nxt, u) = step_component m name cur_ino u
         in if nxt < 0 \<and> name \<noteq> [46] \<and> name \<noteq> [46, 46] then (- 1, u)
            else walk_path m (tl rest) nxt u)"
  by pat_completeness auto
termination
  by (relation "measure (\<lambda>(m, norm, cur_ino, u). length norm)")
    (auto simp: Let_def less_Suc_eq_le length_tl_dropWhile split: if_splits)

definition find_inode_by_path :: "mem \<Rightarrow> u8 list \<Rightarrow> ufs \<Rightarrow> int \<times> ufs" where
  "find_inode_by_path m path u =
     (if \<not> mount_valid u then (- 1, u)
      else let norm = path_normalize path 256
      in if norm = [slash] then (0, u) else walk_path m (drop 1 norm) 0 u)"

definition alloc_inode_slot :: "mem \<Rightarrow> ufs \<Rightarrow> int \<times> mem" where
  "alloc_inode_slot m u =
     (let sb = mnt_sb (current_mount u); n = sb_inode_count m sb in
      case find (\<lambda>i. i_flags m (inode_at u (int i)) = 0) [0..<unat n] of
        Some i \<Rightarrow> (int i, m)
      | None \<Rightarrow> if 256 \<le> n then (- 1, m) else (sint n, wr32 m (sb + 16) (n + 1)))"

section \<open>Block allocation\<close>

definition data_at :: "ufs \<Rightarrow> u32 \<Rightarrow> u32" where
  "data_at u first = mnt_data_blocks (current_mount u) + first * 4096"

definition shrink_blocks :: "mem \<Rightarrow> ufs \<Rightarrow> u32 \<Rightarrow> u32 \<Rightarrow> mem \<times> ufs" where
  "shrink_blocks m u ino need_blocks =
     (let sb = mnt_sb (current_mount u);
          to_free = i_blocks m ino - need_blocks;
          first_to_free = sint (i_first m ino) + sint need_blocks;
          u = bitmap_mark_range first_to_free (unat to_free) False u;
          m = (if sb_free m sb + to_free \<le> sb_total m sb then set_sb_free m sb (sb_free m sb + to_free) else m);
          m = set_i_blocks m ino need_blocks;
          m = (if need_blocks = 0 then set_i_first m ino 0 else m)
      in (m, u))"

definition grow_empty :: "mem \<Rightarrow> ufs \<Rightarrow> u32 \<Rightarrow> u32 \<Rightarrow> int \<times> mem \<times> ufs" where
  "grow_empty m u ino need_blocks =
     (case bitmap_find_contiguous (unat need_blocks) u of
        None \<Rightarrow> (- 1, m, u)
      | Some first \<Rightarrow>
          let sb = mnt_sb (current_mount u);
              u = bitmap_mark_range (int first) (unat need_blocks) True u;
              m = set_sb_free m sb (sb_free m sb - need_blocks);
              m = set_i_first m ino (of_nat first);
              m = set_i_blocks m ino need_blocks
          in (0, m, u))"

definition can_extend :: "ufs \<Rightarrow> int \<Rightarrow> nat \<Rightarrow> bool" where
  "can_extend u next_block extra =
     (\<forall>i\<in>set [0..<extra]. \<not> bitmap_test (next_block + int i) u)"

definition relocate :: "mem \<Rightarrow> ufs \<Rightarrow> u32 \<Rightarrow> u32 \<Rightarrow> int \<times> mem \<times> ufs" where
  "relocate m u ino need_blocks =
     (case bitmap_find_contiguous (unat need_blocks) u of
        None \<Rightarrow> (- 1, m, u)
      | Some new_first \<Rightarrow>
          let sb = mnt_sb (current_mount u);
              old_data = data_at u (i_first m ino);
              new_data = data_at u (of_nat new_first);
              to_copy = i_size m ino;
              to_copy = (if i_blocks m ino * 4096 < to_copy then i_blocks m ino * 4096 else to_copy);
              m = snd (lib_memcpy m new_data old_data to_copy);
              u = bitmap_mark_range (sint (i_first m ino)) (unat (i_blocks m ino)) False u;
              m = set_sb_free m sb (sb_free m sb + i_blocks m ino);
              u = bitmap_mark_range (int new_first) (unat need_blocks) True u;
              m = set_sb_free m sb (sb_free m sb - need_blocks);
              m = set_i_first m ino (of_nat new_first);
              m = set_i_blocks m ino need_blocks
          in (0, m, u))"

definition ensure_blocks :: "mem \<Rightarrow> ufs \<Rightarrow> u32 \<Rightarrow> u32 \<Rightarrow> int \<times> mem \<times> ufs" where
  "ensure_blocks m u ino new_size =
     (let sb = mnt_sb (current_mount u);
          need_blocks = (if new_size = 0 then 0 else (new_size + 4096 - 1) div 4096)
      in if need_blocks = i_blocks m ino then (0, m, u)
         else if need_blocks < i_blocks m ino then (0, shrink_blocks m u ino need_blocks)
         else if sb_free m sb < need_blocks - i_blocks m ino then (- 1, m, u)
         else if i_blocks m ino = 0 then grow_empty m u ino need_blocks
         else let extra = need_blocks - i_blocks m ino;
                  next_block = sint (i_first m ino) + sint (i_blocks m ino)
         in if can_extend u next_block (unat extra)
            then let u = bitmap_mark_range next_block (unat extra) True u;
                     m = set_sb_free m sb (sb_free m sb - extra);
                     m = set_i_blocks m ino need_blocks
                 in (0, m, u)
            else relocate m u ino need_blocks)"

section \<open>The file system operations\<close>

definition unamedfs_format :: "mem \<Rightarrow> u32 \<Rightarrow> u32 \<Rightarrow> int \<times> mem" where
  "unamedfs_format m device sz =
     (if device = 0 \<or> sz < 4096 * 3 then (- 1, m)
      else let m = snd (lib_memset m device 0 4096);
               m = wr32 m device unamedfs_magic;
               m = wr32 m (device + 4) 1;
               m = wr32 m (device + 8) (sz div 4096);
               m = wr32 m (device + 12) (sb_total m device - 2);
               m = wr32 m (device + 16) 0;
               m = wr32 m (device + 20) 2;
               m = snd (lib_memset m (device + 4096) 0 4096);
               root = device + 4096;
               m = wr32 m root 0;
               m = set_i_size m root 0;
               m = wr32 m (root + 8) 2;
               m = wr32 m (root + 12) 0;
               m = set_i_first m root 0;
               m = set_i_blocks m root 0;
               m = m(root + 24 := slash, root + 25 := 0);
               m = wr32 m (device + 16) 1
           in (0, m))"

definition closed_fd :: fd_entry where
  "closed_fd = \<lparr>fd_ino = - 1, fd_offset = 0, fd_flags = 0, fd_used = False\<rparr>"

definition unamedfs_mount :: "mem \<Rightarrow> fs_mount option \<Rightarrow> u32 \<Rightarrow> u32 \<Rightarrow> ufs \<Rightarrow> int \<times> fs_mount option \<times> ufs" where
  "unamedfs_mount m mnt device sz u =
     (if mnt = None \<or> device = 0 then (- 1, mnt, u)
      else if sb_magic m device \<noteq> unamedfs_magic then (- 1, mnt, u)
      else let mnt' = \<lparr>mnt_device = device, mnt_device_size = sz, mnt_sb = device,
                       mnt_inodes = device + 4096, mnt_data_blocks = device + 4096 * 2, mnt_mounted = True\<rparr>;
               u = u\<lparr>current_mount := mnt', mount_valid := True\<rparr>;
               u = bitmap_init (unat (sb_total m device)) u;
               u = bitmap_rebuild m u;
               u = u\<lparr>fd_entries := map (\<lambda>_. closed_fd) [0..<64], icache := (icache u)\<lparr>ic_valid := False\<rparr>\<rparr>
           in (0, Some mnt', u))"

definition unamedfs_unmount :: "fs_mount option \<Rightarrow> ufs \<Rightarrow> int \<times> fs_mount option \<times> ufs" where
  "unamedfs_unmount mnt u =
     (case mnt of
        None \<Rightarrow> (- 1, None, u)
      | Some r \<Rightarrow> (0, Some (r\<lparr>mnt_mounted := False\<rparr>), u\<lparr>mount_valid := False\<rparr>))"

definition set_fd :: "nat \<Rightarrow> (fd_entry \<Rightarrow> fd_entry) \<Rightarrow> ufs \<Rightarrow> ufs" where
  "set_fd i f u = u\<lparr>fd_entries := (fd_entries u)[i := f (fd_entries u ! i)]\<rparr>"

definition unamedfs_open :: "mem \<Rightarrow> u8 list option \<Rightarrow> u32 \<Rightarrow> ufs \<Rightarrow> int \<times> ufs" where
  "unamedfs_open m path flags u =
     (case path of
        None \<Rightarrow> (- 1, u)
      | Some path \<Rightarrow>
          if \<not> mount_valid u then (- 1, u)
          else let (ino, u) = find_inode_by_path m (path_normalize path 256) u
          in if ino < 0 then (- 1, u)
             else case find (\<lambda>i. \<not> fd_used (fd_entries u ! i)) [0..<64] of
                    Some i \<Rightarrow> (int i, set_fd i (\<lambda>_. \<lparr>fd_ino = ino, fd_offset = 0, fd_flags = flags, fd_used = True\<rparr>) u)
                  | None \<Rightarrow> (- 1, u))"

definition valid_fd :: "int \<Rightarrow> ufs \<Rightarrow> bool" where
  "valid_fd fd u \<longleftrightarrow> \<not> (fd < 0 \<or> 64 \<le> fd) \<and> fd_used (fd_entries u ! nat fd)"

definition unamedfs_close :: "int \<Rightarrow> ufs \<Rightarrow> int \<times> ufs" where
  "unamedfs_close fd u =
     (if \<not> valid_fd fd u then (- 1, u)
      else (0, set_fd (nat fd) (\<lambda>e. e\<lparr>fd_used := False, fd_ino := - 1, fd_offset := 0\<rparr>) u))"

definition fd_inode :: "int \<Rightarrow> ufs \<Rightarrow> u32" where
  "fd_inode fd u = inode_at u (fd_ino (fd_entries u ! nat fd))"

definition unamedfs_read :: "mem \<Rightarrow> int \<Rightarrow> u32 \<Rightarrow> u32 \<Rightarrow> ufs \<Rightarrow> int \<times> mem \<times> ufs" where
  "unamedfs_read m fd buf count u =
     (if \<not> valid_fd fd u then (- 1, m, u)
      else if buf = 0 then (- 1, m, u)
      else if \<not> mount_valid u then (- 1, m, u)
      else let inode = fd_inode fd u;
               off = fd_offset (fd_entries u ! nat fd)
      in if i_flags m inode AND 2 \<noteq> 0 then (- 1, m, u)
         else if i_size m inode \<le> off then (0, m, u)
         else let count = (if i_size m inode - off < count then i_size m inode - off else count)
         in if count = 0 then (0, m, u)
         else if i_blocks m inode = 0 then (0, m, u)
         else let avail = i_blocks m inode * 4096
         in if avail \<le> off then (0, m, u)
         else let count = (if avail < off + count then avail - off else count);
                  base = data_at u (i_first m inode);
                  m = snd (lib_memcpy m buf (base + off) count)
              in (sint count, m, set_fd (nat fd) (\<lambda>e. e\<lparr>fd_offset := fd_offset e + count\<rparr>) u))"

definition write_data :: "mem \<Rightarrow> int \<Rightarrow> u32 \<Rightarrow> u32 \<Rightarrow> ufs \<Rightarrow> int \<times> mem \<times> ufs" where
  "write_data m fd buf count u =
     (let inode = fd_inode fd u;
          off = fd_offset (fd_entries u ! nat fd);
          new_end = off + count;
          base = data_at u (i_first m inode);
          m = snd (lib_memcpy m (base + off) buf count);
          m = (if i_size m inode < new_end then set_i_size m inode new_end else m)
      in (sint count, m, set_fd (nat fd) (\<lambda>e. e\<lparr>fd_offset := fd_offset e + count\<rparr>) u))"

definition unamedfs_write :: "mem \<Rightarrow> int \<Rightarrow> u32 \<Rightarrow> u32 \<Rightarrow> ufs \<Rightarrow> int \<times> mem \<times> ufs" where
  "unamedfs_write m fd buf count u =
     (if \<not> valid_fd fd u then (- 1, m, u)
      else if buf = 0 then (- 1, m, u)
      else if \<not> mount_valid u then (- 1, m, u)
      else let inode = fd_inode fd u;
               off = fd_offset (fd_entries u ! nat fd)
      in if i_flags m inode AND 2 \<noteq> 0 then (- 1, m, u)
         else if count = 0 then (0, m, u)
         else let (r, m, u) = ensure_blocks m u inode (off + count)
         in if r = 0 then write_data m fd buf count u
         else let max_blocks_free = sb_free m (mnt_sb (current_mount u));
                  max_bytes = (i_blocks m inode + max_blocks_free) * 4096
         in if max_bytes \<le> off then (- 1, m, u)
         else let can_write = max_bytes - off;
                  can_write = (if count < can_write then count else can_write);
                  (r, m, u) = ensure_blocks m u inode (off + can_write)
         in if r \<noteq> 0 then (- 1, m, u) else write_data m fd buf can_write u)"

definition unamedfs_lseek :: "mem \<Rightarrow> int \<Rightarrow> int \<Rightarrow> int \<Rightarrow> ufs \<Rightarrow> int \<times> ufs" where
  "unamedfs_lseek m fd offset whence u =
     (if \<not> valid_fd fd u then (- 1, u)
      else if \<not> mount_valid u then (- 1, u)
      else let new_off =
             (if whence = 0 then Some offset
              else if whence = 1 then Some (sint (fd_offset (fd_entries u ! nat fd)) + offset)
              else if whence = 2 then Some (sint (i_size m (fd_inode fd u)) + offset)
              else None)
      in case new_off of
           None \<Rightarrow> (- 1, u)
         | Some new_off \<Rightarrow>
             if new_off < 0 then (- 1, u)
             else (new_off, set_fd (nat fd) (\<lambda>e. e\<lparr>fd_offset := word_of_int new_off\<rparr>) u))"

definition init_inode :: "mem \<Rightarrow> u32 \<Rightarrow> int \<Rightarrow> u32 \<Rightarrow> int \<Rightarrow> u8 list \<Rightarrow> mem" where
  "init_inode m ni slot flags parent_ino base =
     (let m = snd (lib_memset m ni 0 4104);
          m = wr32 m ni (word_of_int slot);
          m = set_i_size m ni 0;
          m = wr32 m (ni + 8) flags;
          m = wr32 m (ni + 12) (word_of_int parent_ino);
          m = set_i_first m ni 0;
          m = set_i_blocks m ni 0
      in store_str m (ni + 24) (take 63 base))"

definition create_inode :: "mem \<Rightarrow> u8 list \<Rightarrow> u32 \<Rightarrow> ufs \<Rightarrow> int \<times> mem \<times> ufs" where
  "create_inode m norm_path flags u =
     (let dir = path_dirname norm_path;
          base = path_basename norm_path 64
      in if base = [] then (- 1, m, u)
         else if 64 \<le> length base then (- 1, m, u)
         else let (parent_ino, u) = find_inode_by_path m dir u
         in if parent_ino < 0 then (- 1, m, u)
         else if i_flags m (inode_at u parent_ino) AND 2 = 0 then (- 1, m, u)
         else let (found, u) = find_inode_by_name_parent m base (word_of_int parent_ino) u
         in if 0 \<le> found then (- 1, m, u)
         else let (slot, m) = alloc_inode_slot m u
         in if slot < 0 then (- 1, m, u)
         else (slot, init_inode m (inode_at u slot) slot flags parent_ino base,
               u\<lparr>icache := (icache u)\<lparr>ic_valid := False\<rparr>\<rparr>))"

definition unamedfs_mkdir :: "mem \<Rightarrow> bool \<Rightarrow> u8 list option \<Rightarrow> ufs \<Rightarrow> int \<times> mem \<times> ufs" where
  "unamedfs_mkdir m mnt path u =
     (case path of
        None \<Rightarrow> (- 1, m, u)
      | Some path \<Rightarrow>
          if \<not> mnt \<or> \<not> mount_valid u then (- 1, m, u)
          else let norm = path_normalize path 256
          in if norm = [slash] then (- 1, m, u)
             else let (r, m, u) = create_inode m norm 2 u in (if r < 0 then - 1 else 0, m, u))"

definition unamedfs_create :: "mem \<Rightarrow> bool \<Rightarrow> u8 list option \<Rightarrow> ufs \<Rightarrow> int \<times> mem \<times> ufs" where
  "unamedfs_create m mnt path u =
     (case path of
        None \<Rightarrow> (- 1, m, u)
      | Some path \<Rightarrow>
          if \<not> mnt then (- 1, m, u)
          else let (r, m, u) = create_inode m (path_normalize path 256) 1 u
               in (if r < 0 then - 1 else 0, m, u))"

definition close_fds_of :: "int \<Rightarrow> ufs \<Rightarrow> ufs" where
  "close_fds_of ino u =
     u\<lparr>fd_entries := map (\<lambda>e. if fd_used e \<and> fd_ino e = ino then e\<lparr>fd_used := False, fd_ino := - 1\<rparr> else e)
        (fd_entries u)\<rparr>"

definition drop_inode :: "mem \<Rightarrow> u32 \<Rightarrow> int \<Rightarrow> ufs \<Rightarrow> mem \<times> ufs" where
  "drop_inode m ino ino_idx u =
     (let u = icache_invalidate ino_idx u;
          u = icache_invalidate_name m (ino + 24) (i_parent m ino) u
      in (snd (lib_memset m ino 0 4104), u))"

definition unamedfs_unlink :: "mem \<Rightarrow> u8 list option \<Rightarrow> ufs \<Rightarrow> int \<times> mem \<times> ufs" where
  "unamedfs_unlink m path u =
     (case path of
        None \<Rightarrow> (- 1, m, u)
      | Some path \<Rightarrow>
          if \<not> mount_valid u then (- 1, m, u)
          else let norm = path_normalize path 256
          in if norm = [slash] then (- 1, m, u)
          else let (ino_idx, u) = find_inode_by_path m norm u
          in if ino_idx < 0 then (- 1, m, u)
          else let ino = inode_at u ino_idx; sb = mnt_sb (current_mount u)
          in if i_flags m ino AND 2 \<noteq> 0 then (- 1, m, u)
          else let u = (if i_blocks m ino \<noteq> 0
                        then bitmap_mark_range (sint (i_first m ino)) (unat (i_blocks m ino)) False u else u);
                   m = (if i_blocks m ino \<noteq> 0 \<and> sb_free m sb + i_blocks m ino \<le> sb_total m sb
                        then set_sb_free m sb (sb_free m sb + i_blocks m ino) else m)
               in (0, drop_inode m ino ino_idx (close_fds_of ino_idx u)))"

definition unamedfs_rmdir :: "mem \<Rightarrow> u8 list option \<Rightarrow> ufs \<Rightarrow> int \<times> mem \<times> ufs" where
  "unamedfs_rmdir m path u =
     (case path of
        None \<Rightarrow> (- 1, m, u)
      | Some path \<Rightarrow>
          if \<not> mount_valid u then (- 1, m, u)
          else let norm = path_normalize path 256
          in if norm = [slash] then (- 1, m, u)
          else let (ino_idx, u) = find_inode_by_path m norm u
          in if ino_idx < 0 then (- 1, m, u)
          else let ino = inode_at u ino_idx; sb = mnt_sb (current_mount u)
          in if i_flags m ino AND 2 = 0 then (- 1, m, u)
          else if \<exists>i\<in>set [0..<inode_count m u]. i_flags m (inode_at u (int i)) \<noteq> 0 \<and>
                    i_parent m (inode_at u (int i)) = word_of_int ino_idx
          then (- 1, m, u)
          else let u = (if i_blocks m ino \<noteq> 0
                        then bitmap_mark_range (sint (i_first m ino)) (unat (i_blocks m ino)) False u else u);
                   m = (if i_blocks m ino \<noteq> 0 then set_sb_free m sb (sb_free m sb + i_blocks m ino) else m)
               in (0, drop_inode m ino ino_idx u))"

definition unamedfs_stat :: "mem \<Rightarrow> u8 list option \<Rightarrow> u32 \<Rightarrow> ufs \<Rightarrow> int \<times> mem \<times> ufs" where
  "unamedfs_stat m path stat_buf u =
     (case path of
        None \<Rightarrow> (- 1, m, u)
      | Some path \<Rightarrow>
          if stat_buf = 0 \<or> \<not> mount_valid u then (- 1, m, u)
          else let (ino_idx, u) = find_inode_by_path m (path_normalize path 256) u
          in if ino_idx < 0 then (- 1, m, u)
          else let ino = inode_at u ino_idx;
                   m = snd (lib_memset m stat_buf 0 48);
                   m = wr32 m (stat_buf + 4) (if i_flags m ino AND 2 \<noteq> 0 then 2 else 1);
                   m = wr32 m (stat_buf + 8) (i_size m ino);
                   m = wr32 m (stat_buf + 12) (i_blocks m ino);
                   m = wr32 m stat_buf (1 OR 2)
               in (0, m, u))"

section \<open>Correctness of the block bitmap\<close>

definition bitmap_ok :: "ufs \<Rightarrow> bool" where
  "bitmap_ok u \<longleftrightarrow> length (block_bitmap u) = 512 \<and> bitmap_blocks u \<le> 4096"

lemma low_bit_set: "(w :: u8) AND 1 \<noteq> 0 \<longleftrightarrow> bit w 0"
  by (simp add: and_one_eq mod_2_eq_odd bit_0)

lemma bitmap_test_bit:
  "bitmap_test b u \<longleftrightarrow> b < 0 \<or> bitmap_blocks u \<le> nat b \<or> bit (block_bitmap u ! (nat b div 8)) (nat b mod 8)"
  using low_bit_set [of "drop_bit (nat b mod 8) (block_bitmap u ! (nat b div 8))"]
  by (auto simp: bitmap_test_def bit_drop_bit_eq)

lemma block_index:
  assumes "bitmap_ok u" "nat b < bitmap_blocks u"
  shows "nat b div 8 < length (block_bitmap u)"
  using assms by (simp add: bitmap_ok_def div_less_iff_less_mult)

lemma same_block:
  assumes "0 \<le> b" "0 \<le> c" "nat b div 8 = nat c div 8" "nat b mod 8 = nat c mod 8"
  shows "b = c"
  using assms by (metis div_mod_decomp eq_nat_nat_iff)

lemma bit_mask_8: "n < 8 \<Longrightarrow> bit (2 ^ n :: u8) k \<longleftrightarrow> k = n"
  by (auto simp: bit_simps)

lemma bitmap_test_set:
  assumes "bitmap_ok u"
  shows "bitmap_test b (bitmap_set c u) \<longleftrightarrow> b = c \<or> bitmap_test b u"
proof (cases "0 \<le> c \<and> nat c < bitmap_blocks u")
  case True
  have "nat c mod 8 < 8" by simp
  then show ?thesis
    using True block_index [OF assms, of c] same_block [of b c]
    by (auto simp: bitmap_test_bit bitmap_set_def Let_def nth_list_update bit_or_iff bit_mask_8)
qed (auto simp: bitmap_test_bit bitmap_set_def)

lemma bitmap_test_clear:
  assumes "bitmap_ok u"
  shows "bitmap_test b (bitmap_clear c u) \<longleftrightarrow>
    bitmap_test b u \<and> (b \<noteq> c \<or> b < 0 \<or> int (bitmap_blocks u) \<le> b)"
proof (cases "0 \<le> c \<and> nat c < bitmap_blocks u")
  case True
  have "nat c mod 8 < 8" by simp
  then show ?thesis
    using True block_index [OF assms, of c] same_block [of b c]
    by (auto simp: bitmap_test_bit bitmap_clear_def Let_def nth_list_update bit_and_iff bit_not_iff bit_mask_8)
qed (auto simp: bitmap_test_bit bitmap_clear_def)

lemma bitmap_set_frame:
  "bitmap_blocks (bitmap_set c u) = bitmap_blocks u" "bitmap_ok (bitmap_set c u) = bitmap_ok u"
  "fd_entries (bitmap_set c u) = fd_entries u" "current_mount (bitmap_set c u) = current_mount u"
  "mount_valid (bitmap_set c u) = mount_valid u" "icache (bitmap_set c u) = icache u"
  by (simp_all add: bitmap_set_def bitmap_ok_def Let_def)

lemma bitmap_clear_frame:
  "bitmap_blocks (bitmap_clear c u) = bitmap_blocks u" "bitmap_ok (bitmap_clear c u) = bitmap_ok u"
  "fd_entries (bitmap_clear c u) = fd_entries u" "current_mount (bitmap_clear c u) = current_mount u"
  "mount_valid (bitmap_clear c u) = mount_valid u" "icache (bitmap_clear c u) = icache u"
  by (simp_all add: bitmap_clear_def bitmap_ok_def Let_def)

lemma mark_range_Suc:
  "bitmap_mark_range first (Suc n) used u =
    (if used then bitmap_set (first + int n) else bitmap_clear (first + int n)) (bitmap_mark_range first n used u)"
  by (simp add: bitmap_mark_range_def)

lemma mark_range_frame [frame_simps]:
  "bitmap_blocks (bitmap_mark_range first n used u) = bitmap_blocks u"
  "bitmap_ok (bitmap_mark_range first n used u) = bitmap_ok u"
  "fd_entries (bitmap_mark_range first n used u) = fd_entries u"
  "current_mount (bitmap_mark_range first n used u) = current_mount u"
  "mount_valid (bitmap_mark_range first n used u) = mount_valid u"
  "icache (bitmap_mark_range first n used u) = icache u"
  by (induction n) (auto simp: mark_range_Suc bitmap_set_frame bitmap_clear_frame bitmap_mark_range_def [of _ 0])

lemma test_mark_used:
  assumes "bitmap_ok u"
  shows "bitmap_test b (bitmap_mark_range first n True u) \<longleftrightarrow>
    bitmap_test b u \<or> first \<le> b \<and> b < first + int n"
  by (induction n) (auto simp: mark_range_Suc bitmap_test_set assms mark_range_frame bitmap_mark_range_def [of _ 0])

lemma test_mark_free:
  assumes "bitmap_ok u"
  shows "bitmap_test b (bitmap_mark_range first n False u) \<longleftrightarrow>
    bitmap_test b u \<and> (\<not> (first \<le> b \<and> b < first + int n) \<or> b < 0 \<or> int (bitmap_blocks u) \<le> b)"
  by (induction n) (auto simp: mark_range_Suc bitmap_test_clear assms mark_range_frame bitmap_mark_range_def [of _ 0])

lemma find_upt_None: "find p [0..<n] = None \<longleftrightarrow> (\<forall>i<n. \<not> p i)"
  by (auto simp: find_None_iff)

lemma find_upt_Some: "find p [0..<n] = Some j \<Longrightarrow> j < n \<and> p j \<and> (\<forall>i<j. \<not> p i)"
  by (auto simp: find_Some_iff)

definition free_run :: "ufs \<Rightarrow> nat \<Rightarrow> nat \<Rightarrow> bool" where
  "free_run u s n \<longleftrightarrow> s + n \<le> bitmap_blocks u \<and> (\<forall>j<n. \<not> bitmap_test (int (s + j)) u)"

lemma find_contiguous_from_correct:
  "0 < n \<Longrightarrow> case find_contiguous_from start n u of
     Some s \<Rightarrow> start \<le> s \<and> free_run u s n \<and> (\<forall>s'. start \<le> s' \<and> s' < s \<longrightarrow> \<not> free_run u s' n)
   | None \<Rightarrow> \<forall>s. start \<le> s \<longrightarrow> \<not> free_run u s n"
proof (induction start n u rule: find_contiguous_from.induct)
  case (1 start n u)
  note [simp del] = find_contiguous_from.simps
  show ?case
  proof (cases "start + n \<le> bitmap_blocks u")
    case False
    then show ?thesis by (subst find_contiguous_from.simps) (simp add: free_run_def)
  next
    case in_range: True
    show ?thesis
    proof (cases "find (\<lambda>j. bitmap_test (int (start + j)) u) [0..<n]")
      case None
      have "find_contiguous_from start n u = Some start"
        using in_range None by (subst find_contiguous_from.simps) simp
      then show ?thesis using in_range None by (auto simp: free_run_def find_upt_None)
    next
      case (Some j)
      then have j: "j < n" "bitmap_test (int (start + j)) u" by (auto dest: find_upt_Some)
      have skip: "\<not> free_run u s n" if "start \<le> s" "s < start + (j + 1)" for s
      proof
        assume "free_run u s n"
        moreover have "start + j - s < n" "s + (start + j - s) = start + j" using that j(1) by linarith+
        ultimately show False using j(2) unfolding free_run_def by metis
      qed
      have eq: "find_contiguous_from start n u = find_contiguous_from (start + (j + 1)) n u"
        using in_range Some by (subst find_contiguous_from.simps) simp
      have IH: "case find_contiguous_from (start + (j + 1)) n u of
          Some s \<Rightarrow> start + (j + 1) \<le> s \<and> free_run u s n \<and>
            (\<forall>s'. start + (j + 1) \<le> s' \<and> s' < s \<longrightarrow> \<not> free_run u s' n)
        | None \<Rightarrow> \<forall>s. start + (j + 1) \<le> s \<longrightarrow> \<not> free_run u s n"
        by (rule 1(1) [OF in_range Some 1(2)])
      show ?thesis unfolding eq using IH skip
        by (auto split: option.splits) (meson not_less)+
    qed
  qed
qed

lemma find_contiguous_spec:
  assumes "0 < n"
  shows "case bitmap_find_contiguous n u of
     Some s \<Rightarrow> 2 \<le> s \<and> free_run u s n \<and> (\<forall>s'. 2 \<le> s' \<and> s' < s \<longrightarrow> \<not> free_run u s' n)
   | None \<Rightarrow> \<forall>s. 2 \<le> s \<longrightarrow> \<not> free_run u s n"
  using assms find_contiguous_from_correct [OF assms, of 2 u]
  by (auto simp: bitmap_find_contiguous_def free_run_def)

end
