(* ===== verification/Ufs_Files.thy ===== *)
theory Ufs_Files
  imports Unnamedfs
begin

text \<open>
  Correctness of the file system of \<open>Unnamedfs\<close>.
  \<^item> A device address is \<open>at d p\<close>, the byte \<open>p\<close> of the device at \<open>d\<close>; \<open>differs_in\<close> says which
    bytes of the device an operation may change.
  \<^item> \<open>resized\<close> is the contract of \<open>ensure_blocks\<close>: the new extent of the inode consists of its old
    blocks and of free ones, the data moves along, and nothing else changes.
  \<^item> \<open>fs_ok\<close> is the invariant: the extents of the inodes in use are marked, disjoint and lie above
    the inode table. The code does not establish the last part for more than three inodes, because
    inodes of 4104 bytes run into the data blocks (\<open>create_clears_data\<close>).
  \<^item> \<open>content\<close> abstracts a file to the list of its bytes; a write overwrites a slice of it and a read
    returns one. Path resolution through the inode cache agrees with a plain search.
\<close>

section \<open>Device addresses\<close>

definition at :: "u32 \<Rightarrow> nat \<Rightarrow> u32" where
  "at d p = d + of_nat p"

abbreviation addr_space :: nat where
  "addr_space \<equiv> 4294967296"

lemma at_inj: "p < addr_space \<Longrightarrow> q < addr_space \<Longrightarrow> at d p = at d q \<longleftrightarrow> p = q"
  by (simp add: at_def of_nat_32_eq_iff)

lemma at_0 [simp]: "at d 0 = d"
  by (simp add: at_def)

lemma at_add: "at d p + of_nat k = at d (p + k)"
  by (simp add: at_def)

lemma unat_at_diff:
  assumes "p < addr_space" "q < addr_space"
  shows "unat (at d p - at d q) = (if q \<le> p then p - q else addr_space + p - q)"
proof (cases "q \<le> p")
  case True
  then show ?thesis using assms by (simp add: at_def flip: of_nat_diff)
next
  case False
  have "at d p - at d q = of_nat (addr_space + p) - of_nat q" by (simp add: at_def)
  also have "\<dots> = of_nat (addr_space + p - q)" using False assms by (subst of_nat_diff) simp_all
  finally have "unat (at d p - at d q) = unat (of_nat (addr_space + p - q) :: u32)" by (rule arg_cong)
  also have "\<dots> = addr_space + p - q" using False assms by (intro unat_of_nat_32) simp
  finally show ?thesis using False by simp
qed

definition differs_in :: "u32 \<Rightarrow> mem \<Rightarrow> mem \<Rightarrow> (nat \<Rightarrow> bool) \<Rightarrow> bool" where
  "differs_in d m m' P \<longleftrightarrow> (\<forall>p. p < addr_space \<and> \<not> P p \<longrightarrow> m' (at d p) = m (at d p))"

lemma differs_in_refl: "differs_in d m m P"
  by (simp add: differs_in_def)

lemma differs_in_trans:
  "differs_in d m m1 P \<Longrightarrow> differs_in d m1 m2 Q \<Longrightarrow> (\<And>p. P p \<or> Q p \<Longrightarrow> R p) \<Longrightarrow> differs_in d m m2 R"
  by (metis differs_in_def)

lemma differs_in_mono: "differs_in d m m' P \<Longrightarrow> (\<And>p. P p \<Longrightarrow> Q p) \<Longrightarrow> differs_in d m m' Q"
  by (metis differs_in_def)

lemma differs_in_wr32:
  assumes "q + 4 \<le> addr_space"
  shows "differs_in d m (wr32 m (at d q) v) (\<lambda>p. q \<le> p \<and> p < q + 4)"
  unfolding differs_in_def
proof (intro allI impI)
  fix p
  assume "p < addr_space \<and> \<not> (q \<le> p \<and> p < q + 4)"
  then show "wr32 m (at d q) v (at d p) = m (at d p)"
    using assms by (intro wr32_other) (auto simp: unat_at_diff)
qed

lemma differs_in_wr32_step:
  assumes "differs_in d m m1 P" "q + 4 \<le> addr_space" "\<And>p. q \<le> p \<Longrightarrow> p < q + 4 \<Longrightarrow> P p"
  shows "differs_in d m (wr32 m1 (at d q) v) P"
  using differs_in_trans [OF assms(1) differs_in_wr32 [OF assms(2), of d m1 v], of P] assms(3) by blast

lemma rd32_at_frame:
  assumes "differs_in d m m' P" "p + 4 \<le> addr_space" "\<And>k. p \<le> k \<Longrightarrow> k < p + 4 \<Longrightarrow> \<not> P k"
  shows "rd32 m' (at d p) = rd32 m (at d p)"
proof -
  have b: "m' (at d p + of_nat k) = m (at d p + of_nat k)" if "k < 4" for k
  proof -
    have "m' (at d (p + k)) = m (at d (p + k))"
      using that assms(2) assms(3) [of "p + k"] assms(1) unfolding differs_in_def by force
    then show ?thesis by (simp add: at_add)
  qed
  from b [of 0] b [of 1] b [of 2] b [of 3] show ?thesis by (intro rd32_cong) simp_all
qed

lemma rd32_wr32_at:
  assumes "p + 4 \<le> addr_space" "q + 4 \<le> addr_space" "p = q \<or> p + 4 \<le> q \<or> q + 4 \<le> p"
  shows "rd32 (wr32 m (at d q) v) (at d p) = (if p = q then v else rd32 m (at d p))"
  using assms rd32_at_frame [OF differs_in_wr32 [of q d m v], of p] by (cases "p = q") auto

lemma memcpy_at:
  assumes nz: "at d q \<noteq> 0" "at d s \<noteq> 0"
    and range: "q + unat n \<le> addr_space" "s + unat n \<le> addr_space" "q < addr_space" "s < addr_space"
    and apart: "q = s \<or> q + unat n \<le> s \<or> s + unat n \<le> q" and p: "p < addr_space"
  shows "snd (lib_memcpy m (at d q) (at d s) n) (at d p) =
    (if q \<le> p \<and> p < q + unat n then m (at d (s + (p - q))) else m (at d p))"
proof -
  have c: "at d q = at d s \<or> unat n \<le> unat (at d q - at d s)"
    using apart range by (auto simp: unat_at_diff)
  have e: "at d s + (at d p - at d q) = at d (s + (p - q))" if "q \<le> p"
    using that by (simp add: at_def of_nat_diff)
  show ?thesis
    using copy_bytes_at [OF less_imp_le [OF unat_less_2p32 [of n]] c, of m "at d p"] e range p
    by (auto simp: memcpy_eq_copy_bytes [OF nz] unat_at_diff)
qed

lemma differs_in_memcpy:
  assumes "at d q \<noteq> 0" "at d s \<noteq> 0" "q + unat n \<le> addr_space" "s + unat n \<le> addr_space"
    "q < addr_space" "s < addr_space" "q = s \<or> q + unat n \<le> s \<or> s + unat n \<le> q"
  shows "differs_in d m (snd (lib_memcpy m (at d q) (at d s) n)) (\<lambda>p. q \<le> p \<and> p < q + unat n)"
  using memcpy_at [OF assms] by (auto simp: differs_in_def)

section \<open>Extents\<close>

definition mounted :: "u32 \<Rightarrow> ufs \<Rightarrow> bool" where
  "mounted d u \<longleftrightarrow> mount_valid u \<and> bitmap_ok u \<and> length (fd_entries u) = 64 \<and>
     mnt_sb (current_mount u) = d \<and> mnt_inodes (current_mount u) = at d 4096 \<and>
     mnt_data_blocks (current_mount u) = at d 8192 \<and>
     d \<noteq> 0 \<and> unat d + 4096 * (bitmap_blocks u + 2) \<le> addr_space"

definition ipos :: "nat \<Rightarrow> nat" where "ipos i = 4096 + 4104 * i"
definition dpos :: "nat \<Rightarrow> nat" where "dpos b = 8192 + 4096 * b"

lemma inode_at_eq: "mounted d u \<Longrightarrow> inode_at u (int i) = at d (ipos i)"
  by (simp add: inode_at_def mounted_def ipos_def at_def)

lemma data_at_eq: "mounted d u \<Longrightarrow> data_at u b = at d (dpos (unat b))"
  by (simp add: data_at_def mounted_def dpos_def at_def)

lemma data_nonzero:
  assumes "mounted d u" "p < 4096 * (bitmap_blocks u + 2)"
  shows "at d p \<noteq> 0" "p < addr_space"
proof -
  have b: "unat d + p < addr_space" using assms by (simp add: mounted_def)
  then have "unat (at d p) = unat d + p" by (simp add: at_def unat_add_no_wrap)
  moreover have "unat d \<noteq> 0" using assms by (simp add: mounted_def unat_eq_zero)
  ultimately show "at d p \<noteq> 0" by (metis add_is_0 unat_0)
  show "p < addr_space" using b by simp
qed

definition first_of :: "mem \<Rightarrow> u32 \<Rightarrow> nat \<Rightarrow> nat" where
  "first_of m d i = unat (i_first m (at d (ipos i)))"
definition blocks_of :: "mem \<Rightarrow> u32 \<Rightarrow> nat \<Rightarrow> nat" where
  "blocks_of m d i = unat (i_blocks m (at d (ipos i)))"
definition size_of :: "mem \<Rightarrow> u32 \<Rightarrow> nat \<Rightarrow> nat" where
  "size_of m d i = unat (i_size m (at d (ipos i)))"
definition extent :: "mem \<Rightarrow> u32 \<Rightarrow> nat \<Rightarrow> nat set" where
  "extent m d i = {first_of m d i ..< first_of m d i + blocks_of m d i}"

definition extent_ok :: "mem \<Rightarrow> u32 \<Rightarrow> ufs \<Rightarrow> nat \<Rightarrow> nat \<Rightarrow> bool" where
  "extent_ok m d u t i \<longleftrightarrow> (blocks_of m d i \<noteq> 0 \<longrightarrow>
     2 \<le> first_of m d i \<and> first_of m d i + blocks_of m d i \<le> bitmap_blocks u \<and> t \<le> dpos (first_of m d i) \<and>
     (\<forall>b\<in>extent m d i. bitmap_test (int b) u))"

definition free_above :: "ufs \<Rightarrow> nat \<Rightarrow> bool" where
  "free_above u t \<longleftrightarrow> (\<forall>b. 2 \<le> b \<and> \<not> bitmap_test (int b) u \<longrightarrow> t \<le> dpos b)"

definition kept :: "ufs \<Rightarrow> ufs \<Rightarrow> bool" where
  "kept u u' \<longleftrightarrow> bitmap_blocks u' = bitmap_blocks u \<and> bitmap_ok u' = bitmap_ok u \<and> fd_entries u' = fd_entries u \<and>
     current_mount u' = current_mount u \<and> mount_valid u' = mount_valid u \<and> icache u' = icache u"

definition meta :: "nat \<Rightarrow> nat \<Rightarrow> bool" where
  "meta i p \<longleftrightarrow> 12 \<le> p \<and> p < 16 \<or> ipos i + 16 \<le> p \<and> p < ipos i + 24"

definition resized :: "u32 \<Rightarrow> nat \<Rightarrow> nat \<Rightarrow> mem \<Rightarrow> ufs \<Rightarrow> mem \<Rightarrow> ufs \<Rightarrow> bool" where
  "resized d i n m u m' u' \<longleftrightarrow>
     blocks_of m' d i = n \<and> kept u u' \<and>
     (n \<noteq> 0 \<longrightarrow> 2 \<le> first_of m' d i \<and> first_of m' d i + n \<le> bitmap_blocks u) \<and>
     (\<forall>b\<in>extent m' d i. b \<in> extent m d i \<or> \<not> bitmap_test (int b) u) \<and>
     (\<forall>b. bitmap_test (int b) u' \<longleftrightarrow> bitmap_test (int b) u \<and> b \<notin> extent m d i \<or> b \<in> extent m' d i \<or> bitmap_blocks u \<le> b) \<and>
     differs_in d m m' (\<lambda>p. meta i p \<or>
       (\<exists>b. b \<in> extent m' d i \<and> b \<notin> extent m d i \<and> dpos b \<le> p \<and> p < dpos (b + 1))) \<and>
     (\<forall>k. k < 4096 * blocks_of m d i \<and> k < size_of m d i \<and> k < 4096 * n \<longrightarrow>
       m' (at d (dpos (first_of m' d i) + k)) = m (at d (dpos (first_of m d i) + k)))"

lemma inode_fields:
  "i_size m (at d (ipos i)) = rd32 m (at d (ipos i + 4))" "i_flags m (at d (ipos i)) = rd32 m (at d (ipos i + 8))"
  "i_parent m (at d (ipos i)) = rd32 m (at d (ipos i + 12))" "i_first m (at d (ipos i)) = rd32 m (at d (ipos i + 16))"
  "i_blocks m (at d (ipos i)) = rd32 m (at d (ipos i + 20))"
  "set_i_size m (at d (ipos i)) v = wr32 m (at d (ipos i + 4)) v"
  "set_i_first m (at d (ipos i)) v = wr32 m (at d (ipos i + 16)) v"
  "set_i_blocks m (at d (ipos i)) v = wr32 m (at d (ipos i + 20)) v"
  "sb_free m d = rd32 m (at d 12)" "sb_total m d = rd32 m (at d 8)" "sb_inode_count m d = rd32 m (at d 16)"
  "set_sb_free m d v = wr32 m (at d 12) v"
  by (simp_all add: i_size_def i_flags_def i_parent_def i_first_def i_blocks_def set_i_size_def set_i_first_def
      set_i_blocks_def sb_free_def sb_total_def sb_inode_count_def set_sb_free_def at_def ac_simps)

lemma ipos_range: "i < 256 \<Longrightarrow> ipos i + 4104 < addr_space" "4096 \<le> ipos i"
  by (simp_all add: ipos_def)

lemmas fields_of = first_of_def blocks_of_def size_of_def inode_fields

lemma kept_mounted: "kept u u' \<Longrightarrow> mounted d u' = mounted d u"
  by (simp add: kept_def mounted_def)

lemma kept_mark: "kept u (bitmap_mark_range f n b u)"
  by (simp add: kept_def mark_range_frame)

lemma kept_refl: "kept u u"
  by (simp add: kept_def)

lemma kept_trans: "kept u u1 \<Longrightarrow> kept u1 u2 \<Longrightarrow> kept u u2"
  by (simp add: kept_def)

lemma out_of_range: "bitmap_blocks u \<le> b \<Longrightarrow> bitmap_test (int b) u"
  by (simp add: bitmap_test_def)

lemma mark_used_nat:
  "bitmap_ok u \<Longrightarrow> bitmap_test (int b) (bitmap_mark_range (int f) n True u) \<longleftrightarrow>
    bitmap_test (int b) u \<or> f \<le> b \<and> b < f + n"
  by (auto simp: test_mark_used)

lemma mark_free_nat:
  "bitmap_ok u \<Longrightarrow> bitmap_test (int b) (bitmap_mark_range (int f) n False u) \<longleftrightarrow>
    bitmap_test (int b) u \<and> (\<not> (f \<le> b \<and> b < f + n) \<or> bitmap_blocks u \<le> b)"
  by (auto simp: test_mark_free)

lemma set_extent:
  assumes "i < 256" and "differs_in d m m1 P" "\<And>p. p < 16 \<or> ipos i + 4 \<le> p \<and> p < ipos i + 24 \<Longrightarrow> \<not> P p"
    and m': "m' = set_i_blocks (set_i_first (set_sb_free m1 d x) (at d (ipos i)) f) (at d (ipos i)) n"
  shows "first_of m' d i = unat f" "blocks_of m' d i = unat n" "size_of m' d i = size_of m d i"
    "differs_in d m m' (\<lambda>p. meta i p \<or> P p)"
proof -
  note r = ipos_range(1) [OF assms(1)] ipos_range(2) [of i]
  show "first_of m' d i = unat f" "blocks_of m' d i = unat n"
    using r by (simp_all add: m' fields_of rd32_wr32_at)
  show "size_of m' d i = size_of m d i"
    using r rd32_at_frame [OF assms(2), of "ipos i + 4"] assms(3) by (simp add: m' fields_of rd32_wr32_at)
  have "differs_in d m m1 (\<lambda>p. meta i p \<or> P p)"
    by (rule differs_in_mono [OF assms(2)]) auto
  then show "differs_in d m m' (\<lambda>p. meta i p \<or> P p)"
    unfolding m' inode_fields using r by (intro differs_in_wr32_step) (auto simp: meta_def)
qed

lemma resizedI:
  assumes "blocks_of m' d i = n" "first_of m' d i = f" "kept u u'"
    and "n \<noteq> 0 \<Longrightarrow> 2 \<le> f \<and> f + n \<le> bitmap_blocks u"
    and "\<And>b. f \<le> b \<Longrightarrow> b < f + n \<Longrightarrow> b \<in> extent m d i \<or> \<not> bitmap_test (int b) u"
    and "\<And>b. bitmap_test (int b) u' \<longleftrightarrow>
       bitmap_test (int b) u \<and> b \<notin> extent m d i \<or> f \<le> b \<and> b < f + n \<or> bitmap_blocks u \<le> b"
    and "differs_in d m m' (\<lambda>p. meta i p \<or>
       (\<exists>b. f \<le> b \<and> b < f + n \<and> b \<notin> extent m d i \<and> dpos b \<le> p \<and> p < dpos (b + 1)))"
    and "\<And>k. k < 4096 * blocks_of m d i \<Longrightarrow> k < size_of m d i \<Longrightarrow> k < 4096 * n \<Longrightarrow>
       m' (at d (dpos f + k)) = m (at d (dpos (first_of m d i) + k))"
  shows "resized d i n m u m' u'"
proof -
  have e: "b \<in> extent m' d i \<longleftrightarrow> f \<le> b \<and> b < f + n" for b using assms(1,2) by (simp add: extent_def)
  show ?thesis
    unfolding resized_def using assms(3-8) by (simp add: assms(1,2) e Ball_def)
qed

lemma find_contiguous_free:
  assumes "bitmap_find_contiguous n u = Some s" "0 < n"
  shows "2 \<le> s" "s + n \<le> bitmap_blocks u" "\<And>b. s \<le> b \<Longrightarrow> b < s + n \<Longrightarrow> \<not> bitmap_test (int b) u"
proof -
  have f: "2 \<le> s \<and> free_run u s n" using find_contiguous_spec [OF assms(2), of u] assms(1) by simp
  then show "2 \<le> s" "s + n \<le> bitmap_blocks u" by (auto simp: free_run_def)
  fix b assume "s \<le> b" "b < s + n"
  then show "\<not> bitmap_test (int b) u" using f unfolding free_run_def by (metis add_diff_inverse_nat add_less_cancel_left not_le)
qed

lemma grow_empty_resized:
  assumes "mounted d u" "i < 256" "blocks_of m d i = 0" "need \<noteq> 0"
    and g: "grow_empty m u (at d (ipos i)) need = (r, m', u')"
  shows "r = - 1 \<and> m' = m \<and> u' = u \<or> r = 0 \<and> resized d i (unat need) m u m' u'"
proof (cases "bitmap_find_contiguous (unat need) u")
  case None
  then show ?thesis using g by (simp add: grow_empty_def)
next
  case (Some f)
  have n0: "0 < unat need" using assms(4) by (simp add: unat_gt_0)
  note f = find_contiguous_free [OF Some n0]
  have ok: "bitmap_ok u" and sb: "mnt_sb (current_mount u) = d" using assms(1) by (auto simp: mounted_def)
  have "bitmap_blocks u \<le> 4096" using ok by (simp add: bitmap_ok_def)
  then have uf: "unat (of_nat f :: u32) = f" using f by simp
  have res: "r = 0" "u' = bitmap_mark_range (int f) (unat need) True u"
    "m' = set_i_blocks (set_i_first (set_sb_free m d (sb_free m d - need)) (at d (ipos i)) (of_nat f)) (at d (ipos i)) need"
    using g by (simp_all add: grow_empty_def Some Let_def sb)
  note s = set_extent [OF assms(2) differs_in_refl _ res(3), of "\<lambda>_. False"]
  have e: "extent m d i = {}" using assms(3) by (simp add: extent_def)
  have "resized d i (unat need) m u m' u'"
  proof (rule resizedI [where f = f])
    show "differs_in d m m' (\<lambda>p. meta i p \<or>
       (\<exists>b. f \<le> b \<and> b < f + unat need \<and> b \<notin> extent m d i \<and> dpos b \<le> p \<and> p < dpos (b + 1)))"
      by (rule differs_in_mono [OF s(4)]) auto
  qed (use s f uf e in \<open>auto simp: res(2) kept_mark mark_used_nat [OF ok] assms(3) out_of_range\<close>)
  then show ?thesis using res(1) by simp
qed

lemma sint_small: "unat (w :: u32) < 2147483648 \<Longrightarrow> sint w = int (unat w)"
proof -
  assume "unat w < 2147483648"
  then have "int (unat w) < 2147483648" by linarith
  then have "uint w < 2 ^ (LENGTH(32) - 1)" by simp
  then have "sint w = uint w"
    unfolding sint_uint by (intro signed_take_bit_int_eq_self) (simp_all add: order.trans [OF _ uint_ge_0])
  then show ?thesis by simp
qed

lemma extent_okD:
  assumes "extent_ok m d u t i" "blocks_of m d i \<noteq> 0"
  shows "2 \<le> first_of m d i" "first_of m d i + blocks_of m d i \<le> bitmap_blocks u"
    "t \<le> dpos (first_of m d i)"
    "\<And>b. first_of m d i \<le> b \<Longrightarrow> b < first_of m d i + blocks_of m d i \<Longrightarrow> bitmap_test (int b) u"
  using assms by (auto simp: extent_ok_def extent_def)

lemma in_extent: "b \<in> extent m d i \<longleftrightarrow> first_of m d i \<le> b \<and> b < first_of m d i + blocks_of m d i"
  by (simp add: extent_def)

lemma differs_inD: "differs_in d m m' P \<Longrightarrow> p < addr_space \<Longrightarrow> \<not> P p \<Longrightarrow> m' (at d p) = m (at d p)"
  by (simp add: differs_in_def)

lemma data_not_meta:
  assumes "ipos i + 88 \<le> t" "t \<le> dpos f"
  shows "\<not> meta i (dpos f + k)"
  using assms ipos_range(2) [of i] by (auto simp: meta_def)

lemma shrink_resized:
  assumes "mounted d u" "i < 256" "extent_ok m d u t i" "ipos i + 88 \<le> t" "need < i_blocks m (at d (ipos i))"
    and s: "shrink_blocks m u (at d (ipos i)) need = (m', u')"
  shows "resized d i (unat need) m u m' u'"
proof -
  note r = ipos_range(1) [OF assms(2)] ipos_range(2) [of i]
  define F B N where "F = first_of m d i" and "B = blocks_of m d i" and "N = unat need"
  have nb: "N < B" using assms(5) by (simp add: B_def N_def blocks_of_def word_less_nat_alt)
  then have x: "2 \<le> F" "F + B \<le> bitmap_blocks u" "t \<le> dpos F"
    and xt: "\<And>b. F \<le> b \<Longrightarrow> b < F + B \<Longrightarrow> bitmap_test (int b) u"
    using extent_okD [OF assms(3)] by (auto simp: F_def B_def)
  have ok: "bitmap_ok u" and sb: "mnt_sb (current_mount u) = d" using assms(1) by (auto simp: mounted_def)
  have small: "bitmap_blocks u \<le> 4096" using ok by (simp add: bitmap_ok_def)
  have si: "sint (i_first m (at d (ipos i))) + sint need = int (F + N)"
    using x nb small by (simp add: sint_small F_def N_def first_of_def)
  have ub: "unat (i_blocks m (at d (ipos i)) - need) = B - N"
    using assms(5) by (simp add: unat_sub_no_wrap B_def N_def blocks_of_def)
  define f where "f = (if N = 0 then 0 else F)"
  have u': "u' = bitmap_mark_range (int (F + N)) (B - N) False u"
    using s unfolding shrink_blocks_def Let_def si ub by simp
  have tst: "bitmap_test (int b) u' \<longleftrightarrow> bitmap_test (int b) u \<and> (\<not> (F + N \<le> b \<and> b < F + B) \<or> bitmap_blocks u \<le> b)" for b
    unfolding u' using nb by (subst mark_free_nat [OF ok]) auto
  have fr: "differs_in d m m' (meta i)" and bl: "blocks_of m' d i = N" and fi: "first_of m' d i = f"
    using s r by (auto simp: shrink_blocks_def Let_def sb inode_fields fields_of rd32_wr32_at meta_def f_def F_def N_def
        unat_eq_zero intro!: differs_in_wr32_step differs_in_refl split: if_splits)
  show ?thesis unfolding N_def [symmetric]
  proof (rule resizedI [OF bl fi])
    show "differs_in d m m' (\<lambda>p. meta i p \<or>
       (\<exists>b. f \<le> b \<and> b < f + N \<and> b \<notin> extent m d i \<and> dpos b \<le> p \<and> p < dpos (b + 1)))"
      by (rule differs_in_mono [OF fr]) auto
    show "bitmap_test (int b) u' \<longleftrightarrow>
       bitmap_test (int b) u \<and> b \<notin> extent m d i \<or> f \<le> b \<and> b < f + N \<or> bitmap_blocks u \<le> b" for b
      using xt [of b] nb x out_of_range [of u b] by (auto simp: tst in_extent f_def simp flip: F_def B_def)
    show "m' (at d (dpos f + k)) = m (at d (dpos (first_of m d i) + k))" if "k < 4096 * N" for k
      using that nb x small unfolding F_def [symmetric] f_def
      by (auto intro!: differs_inD [OF fr] simp: dpos_def data_not_meta [OF assms(4), of F, unfolded dpos_def])
  qed (use nb x in \<open>auto simp: u' kept_mark in_extent f_def simp flip: F_def B_def split: if_splits\<close>)
qed

lemma unat_need:
  assumes "unat s + 4095 < addr_space"
  shows "unat (if s = 0 then 0 else (s + 4096 - 1) div 4096 :: u32) = (unat s + 4095) div 4096"
proof -
  have "s + 4096 - 1 = s + 4095" by simp
  then show ?thesis using assms by (auto simp: unat_div unat_add_no_wrap)
qed

lemma extend_resized:
  assumes "mounted d u" "i < 256" "extent_ok m d u t i" "ipos i + 88 \<le> t"
    and nb: "i_blocks m (at d (ipos i)) < need" "i_blocks m (at d (ipos i)) \<noteq> 0"
    and c: "can_extend u (int (first_of m d i + blocks_of m d i)) (unat need - blocks_of m d i)"
    and m': "m' = set_i_blocks (set_sb_free m d x) (at d (ipos i)) need"
    and u': "u' = bitmap_mark_range (int (first_of m d i + blocks_of m d i)) (unat need - blocks_of m d i) True u"
  shows "resized d i (unat need) m u m' u'"
proof -
  note r = ipos_range(1) [OF assms(2)] ipos_range(2) [of i]
  define F B N where "F = first_of m d i" and "B = blocks_of m d i" and "N = unat need"
  have nb: "B < N" "B \<noteq> 0" using nb by (simp_all add: B_def N_def blocks_of_def word_less_nat_alt unat_eq_zero)
  then have x: "2 \<le> F" "F + B \<le> bitmap_blocks u" "t \<le> dpos F"
    and xt: "\<And>b. F \<le> b \<Longrightarrow> b < F + B \<Longrightarrow> bitmap_test (int b) u"
    using extent_okD [OF assms(3)] by (auto simp: F_def B_def)
  have ok: "bitmap_ok u" using assms(1) by (auto simp: mounted_def)
  have small: "bitmap_blocks u \<le> 4096" using ok by (simp add: bitmap_ok_def)
  have new: "\<not> bitmap_test (int b) u" if "F + B \<le> b" "b < F + N" for b
  proof -
    have "b - (F + B) < N - B" using that by linarith
    then have "\<not> bitmap_test (int (F + B) + int (b - (F + B))) u"
      using c unfolding can_extend_def F_def [symmetric] B_def [symmetric] N_def [symmetric] by auto
    then show ?thesis using that by simp
  qed
  have top: "F + N \<le> bitmap_blocks u" using new [of "F + N - 1"] out_of_range [of u "F + N - 1"] nb by force
  have tst: "bitmap_test (int b) u' \<longleftrightarrow> bitmap_test (int b) u \<or> F + B \<le> b \<and> b < F + N" for b
    unfolding u' F_def [symmetric] B_def [symmetric] N_def [symmetric] using nb by (subst mark_used_nat [OF ok]) auto
  have fr: "differs_in d m m' (meta i)" and bl: "blocks_of m' d i = N" and fi: "first_of m' d i = F"
    using r by (auto simp: m' inode_fields fields_of rd32_wr32_at meta_def F_def N_def
        intro!: differs_in_wr32_step differs_in_refl)
  show ?thesis unfolding N_def [symmetric]
  proof (rule resizedI [OF bl fi])
    show "differs_in d m m' (\<lambda>p. meta i p \<or>
       (\<exists>b. F \<le> b \<and> b < F + N \<and> b \<notin> extent m d i \<and> dpos b \<le> p \<and> p < dpos (b + 1)))"
      by (rule differs_in_mono [OF fr]) auto
    show "m' (at d (dpos F + k)) = m (at d (dpos (first_of m d i) + k))" if "k < 4096 * N" for k
      using that nb top small unfolding F_def [symmetric]
      by (intro differs_inD [OF fr] data_not_meta [OF assms(4) x(3)]) (simp add: dpos_def)
    show "bitmap_test (int b) u' \<longleftrightarrow>
       bitmap_test (int b) u \<and> b \<notin> extent m d i \<or> F \<le> b \<and> b < F + N \<or> bitmap_blocks u \<le> b" for b
      using xt [of b] nb x out_of_range [of u b]
      by (cases "b < F + B") (auto simp: tst in_extent simp flip: F_def B_def)
  qed (use nb x new top in \<open>auto simp: u' kept_mark in_extent not_less simp flip: F_def B_def\<close>)
qed

lemma wr32_twice: "wr32 (wr32 m a x) a y = wr32 m a y"
  by (rule ext) (simp add: wr32_def)

lemma in_block:
  assumes "dpos f \<le> p" "p < dpos f + 4096 * n"
  shows "\<exists>b. f \<le> b \<and> b < f + n \<and> dpos b \<le> p \<and> p < dpos (b + 1)"
proof -
  define b where "b = (p - 8192) div 4096"
  have "dpos b \<le> p" "p < dpos (b + 1)" using assms(1) unfolding b_def dpos_def by auto
  moreover have "f \<le> b" "b < f + n" using assms unfolding b_def dpos_def by auto
  ultimately show ?thesis by blast
qed

lemma copy_extent:
  assumes mo: "mounted d u" and r: "F + B \<le> bitmap_blocks u" "f + B \<le> bitmap_blocks u" "B \<noteq> 0"
    and apart: "f + B \<le> F \<or> F + B \<le> f" and c: "unat c \<le> 4096 * B"
    and m1: "m1 = snd (lib_memcpy m (at d (dpos f)) (at d (dpos F)) c)"
  shows "differs_in d m m1 (\<lambda>p. dpos f \<le> p \<and> p < dpos f + unat c)"
    and "k < unat c \<Longrightarrow> m1 (at d (dpos f + k)) = m (at d (dpos F + k))"
proof -
  have small: "bitmap_blocks u \<le> 4096" using mo by (simp add: mounted_def bitmap_ok_def)
  have cp: "at d (dpos f) \<noteq> 0" "at d (dpos F) \<noteq> 0" "dpos f + unat c \<le> addr_space" "dpos F + unat c \<le> addr_space"
    "dpos f < addr_space" "dpos F < addr_space" "dpos f = dpos F \<or> dpos f + unat c \<le> dpos F \<or> dpos F + unat c \<le> dpos f"
    using r apart small c by (auto intro!: data_nonzero(1) [OF mo] simp: dpos_def)
  show "differs_in d m m1 (\<lambda>p. dpos f \<le> p \<and> p < dpos f + unat c)"
    unfolding m1 by (rule differs_in_memcpy [OF cp])
  show "m1 (at d (dpos f + k)) = m (at d (dpos F + k))" if "k < unat c"
    using memcpy_at [OF cp, of "dpos f + k" m] that cp(3) by (simp add: m1)
qed

lemma relocate_Some:
  assumes mo: "mounted d u" and find: "bitmap_find_contiguous (unat need) u = Some f"
    and c: "c = (if i_blocks m (at d (ipos i)) * 4096 < i_size m (at d (ipos i))
      then i_blocks m (at d (ipos i)) * 4096 else i_size m (at d (ipos i)))"
    and m1: "m1 = snd (lib_memcpy m (at d (dpos f)) (at d (dpos (first_of m d i))) c)"
    and same: "first_of m1 d i = first_of m d i" "blocks_of m1 d i = blocks_of m d i"
    and small: "first_of m d i \<le> 4096" "f \<le> 4096"
  shows "\<exists>y. relocate m u (at d (ipos i)) need =
    (0, set_i_blocks (set_i_first (set_sb_free m1 d y) (at d (ipos i)) (of_nat f)) (at d (ipos i)) need,
     bitmap_mark_range (int f) (unat need) True
       (bitmap_mark_range (int (first_of m d i)) (blocks_of m d i) False u))"
proof -
  have sb: "mnt_sb (current_mount u) = d" using mo by (simp add: mounted_def)
  have da: "data_at u (i_first m (at d (ipos i))) = at d (dpos (first_of m d i))" "data_at u (of_nat f) = at d (dpos f)"
    using data_at_eq [OF mo] small(2) by (simp_all add: first_of_def)
  have fb: "sint (i_first m1 (at d (ipos i))) = int (first_of m d i)" "unat (i_blocks m1 (at d (ipos i))) = blocks_of m d i"
    using same small(1) by (simp_all add: sint_small first_of_def blocks_of_def)
  show ?thesis
    unfolding relocate_def find option.case Let_def sb da
    unfolding c [symmetric] m1 [symmetric]
    unfolding m1 [symmetric] fb by (auto simp: set_sb_free_def wr32_twice)
qed

lemma relocate_resized:
  assumes mo: "mounted d u" and i: "i < 256" and eo: "extent_ok m d u t i" and t: "ipos i + 88 \<le> t" and fa: "free_above u t"
    and nb: "i_blocks m (at d (ipos i)) < need" "i_blocks m (at d (ipos i)) \<noteq> 0"
    and g: "relocate m u (at d (ipos i)) need = (r, m', u')"
  shows "r = - 1 \<and> m' = m \<and> u' = u \<or> r = 0 \<and> resized d i (unat need) m u m' u'"
proof (cases "bitmap_find_contiguous (unat need) u")
  case None
  then show ?thesis using g by (simp add: relocate_def)
next
  case (Some f)
  define F B N where "F = first_of m d i" and "B = blocks_of m d i" and "N = unat need"
  have nb: "B < N" "B \<noteq> 0" using nb by (simp_all add: B_def N_def blocks_of_def word_less_nat_alt unat_eq_zero)
  then have x: "2 \<le> F" "F + B \<le> bitmap_blocks u" "t \<le> dpos F"
    and xt: "\<And>b. F \<le> b \<Longrightarrow> b < F + B \<Longrightarrow> bitmap_test (int b) u"
    using extent_okD [OF eo] by (auto simp: F_def B_def)
  have ok: "bitmap_ok u" using mo by (auto simp: mounted_def)
  have small: "bitmap_blocks u \<le> 4096" using ok by (simp add: bitmap_ok_def)
  have n0: "0 < N" using nb(1) by simp
  note f = find_contiguous_free [OF Some [folded N_def] n0]
  have tf: "t \<le> dpos f" using fa f nb unfolding free_above_def by force
  define c where "c = (if i_blocks m (at d (ipos i)) * 4096 < i_size m (at d (ipos i))
    then i_blocks m (at d (ipos i)) * 4096 else i_size m (at d (ipos i)))"
  define m1 where "m1 = snd (lib_memcpy m (at d (dpos f)) (at d (dpos F)) c)"
  have apart: "f + B \<le> F \<or> F + B \<le> f" using f(3) [of F] f(3) [of f] xt [of f] xt [of F] nb by force
  have "unat (i_blocks m (at d (ipos i)) * 4096) = 4096 * B"
    using x small by (simp add: unat_word_ariths B_def blocks_of_def)
  then have uc: "unat c = min (4096 * B) (size_of m d i)"
    by (auto simp: c_def size_of_def word_less_nat_alt)
  note cp = copy_extent [OF mo x(2) _ nb(2) apart _ m1_def]
  have P: "differs_in d m m1 (\<lambda>p. dpos f \<le> p \<and> p < dpos f + unat c)" using f nb by (intro cp) (simp_all add: uc)
  have off: "\<not> (dpos f \<le> p \<and> p < dpos f + unat c)" if "p < 16 \<or> ipos i + 4 \<le> p \<and> p < ipos i + 24" for p
    using that tf t by (auto simp: dpos_def)
  have same: "first_of m1 d i = F" "blocks_of m1 d i = B"
    using off ipos_range(1) [OF i] by (auto simp: fields_of F_def B_def intro!: arg_cong [where f = unat] rd32_at_frame [OF P])
  obtain y where res: "r = 0" "u' = bitmap_mark_range (int f) N True (bitmap_mark_range (int F) B False u)"
    "m' = set_i_blocks (set_i_first (set_sb_free m1 d y) (at d (ipos i)) (of_nat f)) (at d (ipos i)) need"
    using relocate_Some [OF mo Some c_def m1_def [unfolded F_def] same [unfolded F_def B_def]] x small f g
    by (auto simp: F_def B_def N_def)
  have s: "first_of m' d i = f" "blocks_of m' d i = N" "differs_in d m m' (\<lambda>p. meta i p \<or> dpos f \<le> p \<and> p < dpos f + unat c)"
    "differs_in d m1 m' (meta i)"
    using set_extent [OF i P off res(3)] set_extent(4) [OF i differs_in_refl _ res(3), of "\<lambda>_. False"] f small
    by (auto simp: N_def)
  have "resized d i N m u m' u'"
  proof (rule resizedI [OF s(2) s(1)])
    show "differs_in d m m' (\<lambda>p. meta i p \<or>
       (\<exists>b. f \<le> b \<and> b < f + N \<and> b \<notin> extent m d i \<and> dpos b \<le> p \<and> p < dpos (b + 1)))"
      using in_block [of f _ B] apart nb(1) uc
      by (intro differs_in_mono [OF s(3)]) (fastforce simp: in_extent simp flip: F_def B_def)
    show "m' (at d (dpos f + k)) = m (at d (dpos (first_of m d i) + k))"
      if "k < 4096 * blocks_of m d i" "k < size_of m d i" for k
    proof -
      have k: "k < unat c" using that by (simp add: uc B_def)
      have "m' (at d (dpos f + k)) = m1 (at d (dpos f + k))"
        using that f(2) small nb(1) data_not_meta [OF t tf] by (intro differs_inD [OF s(4)]) (simp_all add: dpos_def flip: B_def)
      also have "\<dots> = m (at d (dpos F + k))" using f nb k by (intro cp) (simp_all add: uc)
      finally show ?thesis by (simp add: F_def)
    qed
    show "bitmap_test (int b) u' \<longleftrightarrow>
       bitmap_test (int b) u \<and> b \<notin> extent m d i \<or> f \<le> b \<and> b < f + N \<or> bitmap_blocks u \<le> b" for b
      using out_of_range [of u b] x
      by (auto simp: res(2) mark_used_nat mark_free_nat ok mark_range_frame in_extent simp flip: F_def B_def)
    show "kept u u'" unfolding res(2) by (rule kept_trans [OF kept_mark kept_mark])
  qed (use f in auto)
  then show ?thesis using res(1) by (simp add: N_def)
qed

lemma resized_same:
  assumes "extent_ok m d u t i"
  shows "resized d i (blocks_of m d i) m u m u"
proof (rule resizedI [where f = "first_of m d i"])
  show "bitmap_test (int b) u \<longleftrightarrow> bitmap_test (int b) u \<and> b \<notin> extent m d i \<or>
      first_of m d i \<le> b \<and> b < first_of m d i + blocks_of m d i \<or> bitmap_blocks u \<le> b" for b
    using extent_okD [OF assms] out_of_range [of u b] by (cases "blocks_of m d i = 0") (auto simp: in_extent)
qed (use extent_okD [OF assms] in \<open>auto simp: kept_refl differs_in_refl in_extent\<close>)

lemma ensure_blocks_resized:
  assumes mo: "mounted d u" and i: "i < 256" and eo: "extent_ok m d u t i" and t: "ipos i + 88 \<le> t" and fa: "free_above u t"
    and s: "unat s + 4095 < addr_space"
    and e: "ensure_blocks m u (at d (ipos i)) s = (r, m', u')"
  shows "r = - 1 \<and> m' = m \<and> u' = u \<or> r = 0 \<and> resized d i ((unat s + 4095) div 4096) m u m' u'"
proof -
  define need :: u32 where "need = (if s = 0 then 0 else (s + 4096 - 1) div 4096)"
  have un: "(unat s + 4095) div 4096 = unat need" unfolding need_def by (rule unat_need [OF s, symmetric])
  have sb: "mnt_sb (current_mount u) = d" and ok: "bitmap_ok u" using mo by (auto simp: mounted_def)
  let ?a = "at d (ipos i)"
  note e = e [unfolded ensure_blocks_def Let_def need_def [symmetric] sb]
  consider (same) "need = i_blocks m ?a" | (shrink) "need < i_blocks m ?a"
    | (full) "i_blocks m ?a < need" "sb_free m d < need - i_blocks m ?a"
    | (empty) "i_blocks m ?a < need" "i_blocks m ?a = 0" "\<not> sb_free m d < need - i_blocks m ?a"
    | (grow) "i_blocks m ?a < need" "i_blocks m ?a \<noteq> 0" "\<not> sb_free m d < need - i_blocks m ?a"
    by (metis linorder_neqE)
  then have "r = - 1 \<and> m' = m \<and> u' = u \<or> r = 0 \<and> resized d i (unat need) m u m' u'"
  proof cases
    case same
    then show ?thesis using e resized_same [OF eo] by (auto simp: blocks_of_def)
  next
    case shrink
    then have "r = 0" "shrink_blocks m u ?a need = (m', u')" using e less_imp_neq [OF shrink] by auto
    then show ?thesis using shrink_resized [OF mo i eo t shrink] by blast
  next
    case full
    then show ?thesis using e less_imp_neq [OF full(1)] less_not_sym [OF full(1)] by auto
  next
    case empty
    then have "grow_empty m u ?a need = (r, m', u')" using e less_imp_neq [OF empty(1)] less_not_sym [OF empty(1)] by auto
    from grow_empty_resized [OF mo i _ _ this] empty show ?thesis by (auto simp: blocks_of_def)
  next
    case grow
    have x: "first_of m d i + blocks_of m d i \<le> bitmap_blocks u" "bitmap_blocks u \<le> 4096"
      using extent_okD [OF eo] grow ok by (auto simp: blocks_of_def unat_eq_zero bitmap_ok_def)
    then have nx: "sint (i_first m ?a) + sint (i_blocks m ?a) = int (first_of m d i + blocks_of m d i)"
      by (simp add: sint_small first_of_def blocks_of_def)
    have ex: "unat (need - i_blocks m ?a) = unat need - blocks_of m d i"
      using grow by (simp add: unat_sub_no_wrap blocks_of_def)
    show ?thesis
    proof (cases "can_extend u (int (first_of m d i + blocks_of m d i)) (unat need - blocks_of m d i)")
      case True
      then have "r = 0" "m' = set_i_blocks (set_sb_free m d (sb_free m d - (need - i_blocks m ?a))) ?a need"
        "u' = bitmap_mark_range (int (first_of m d i + blocks_of m d i)) (unat need - blocks_of m d i) True u"
        using e grow less_imp_neq [OF grow(1)] less_not_sym [OF grow(1)] unfolding nx ex by auto
      then show ?thesis using extend_resized [OF mo i eo t grow(1,2) True] by blast
    next
      case False
      then have "relocate m u ?a need = (r, m', u')" using e grow less_imp_neq [OF grow(1)] less_not_sym [OF grow(1)] unfolding nx ex by auto
      from relocate_resized [OF mo i eo t fa grow(1,2) this] show ?thesis .
    qed
  qed
  then show ?thesis by (simp add: un)
qed

section \<open>Files\<close>

definition content :: "mem \<Rightarrow> u32 \<Rightarrow> nat \<Rightarrow> u8 list" where
  "content m d i = map (\<lambda>k. m (at d (dpos (first_of m d i) + k))) [0..<size_of m d i]"

definition table_top :: "nat \<Rightarrow> nat" where
  "table_top n = ipos (n - 1) + 88"

definition in_use :: "mem \<Rightarrow> u32 \<Rightarrow> ufs \<Rightarrow> nat \<Rightarrow> bool" where
  "in_use m d u i \<longleftrightarrow> i < inode_count m u \<and> i_flags m (at d (ipos i)) \<noteq> 0"

definition fs_ok :: "u32 \<Rightarrow> mem \<Rightarrow> ufs \<Rightarrow> bool" where
  "fs_ok d m u \<longleftrightarrow> mounted d u \<and> inode_count m u \<le> 256 \<and> free_above u (table_top (inode_count m u)) \<and>
     (\<forall>i. in_use m d u i \<longrightarrow> extent_ok m d u (table_top (inode_count m u)) i) \<and>
     (\<forall>i j. in_use m d u i \<and> in_use m d u j \<and> i \<noteq> j \<longrightarrow> extent m d i \<inter> extent m d j = {})"

definition updated :: "u32 \<Rightarrow> nat \<Rightarrow> mem \<Rightarrow> ufs \<Rightarrow> mem \<Rightarrow> ufs \<Rightarrow> bool" where
  "updated d i m u m' u' \<longleftrightarrow>
     bitmap_blocks u' = bitmap_blocks u \<and> mounted d u' \<and>
     (blocks_of m' d i \<noteq> 0 \<longrightarrow> 2 \<le> first_of m' d i \<and> first_of m' d i + blocks_of m' d i \<le> bitmap_blocks u) \<and>
     (\<forall>b\<in>extent m' d i. b \<in> extent m d i \<or> \<not> bitmap_test (int b) u) \<and>
     (\<forall>b. bitmap_test (int b) u' \<longleftrightarrow> bitmap_test (int b) u \<and> b \<notin> extent m d i \<or> b \<in> extent m' d i \<or> bitmap_blocks u \<le> b) \<and>
     differs_in d m m' (\<lambda>p. 12 \<le> p \<and> p < 16 \<or> ipos i + 4 \<le> p \<and> p < ipos i + 8 \<or> ipos i + 16 \<le> p \<and> p < ipos i + 24 \<or>
       (\<exists>b. b \<in> extent m' d i \<and> dpos b \<le> p \<and> p < dpos (b + 1)))"

lemma table_top_ge: "i < n \<Longrightarrow> ipos i + 88 \<le> table_top n"
  by (auto simp: table_top_def ipos_def)

lemma fs_okD:
  assumes "fs_ok d m u"
  shows "mounted d u" "inode_count m u \<le> 256" "free_above u (table_top (inode_count m u))"
    "\<And>i. in_use m d u i \<Longrightarrow> extent_ok m d u (table_top (inode_count m u)) i"
    "\<And>i j. in_use m d u i \<Longrightarrow> in_use m d u j \<Longrightarrow> i \<noteq> j \<Longrightarrow> extent m d i \<inter> extent m d j = {}"
  using assms by (auto simp: fs_ok_def)

lemma extent_above:
  assumes "fs_ok d m u" "in_use m d u i" "b \<in> extent m d i"
  shows "table_top (inode_count m u) \<le> dpos b" "2 \<le> b" "b < bitmap_blocks u" "bitmap_test (int b) u"
  using extent_okD [OF fs_okD(4) [OF assms(1,2)]] assms(3) by (auto simp: in_extent dpos_def)

lemma updatedD:
  assumes "updated d i m u m' u'"
  shows "bitmap_blocks u' = bitmap_blocks u" "mounted d u'"
    "blocks_of m' d i \<noteq> 0 \<Longrightarrow> 2 \<le> first_of m' d i \<and> first_of m' d i + blocks_of m' d i \<le> bitmap_blocks u"
    "\<And>b. b \<in> extent m' d i \<Longrightarrow> b \<in> extent m d i \<or> \<not> bitmap_test (int b) u"
    "\<And>b. bitmap_test (int b) u' \<longleftrightarrow> bitmap_test (int b) u \<and> b \<notin> extent m d i \<or> b \<in> extent m' d i \<or> bitmap_blocks u \<le> b"
    "differs_in d m m' (\<lambda>p. 12 \<le> p \<and> p < 16 \<or> ipos i + 4 \<le> p \<and> p < ipos i + 8 \<or> ipos i + 16 \<le> p \<and> p < ipos i + 24 \<or>
       (\<exists>b. b \<in> extent m' d i \<and> dpos b \<le> p \<and> p < dpos (b + 1)))"
  using assms by (auto simp: updated_def)

lemma new_extent_above:
  assumes "fs_ok d m u" "in_use m d u i" "updated d i m u m' u'" "b \<in> extent m' d i"
  shows "table_top (inode_count m u) \<le> dpos b"
proof -
  have "2 \<le> b" using updatedD(3) [OF assms(3)] assms(4) by (auto simp: in_extent)
  then show ?thesis
    using updatedD(4) [OF assms(3,4)] extent_above(1) [OF assms(1,2), of b] fs_okD(3) [OF assms(1)]
    unfolding free_above_def by blast
qed

lemma ipos_apart: "i \<noteq> j \<Longrightarrow> ipos i + 4104 \<le> ipos j \<or> ipos j + 4104 \<le> ipos i"
  by (auto simp: ipos_def)

lemma updated_word:
  assumes fs: "fs_ok d m u" and i: "in_use m d u i" and up: "updated d i m u m' u'"
    and p: "p = 16 \<or> (\<exists>j q. p = ipos j + q \<and> j < inode_count m u \<and> q \<le> 20 \<and> (i = j \<longrightarrow> q = 8 \<or> q = 12))"
  shows "rd32 m' (at d p) = rd32 m (at d p)"
proof (rule rd32_at_frame [OF updatedD(6) [OF up]])
  have n: "inode_count m u \<le> 256" by (rule fs_okD(2) [OF fs])
  then show "p + 4 \<le> addr_space" using p by (auto simp: ipos_def)
  fix k assume k: "p \<le> k" "k < p + 4"
  have "k < ipos i + 88 \<or> k < table_top (inode_count m u)"
    using p k table_top_ge [of _ "inode_count m u"] by (fastforce simp: ipos_def)
  then have "k < table_top (inode_count m u)"
    using table_top_ge [of i "inode_count m u"] i by (auto simp: in_use_def)
  then have "\<not> (\<exists>b. b \<in> extent m' d i \<and> dpos b \<le> k \<and> k < dpos (b + 1))"
    using new_extent_above [OF fs i up] by force
  moreover have "\<not> (12 \<le> k \<and> k < 16 \<or> ipos i + 4 \<le> k \<and> k < ipos i + 8 \<or> ipos i + 16 \<le> k \<and> k < ipos i + 24)"
    using p
  proof (elim disjE exE conjE)
    show ?thesis if "p = 16" using that k by (simp add: ipos_def)
    show ?thesis if "p = ipos j + q" "q \<le> 20" "i = j \<longrightarrow> q = 8 \<or> q = 12" for j q
      using that k ipos_apart [of i j] ipos_range(2) [of j] by (cases "i = j") auto
  qed
  ultimately show "\<not> (12 \<le> k \<and> k < 16 \<or> ipos i + 4 \<le> k \<and> k < ipos i + 8 \<or> ipos i + 16 \<le> k \<and> k < ipos i + 24 \<or>
       (\<exists>b. b \<in> extent m' d i \<and> dpos b \<le> k \<and> k < dpos (b + 1)))" by blast
qed

lemma updated_count:
  assumes fs: "fs_ok d m u" and i: "in_use m d u i" and up: "updated d i m u m' u'"
  shows "inode_count m' u' = inode_count m u"
  using updated_word [OF assms, of 16] updatedD(2) [OF up] fs_okD(1) [OF fs]
  by (simp add: inode_count_def mounted_def inode_fields)

lemma updated_other:
  assumes fs: "fs_ok d m u" and i: "in_use m d u i" and up: "updated d i m u m' u'" and j: "j < inode_count m u" "j \<noteq> i"
  shows "first_of m' d j = first_of m d j" "blocks_of m' d j = blocks_of m d j" "size_of m' d j = size_of m d j"
    "extent m' d j = extent m d j"
proof -
  note w = updated_word [OF fs i up]
  have *: "rd32 m' (at d (ipos j + q)) = rd32 m (at d (ipos j + q))" if "q \<le> 20" for q
    by (rule w) (use j that in auto)
  show "first_of m' d j = first_of m d j" "blocks_of m' d j = blocks_of m d j" "size_of m' d j = size_of m d j"
    using * by (simp_all add: fields_of)
  then show "extent m' d j = extent m d j" by (simp add: extent_def)
qed

lemma updated_in_use:
  assumes fs: "fs_ok d m u" and i: "in_use m d u i" and up: "updated d i m u m' u'"
  shows "in_use m' d u' j = in_use m d u j"
proof -
  have "i_flags m' (at d (ipos j)) = i_flags m (at d (ipos j))" if "j < inode_count m u"
    unfolding inode_fields by (rule updated_word [OF fs i up], rule disjI2, rule exI [of _ j]) (use that in auto)
  then show ?thesis by (auto simp: in_use_def updated_count [OF assms])
qed

lemma extent_disjoint:
  assumes fs: "fs_ok d m u" and i: "in_use m d u i" and up: "updated d i m u m' u'" and j: "in_use m d u j" "j \<noteq> i"
  shows "extent m' d i \<inter> extent m d j = {}"
  using updatedD(4) [OF up] fs_okD(5) [OF fs i j(1)] j(2) extent_above(4) [OF fs j(1)] by blast

lemma updated_fs_ok:
  assumes fs: "fs_ok d m u" and i: "in_use m d u i" and up: "updated d i m u m' u'"
  shows "fs_ok d m' u'"
proof -
  let ?t = "table_top (inode_count m u)"
  note cnt = updated_count [OF assms] and use' = updated_in_use [OF assms]
  have oth: "first_of m' d j = first_of m d j" "blocks_of m' d j = blocks_of m d j" "extent m' d j = extent m d j"
    if "in_use m d u j" "j \<noteq> i" for j
    using updated_other [OF assms, of j] that by (auto simp: in_use_def)
  have "free_above u' ?t"
    using fs_okD(3) [OF fs] extent_above(1) [OF fs i] updatedD(5) [OF up] unfolding free_above_def by blast
  moreover have "extent_ok m' d u' ?t j" if j: "in_use m d u j" for j
  proof (cases "j = i")
    case True
    show ?thesis unfolding True extent_ok_def
      using updatedD(1,3,5) [OF up] new_extent_above [OF assms, of "first_of m' d i"] by (auto simp: in_extent)
  next
    case False
    have "bitmap_test (int b) u'" if "b \<in> extent m d j" for b
      using extent_above(4) [OF fs j that] fs_okD(5) [OF fs i j] False that updatedD(5) [OF up, of b] by blast
    then show ?thesis
      using fs_okD(4) [OF fs j] oth [OF j False] updatedD(1) [OF up] by (auto simp: extent_ok_def)
  qed
  moreover have "extent m' d j \<inter> extent m' d k = {}" if j: "in_use m d u j" "in_use m d u k" "j \<noteq> k" for j k
    using fs_okD(5) [OF fs j] oth [OF j(1)] oth [OF j(2)] extent_disjoint [OF assms j(1)] extent_disjoint [OF assms j(2)] j(3)
    by (cases "j = i"; cases "k = i") auto
  ultimately show ?thesis
    unfolding fs_ok_def cnt use' using updatedD(2) [OF up] fs_okD(2) [OF fs] by auto
qed

lemma updated_content:
  assumes fs: "fs_ok d m u" and i: "in_use m d u i" and up: "updated d i m u m' u'" and j: "in_use m d u j" "j \<noteq> i"
    and full: "size_of m d j \<le> 4096 * blocks_of m d j"
  shows "content m' d j = content m d j"
proof -
  have q: "first_of m' d j = first_of m d j" "size_of m' d j = size_of m d j"
    using updated_other [OF fs i up] j by (auto simp: in_use_def)
  have "m' (at d (dpos (first_of m d j) + k)) = m (at d (dpos (first_of m d j) + k))" if k: "k < size_of m d j" for k
  proof (rule differs_inD [OF updatedD(6) [OF up]])
    let ?p = "dpos (first_of m d j) + k"
    obtain b where b: "b \<in> extent m d j" "dpos b \<le> ?p" "?p < dpos (b + 1)"
      using in_block [of "first_of m d j" ?p "blocks_of m d j"] k full by (auto simp: in_extent)
    note ab = extent_above [OF fs j(1) b(1)]
    have "bitmap_blocks u \<le> 4096" using fs_okD(1) [OF fs] by (simp add: mounted_def bitmap_ok_def)
    then show "?p < addr_space" using ab(3) b(3) by (simp add: dpos_def)
    have "ipos i + 88 \<le> ?p" using table_top_ge [of i] i ab(1) b(2) by (force simp: in_use_def)
    moreover have "\<not> (dpos c \<le> ?p \<and> ?p < dpos (c + 1))" if "c \<in> extent m' d i" for c
    proof -
      have "c \<noteq> b" using extent_disjoint [OF fs i up j] b(1) that by blast
      then show ?thesis using b(2,3) unfolding dpos_def by auto
    qed
    ultimately show "\<not> (12 \<le> ?p \<and> ?p < 16 \<or> ipos i + 4 \<le> ?p \<and> ?p < ipos i + 8 \<or> ipos i + 16 \<le> ?p \<and> ?p < ipos i + 24 \<or>
       (\<exists>b. b \<in> extent m' d i \<and> dpos b \<le> ?p \<and> ?p < dpos (b + 1)))"
      using ipos_range(2) [of i] by auto
  qed
  then show ?thesis by (simp add: content_def q)
qed

section \<open>Reading and writing\<close>

definition buffer :: "mem \<Rightarrow> u32 \<Rightarrow> nat \<Rightarrow> u8 list" where
  "buffer m a n = map (\<lambda>k. m (at a k)) [0..<n]"

definition outside :: "u32 \<Rightarrow> mem \<Rightarrow> ufs \<Rightarrow> u32 \<Rightarrow> nat \<Rightarrow> bool" where
  "outside d m u buf n \<longleftrightarrow> buf \<noteq> 0 \<and> unat (buf - d) + n \<le> addr_space \<and>
     4096 * (bitmap_blocks u + 2) \<le> unat (buf - d) \<and> table_top (inode_count m u) \<le> unat (buf - d)"

definition refers :: "ufs \<Rightarrow> int \<Rightarrow> nat \<Rightarrow> nat \<Rightarrow> bool" where
  "refers u fd i off \<longleftrightarrow> valid_fd fd u \<and> fd_ino (fd_entries u ! nat fd) = int i \<and>
     unat (fd_offset (fd_entries u ! nat fd)) = off"

lemma resizedD:
  assumes "resized d i n m u m' u'"
  shows "blocks_of m' d i = n" "kept u u'" "n \<noteq> 0 \<Longrightarrow> 2 \<le> first_of m' d i \<and> first_of m' d i + n \<le> bitmap_blocks u"
    "\<And>b. b \<in> extent m' d i \<Longrightarrow> b \<in> extent m d i \<or> \<not> bitmap_test (int b) u"
    "\<And>b. bitmap_test (int b) u' \<longleftrightarrow> bitmap_test (int b) u \<and> b \<notin> extent m d i \<or> b \<in> extent m' d i \<or> bitmap_blocks u \<le> b"
    "differs_in d m m' (\<lambda>p. meta i p \<or> (\<exists>b. b \<in> extent m' d i \<and> b \<notin> extent m d i \<and> dpos b \<le> p \<and> p < dpos (b + 1)))"
    "\<And>k. k < 4096 * blocks_of m d i \<Longrightarrow> k < size_of m d i \<Longrightarrow> k < 4096 * n \<Longrightarrow>
       m' (at d (dpos (first_of m' d i) + k)) = m (at d (dpos (first_of m d i) + k))"
  using assms by (auto simp: resized_def)

lemma resized_above:
  assumes "fs_ok d m u" "in_use m d u i" "resized d i n m u m' u'" "b \<in> extent m' d i"
  shows "table_top (inode_count m u) \<le> dpos b" "b < bitmap_blocks u"
proof -
  have "2 \<le> b \<and> b < bitmap_blocks u" using resizedD(1,3) [OF assms(3)] assms(4) by (auto simp: in_extent)
  then show "table_top (inode_count m u) \<le> dpos b" "b < bitmap_blocks u"
    using resizedD(4) [OF assms(3,4)] extent_above(1) [OF assms(1,2), of b] fs_okD(3) [OF assms(1)]
    unfolding free_above_def by blast+
qed

lemma resized_size:
  assumes fs: "fs_ok d m u" and i: "in_use m d u i" and rs: "resized d i n m u m' u'"
  shows "size_of m' d i = size_of m d i"
proof -
  have "ipos i + 88 \<le> table_top (inode_count m u)" "i < 256"
    using table_top_ge i fs_okD(2) [OF fs] by (auto simp: in_use_def)
  then have "rd32 m' (at d (ipos i + 4)) = rd32 m (at d (ipos i + 4))"
    using resized_above(1) [OF fs i rs] ipos_range [of i]
    by (intro rd32_at_frame [OF resizedD(6) [OF rs]]) (fastforce simp: meta_def)+
  then show ?thesis by (simp add: fields_of)
qed

lemma resized_outside:
  assumes fs: "fs_ok d m u" and i: "in_use m d u i" and rs: "resized d i n m u m' u'"
    and o: "outside d m u buf w" and k: "k < w"
  shows "m' (at d (unat (buf - d) + k)) = m (at buf k)"
proof -
  let ?p = "unat (buf - d) + k"
  have "m' (at d ?p) = m (at d ?p)"
  proof (rule differs_inD [OF resizedD(6) [OF rs]])
    show "?p < addr_space" using o k by (simp add: outside_def)
    have "ipos i + 88 \<le> ?p" using table_top_ge [of i] i o by (force simp: in_use_def outside_def)
    moreover have "\<not> (dpos b \<le> ?p \<and> ?p < dpos (b + 1))" if "b \<in> extent m' d i" for b
      using resized_above(2) [OF fs i rs that] o by (auto simp: outside_def dpos_def)
    ultimately show "\<not> (meta i ?p \<or> (\<exists>b. b \<in> extent m' d i \<and> b \<notin> extent m d i \<and> dpos b \<le> ?p \<and> ?p < dpos (b + 1)))"
      using ipos_range(2) [of i] by (auto simp: meta_def)
  qed
  then show ?thesis by (simp add: at_def)
qed

lemma write_copy:
  assumes mo: "mounted d u" and F: "F + n \<le> bitmap_blocks u" and cnt: "off + unat count \<le> 4096 * n"
    and out: "outside d m u buf (unat count)" and p: "p < addr_space"
  shows "snd (lib_memcpy m1 (at d (dpos F + off)) buf count) (at d p) =
    (if dpos F + off \<le> p \<and> p < dpos F + off + unat count
     then m1 (at d (unat (buf - d) + (p - (dpos F + off)))) else m1 (at d p))"
proof (cases "count = 0")
  case True
  then show ?thesis by (auto simp: lib_memcpy_def)
next
  case False
  then have "0 < unat count" by (simp add: unat_gt_0)
  then have r: "dpos F + off + unat count \<le> 4096 * (bitmap_blocks u + 2)" "dpos F + off < 4096 * (bitmap_blocks u + 2)"
    using F cnt unfolding dpos_def by auto
  have b: "at d (unat (buf - d)) = buf" by (simp add: at_def)
  have nz: "at d (dpos F + off) \<noteq> 0" "at d (unat (buf - d)) \<noteq> 0"
    using data_nonzero [OF mo r(2)] out by (auto simp: b outside_def)
  show ?thesis
    using memcpy_at [OF nz _ _ _ _ _ p, of count m1] r out mo unfolding b by (auto simp: outside_def mounted_def)
qed

lemma sub_block:
  assumes "off + w \<le> 4096 * n" "dpos F + off \<le> p" "p < dpos F + off + w"
  shows "\<exists>b. F \<le> b \<and> b < F + n \<and> dpos b \<le> p \<and> p < dpos (b + 1)"
  using assms by (intro in_block) auto

lemma write_data_memory:
  assumes fs: "fs_ok d m u" and i: "in_use m d u i" and rs: "resized d i n m u m1 u1"
    and fd: "refers u fd i off" and cnt: "count \<noteq> 0" "off + unat count \<le> 4096 * n"
    and out: "outside d m u buf (unat count)" and w: "write_data m1 fd buf count u1 = (r, m', u')"
  shows "r = sint count" "u' = set_fd (nat fd) (\<lambda>e. e\<lparr>fd_offset := fd_offset e + count\<rparr>) u1"
    "first_of m' d i = first_of m1 d i" "blocks_of m' d i = n" "size_of m' d i = max (size_of m d i) (off + unat count)"
    "differs_in d m1 m' (\<lambda>p. ipos i + 4 \<le> p \<and> p < ipos i + 8 \<or>
      dpos (first_of m1 d i) + off \<le> p \<and> p < dpos (first_of m1 d i) + off + unat count)"
    "\<And>k. k < 4096 * n \<Longrightarrow> m' (at d (dpos (first_of m1 d i) + k)) =
      (if off \<le> k \<and> k < off + unat count then m (at buf (k - off)) else m1 (at d (dpos (first_of m1 d i) + k)))"
proof -
  define F where "F = first_of m1 d i"
  define m2 where "m2 = snd (lib_memcpy m1 (at d (dpos F + off)) buf count)"
  have mo: "mounted d u" by (rule fs_okD(1) [OF fs])
  have mo1: "mounted d u1" using mo kept_mounted [OF resizedD(2) [OF rs]] by simp
  have n: "n \<noteq> 0" "F + n \<le> bitmap_blocks u" "bitmap_blocks u \<le> 4096"
    using cnt resizedD(3) [OF rs] mo unat_gt_0 [of count] by (auto simp: F_def mounted_def bitmap_ok_def)
  have e: "fd_inode fd u1 = at d (ipos i)" "unat (fd_offset (fd_entries u1 ! nat fd)) = off"
    using fd inode_at_eq [OF mo1] resizedD(2) [OF rs] by (auto simp: fd_inode_def refers_def kept_def)
  have base: "data_at u1 (i_first m1 (at d (ipos i))) + fd_offset (fd_entries u1 ! nat fd) = at d (dpos F + off)"
    by (simp add: data_at_eq [OF mo1] F_def first_of_def at_def e(2) [symmetric])
  note wc = write_copy [OF mo n(2) cnt(2) out, of _ m1, folded m2_def]
  have t: "ipos i + 88 \<le> dpos F" "i < 256"
    using resized_above(1) [OF fs i rs, of F] table_top_ge [of i "inode_count m u"] i n fs_okD(2) [OF fs] resizedD(1) [OF rs]
    by (auto simp: in_use_def in_extent F_def)
  have d2: "differs_in d m1 m2 (\<lambda>p. dpos F + off \<le> p \<and> p < dpos F + off + unat count)"
    using wc by (auto simp: differs_in_def)
  have f2: "rd32 m2 (at d (ipos i + q)) = rd32 m1 (at d (ipos i + q))" if "q \<le> 20" for q
    using that t ipos_range(1) [OF t(2)] by (intro rd32_at_frame [OF d2]) auto
  define e' where "e' = fd_offset (fd_entries u1 ! nat fd) + count"
  have ue: "unat e' = off + unat count" unfolding e'_def e(2) [symmetric] using cnt n e(2) by (intro unat_add_no_wrap) simp
  have m': "m' = (if i_size m2 (at d (ipos i)) < e' then set_i_size m2 (at d (ipos i)) e' else m2)" "r = sint count"
    "u' = set_fd (nat fd) (\<lambda>e. e\<lparr>fd_offset := fd_offset e + count\<rparr>) u1"
    using w unfolding write_data_def Let_def e base m2_def [symmetric] e'_def by auto
  show "r = sint count" "u' = set_fd (nat fd) (\<lambda>e. e\<lparr>fd_offset := fd_offset e + count\<rparr>) u1" by (fact m')+
  have sz: "unat (i_size m2 (at d (ipos i))) = size_of m d i"
    using f2 [of 4] resized_size [OF fs i rs] by (simp add: fields_of)
  have d3: "differs_in d m2 m' (\<lambda>p. ipos i + 4 \<le> p \<and> p < ipos i + 8)"
    using differs_in_wr32 [of "ipos i + 4" d m2 e'] ipos_range(1) [OF t(2)]
    by (auto simp: m' inode_fields differs_in_refl add.commute)
  show "first_of m' d i = first_of m1 d i" "blocks_of m' d i = n"
    using f2 [of 16] f2 [of 20] ipos_range(1) [OF t(2)] resizedD(1) [OF rs]
    by (auto simp: m' fields_of rd32_wr32_at)
  show "size_of m' d i = max (size_of m d i) (off + unat count)"
    using sz ue ipos_range(1) [OF t(2)] by (auto simp: m' fields_of rd32_wr32_at word_less_nat_alt)
  show "differs_in d m1 m' (\<lambda>p. ipos i + 4 \<le> p \<and> p < ipos i + 8 \<or>
      dpos (first_of m1 d i) + off \<le> p \<and> p < dpos (first_of m1 d i) + off + unat count)"
    by (rule differs_in_trans [OF d2 d3]) (auto simp: F_def)
  show "m' (at d (dpos (first_of m1 d i) + k)) =
      (if off \<le> k \<and> k < off + unat count then m (at buf (k - off)) else m1 (at d (dpos (first_of m1 d i) + k)))"
    if "k < 4096 * n" for k
  proof -
    have p: "dpos F + k < addr_space" using that n by (simp add: dpos_def)
    have "m' (at d (dpos F + k)) = m2 (at d (dpos F + k))" using t by (intro differs_inD [OF d3 p]) auto
    then show ?thesis
      using wc [OF p] resized_outside [OF fs i rs out, of "k - off"] by (auto simp: F_def [symmetric])
  qed
qed

lemma set_fd_frame:
  "bitmap_blocks (set_fd k f u) = bitmap_blocks u" "bitmap_test b (set_fd k f u) = bitmap_test b u"
  "mounted d (set_fd k f u) = mounted d u" "current_mount (set_fd k f u) = current_mount u"
  "mount_valid (set_fd k f u) = mount_valid u"
  by (simp_all add: set_fd_def bitmap_test_def mounted_def bitmap_ok_def)

lemma refers_advance:
  assumes "refers u fd i off" "mounted d u" "off + unat c < addr_space"
  shows "refers (set_fd (nat fd) (\<lambda>e. e\<lparr>fd_offset := fd_offset e + c\<rparr>) u) fd i (off + unat c)"
  using assms unat_add_no_wrap [of "fd_offset (fd_entries u ! nat fd)" c]
  by (auto simp: refers_def valid_fd_def set_fd_def mounted_def)

lemma write_data_correct:
  assumes fs: "fs_ok d m u" and i: "in_use m d u i" and rs: "resized d i n m u m1 u1"
    and fd: "refers u fd i off" and cnt: "count \<noteq> 0" "off + unat count \<le> 4096 * n"
    and sz: "off \<le> size_of m d i" "size_of m d i \<le> 4096 * blocks_of m d i" "blocks_of m d i \<le> n"
    and out: "outside d m u buf (unat count)" and w: "write_data m1 fd buf count u1 = (r, m', u')"
  shows "updated d i m u m' u'" "refers u' fd i (off + unat count)"
    "content m' d i = take off (content m d i) @ buffer m buf (unat count) @ drop (off + unat count) (content m d i)"
proof -
  note wd = write_data_memory [OF fs i rs fd cnt out w]
  define F where "F = first_of m1 d i"
  have ex: "extent m' d i = extent m1 d i" using wd resizedD(1) [OF rs] by (simp add: extent_def)
  have mo: "mounted d u1" using fs_okD(1) [OF fs] kept_mounted [OF resizedD(2) [OF rs]] by simp
  have n: "F + n \<le> bitmap_blocks u" "bitmap_blocks u \<le> 4096"
    using cnt resizedD(3) [OF rs] fs_okD(1) [OF fs] unat_gt_0 [of count] by (auto simp: F_def mounted_def bitmap_ok_def)
  have "differs_in d m m' (\<lambda>p. 12 \<le> p \<and> p < 16 \<or> ipos i + 4 \<le> p \<and> p < ipos i + 8 \<or> ipos i + 16 \<le> p \<and> p < ipos i + 24 \<or>
       (\<exists>b. b \<in> extent m1 d i \<and> dpos b \<le> p \<and> p < dpos (b + 1)))"
    by (rule differs_in_trans [OF resizedD(6) [OF rs] wd(6)])
      (use sub_block [OF cnt(2), of F] resizedD(1) [OF rs] in \<open>auto simp: meta_def in_extent F_def\<close>)
  then show "updated d i m u m' u'"
    unfolding updated_def ex using resizedD [OF rs] mo wd(3,4)
    by (simp add: wd(2) set_fd_frame kept_def)
  show "refers u' fd i (off + unat count)"
    unfolding wd(2) using fd resizedD(2) [OF rs] cnt n mo
    by (intro refers_advance [OF _ mo]) (auto simp: refers_def valid_fd_def kept_def)
  show "content m' d i = take off (content m d i) @ buffer m buf (unat count) @ drop (off + unat count) (content m d i)"
  proof (rule nth_equalityI)
    show "length (content m' d i) =
        length (take off (content m d i) @ buffer m buf (unat count) @ drop (off + unat count) (content m d i))"
      using sz by (simp add: content_def buffer_def wd(5))
    fix k assume "k < length (content m' d i)"
    then have k: "k < max (size_of m d i) (off + unat count)" by (simp add: content_def wd(5))
    then have kn: "k < 4096 * n" using cnt(2) sz by auto
    have "m1 (at d (dpos F + k)) = m (at d (dpos (first_of m d i) + k))" if "k < size_of m d i"
      using resizedD(7) [OF rs, of k] that sz kn by (simp add: F_def)
    then show "content m' d i ! k =
        (take off (content m d i) @ buffer m buf (unat count) @ drop (off + unat count) (content m d i)) ! k"
      using k sz wd(7) [OF kn] by (auto simp: content_def buffer_def nth_append wd(3,5) simp flip: F_def)
  qed
qed

definition overwrite :: "nat \<Rightarrow> u8 list \<Rightarrow> u8 list \<Rightarrow> u8 list" where
  "overwrite off xs c = take off c @ xs @ drop (off + length xs) c"

definition need_of :: "nat \<Rightarrow> nat" where
  "need_of s = (s + 4095) div 4096"

definition no_room :: "u32 \<Rightarrow> mem \<Rightarrow> ufs \<Rightarrow> nat \<Rightarrow> nat \<Rightarrow> bool" where
  "no_room d m u i s \<longleftrightarrow> unat (sb_free m d) + blocks_of m d i < need_of s \<or> (\<forall>f\<ge>2. \<not> free_run u f (need_of s))"

lemma ensure_blocks_fails:
  assumes mo: "mounted d u" and s: "unat s + 4095 < addr_space"
    and e: "ensure_blocks m u (at d (ipos i)) s = (- 1, m', u')"
  shows "no_room d m u i (unat s)"
proof -
  define need :: u32 where "need = (if s = 0 then 0 else (s + 4096 - 1) div 4096)"
  have un: "need_of (unat s) = unat need" unfolding need_def need_of_def by (rule unat_need [OF s, symmetric])
  have sb: "mnt_sb (current_mount u) = d" using mo by (auto simp: mounted_def)
  let ?a = "at d (ipos i)"
  note e = e [unfolded ensure_blocks_def Let_def need_def [symmetric] sb]
  have "sb_free m d < need - i_blocks m ?a \<and> i_blocks m ?a < need \<or>
      bitmap_find_contiguous (unat need) u = None \<and> i_blocks m ?a < need"
    using e by (auto simp: grow_empty_def relocate_def Let_def word_gt_0 split: if_splits option.splits)
  then show ?thesis
  proof (elim disjE conjE)
    assume "sb_free m d < need - i_blocks m ?a" "i_blocks m ?a < need"
    then have "unat (sb_free m d) + blocks_of m d i < unat need"
      by (simp add: word_less_nat_alt unat_sub_no_wrap blocks_of_def)
    then show ?thesis by (simp add: no_room_def un)
  next
    assume f: "bitmap_find_contiguous (unat need) u = None" "i_blocks m ?a < need"
    then have "0 < unat need" by (simp add: word_less_nat_alt)
    from find_contiguous_spec [OF this, of u] show ?thesis by (simp add: f no_room_def un)
  qed
qed

lemma need_of_ge: "s \<le> 4096 * need_of s"
  using mult_div_mod_eq [of 4096 "s + 4095"] mod_less_divisor [of 4096 "s + 4095"] unfolding need_of_def by linarith

lemma need_of_blocks: "4096 * b \<le> s \<Longrightarrow> b \<le> need_of s"
  using div_le_mono [of "4096 * b" "s + 4095" 4096] by (simp add: need_of_def)

lemma write_unfold:
  assumes mo: "mounted d u" and fd: "refers u fd i off" and i: "i_flags m (at d (ipos i)) AND 2 = 0"
    and buf: "buf \<noteq> 0" "count \<noteq> 0"
  shows "unamedfs_write m fd buf count u =
    (let a = at d (ipos i); off = fd_offset (fd_entries u ! nat fd);
         (r, m1, u1) = ensure_blocks m u a (off + count)
     in if r = 0 then write_data m1 fd buf count u1
        else let max_bytes = (i_blocks m1 a + sb_free m1 (mnt_sb (current_mount u1))) * 4096
        in if max_bytes \<le> off then (- 1, m1, u1)
        else let can = (if count < max_bytes - off then count else max_bytes - off);
                 (r, m2, u2) = ensure_blocks m1 u1 a (off + can)
        in if r \<noteq> 0 then (- 1, m2, u2) else write_data m2 fd buf can u2)"
proof -
  have v: "valid_fd fd u" "mount_valid u" and f: "fd_inode fd u = at d (ipos i)"
    using fd mo inode_at_eq [OF mo] by (auto simp: refers_def mounted_def fd_inode_def)
  then show ?thesis using i buf unfolding unamedfs_write_def Let_def f by simp
qed

definition written :: "u32 \<Rightarrow> nat \<Rightarrow> int \<Rightarrow> nat \<Rightarrow> u32 \<Rightarrow> nat \<Rightarrow> mem \<Rightarrow> ufs \<Rightarrow> mem \<Rightarrow> ufs \<Rightarrow> bool" where
  "written d i fd off buf n m u m' u' \<longleftrightarrow> fs_ok d m' u' \<and> refers u' fd i (off + n) \<and>
     content m' d i = overwrite off (buffer m buf n) (content m d i) \<and>
     (\<forall>j. in_use m d u j \<and> j \<noteq> i \<and> size_of m d j \<le> 4096 * blocks_of m d j \<longrightarrow> content m' d j = content m d j) \<and>
     differs_in d m m' (\<lambda>p. 12 \<le> p \<and> p < 16 \<or> ipos i + 4 \<le> p \<and> p < ipos i + 8 \<or> ipos i + 16 \<le> p \<and> p < ipos i + 24 \<or>
       (\<exists>b. b \<in> extent m' d i \<and> dpos b \<le> p \<and> p < dpos (b + 1))) \<and>
     inode_count m' u' = inode_count m u \<and>
     (\<forall>j k. j < inode_count m u \<and> k < 88 \<and> (j \<noteq> i \<or> k < 4 \<or> 8 \<le> k \<and> k < 16 \<or> 24 \<le> k) \<longrightarrow>
       m' (at d (ipos j + k)) = m (at d (ipos j + k))) \<and>
     (\<forall>f. f \<noteq> nat fd \<longrightarrow> fd_entries u' ! f = fd_entries u ! f)"

text \<open>The inodes keep their bytes, except size, first block and number of blocks of the file that changed.\<close>

lemma updated_headers:
  assumes fs: "fs_ok d m u" and i: "in_use m d u i" and up: "updated d i m u m' u'"
    and j: "j < inode_count m u" "k < 88" "j \<noteq> i \<or> k < 4 \<or> 8 \<le> k \<and> k < 16 \<or> 24 \<le> k"
  shows "m' (at d (ipos j + k)) = m (at d (ipos j + k))"
proof (rule differs_inD [OF updatedD(6) [OF up]])
  show "ipos j + k < addr_space" using j fs_okD(2) [OF fs] by (simp add: ipos_def)
  have "ipos j + k < table_top (inode_count m u)" using table_top_ge [OF j(1)] j(2) by simp
  then have "\<not> (\<exists>b. b \<in> extent m' d i \<and> dpos b \<le> ipos j + k \<and> ipos j + k < dpos (b + 1))"
    using new_extent_above [OF fs i up] by force
  moreover have "\<not> (ipos i + 4 \<le> ipos j + k \<and> ipos j + k < ipos i + 8 \<or> ipos i + 16 \<le> ipos j + k \<and> ipos j + k < ipos i + 24)"
    using j ipos_apart [of i j] by (cases "i = j") auto
  ultimately show "\<not> (12 \<le> ipos j + k \<and> ipos j + k < 16 \<or> ipos i + 4 \<le> ipos j + k \<and> ipos j + k < ipos i + 8 \<or>
      ipos i + 16 \<le> ipos j + k \<and> ipos j + k < ipos i + 24 \<or>
      (\<exists>b. b \<in> extent m' d i \<and> dpos b \<le> ipos j + k \<and> ipos j + k < dpos (b + 1)))"
    using ipos_range(2) [of j] by simp
qed

lemma updated_written:
  assumes fs: "fs_ok d m u" and i: "in_use m d u i" and up: "updated d i m u m' u'" and "refers u' fd i (off + n)"
    and "content m' d i = overwrite off (buffer m buf n) (content m d i)" "\<And>f. f \<noteq> nat fd \<Longrightarrow> fd_entries u' ! f = fd_entries u ! f"
  shows "written d i fd off buf n m u m' u'"
  unfolding written_def using assms(4-6) updatedD(6) [OF up] updated_fs_ok [OF fs i up] updated_content [OF fs i up]
    updated_count [OF fs i up] updated_headers [OF fs i up] by blast

lemma write_some:
  assumes fs: "fs_ok d m u" and i: "in_use m d u i" and fd: "refers u fd i off"
    and sz: "off \<le> size_of m d i" "size_of m d i \<le> 4096 * blocks_of m d i" "blocks_of m d i \<le> need_of (off + unat count)"
    and cnt: "count \<noteq> 0" "unat count < 2147483648" and out: "outside d m u buf (unat count)"
    and e: "ensure_blocks m u (at d (ipos i)) (fd_offset (fd_entries u ! nat fd) + count) = (r0, m1, u1)"
  shows "r0 = - 1 \<and> m1 = m \<and> u1 = u \<and> no_room d m u i (off + unat count) \<or>
    r0 = 0 \<and> (\<forall>r m' u'. write_data m1 fd buf count u1 = (r, m', u') \<longrightarrow>
      r = int (unat count) \<and> written d i fd off buf (unat count) m u m' u')"
proof -
  note mo = fs_okD(1) [OF fs] and eo = fs_okD(4) [OF fs i]
  have t: "ipos i + 88 \<le> table_top (inode_count m u)" "i < 256"
    using table_top_ge i fs_okD(2) [OF fs] by (auto simp: in_use_def)
  have "4096 * blocks_of m d i \<le> 16777216"
    using extent_okD(2) [OF eo] mo by (cases "blocks_of m d i = 0") (auto simp: mounted_def bitmap_ok_def)
  then have no: "off + unat count + 4095 < addr_space" using sz cnt by simp
  have us: "unat (fd_offset (fd_entries u ! nat fd) + count) = off + unat count"
    using fd no by (simp add: refers_def unat_add_no_wrap)
  from ensure_blocks_resized [OF mo t(2) eo t(1) fs_okD(3) [OF fs] _ e] no
  consider "r0 = - 1" "m1 = m" "u1 = u" | "r0 = 0" "resized d i (need_of (off + unat count)) m u m1 u1"
    by (auto simp: us need_of_def)
  then show ?thesis
  proof cases
    case 1
    then show ?thesis using ensure_blocks_fails [OF mo _ e [unfolded 1]] no by (simp add: us)
  next
    case 2
    have "r = int (unat count) \<and> written d i fd off buf (unat count) m u m' u'"
      if "write_data m1 fd buf count u1 = (r, m', u')" for r m' u'
    proof
      note wd = write_data_memory(1,2) [OF fs i 2(2) fd cnt(1) need_of_ge out that]
      note wc = write_data_correct [OF fs i 2(2) fd cnt(1) need_of_ge sz out that]
      show "r = int (unat count)" using wd(1) cnt(2) by (simp add: sint_small)
      have "fd_entries u' ! f = fd_entries u ! f" if "f \<noteq> nat fd" for f
        using that resizedD(2) [OF 2(2)] by (simp add: wd(2) set_fd_def kept_def)
      then show "written d i fd off buf (unat count) m u m' u'"
        using wc by (intro updated_written [OF fs i wc(1)]) (simp_all add: overwrite_def buffer_def)
    qed
    then show ?thesis using 2(1) by blast
  qed
qed

text \<open>C20. A write to a file system whose inode table stays clear of its data blocks (\<open>fs_ok\<close>), at a position inside the file
  and not ending before its last block, returns the number of bytes it was given. The file is then its old contents with that
  slice overwritten by the buffer, every other file has the same contents, every inode keeps its number, flags, parent and name and
  every other inode all its fields, no other descriptor moves, and memory changes nowhere but in the count of free blocks, in three words
  of the inode of the file and in the blocks of the file; the invariant of the file system holds again and the position has
  advanced. The write is shorter, or fails without any effect, only if the free blocks do not suffice or
  no run of them is long enough; the bytes it does write are then a prefix of the buffer.
  The condition on the table holds on a formatted disk with at most three inodes. It does not after \<open>vfs_init\<close>, which makes
  five: inodes are 4104 bytes apart, and the first blocks the allocator hands out hold the inodes from the fourth on. A write that ends
  before the last block is the subject of \<open>write_truncates\<close>.\<close>

theorem unamedfs_write_correct:
  assumes fs: "fs_ok d m u" and i: "in_use m d u i" "i_flags m (at d (ipos i)) AND 2 = 0" and fd: "refers u fd i off"
    and sz: "off \<le> size_of m d i" "size_of m d i \<le> 4096 * blocks_of m d i" "blocks_of m d i \<le> need_of (off + unat count)"
    and cnt: "count \<noteq> 0" "unat count < 2147483648" and out: "outside d m u buf (unat count)"
    and free: "unat (sb_free m d) + blocks_of m d i < 524288"
    and w: "unamedfs_write m fd buf count u = (r, m', u')"
  shows "r = int (unat count) \<and> written d i fd off buf (unat count) m u m' u' \<or>
    no_room d m u i (off + unat count) \<and>
      (r = - 1 \<and> m' = m \<and> u' = u \<or> 0 < r \<and> r < int (unat count) \<and> written d i fd off buf (nat r) m u m' u')"
proof -
  note mo = fs_okD(1) [OF fs]
  let ?a = "at d (ipos i)" and ?o = "fd_offset (fd_entries u ! nat fd)"
  have buf: "buf \<noteq> 0" using out by (simp add: outside_def)
  note w = w [unfolded write_unfold [OF mo fd i(2) buf cnt(1)] Let_def]
  obtain r0 m1 u1 where e: "ensure_blocks m u ?a (?o + count) = (r0, m1, u1)" by (metis prod_cases3)
  show ?thesis
  proof (cases "r0 = 0")
    case True
    then show ?thesis using write_some [OF fs i(1) fd sz cnt out e] w e by auto
  next
    case False
    then have nr: "no_room d m u i (off + unat count)" and f: "r0 = - 1" "m1 = m" "u1 = u"
      using write_some [OF fs i(1) fd sz cnt out e] by auto
    define mb where "mb = (i_blocks m ?a + sb_free m d) * 4096"
    define can where "can = (if count < mb - ?o then count else mb - ?o)"
    have sb: "mnt_sb (current_mount u) = d" using mo by (simp add: mounted_def)
    have umb: "unat mb = 4096 * (blocks_of m d i + unat (sb_free m d))"
      using free by (simp add: mb_def blocks_of_def unat_word_ariths)
    obtain r2 m2 u2 where e2: "ensure_blocks m u ?a (?o + can) = (r2, m2, u2)" by (metis prod_cases3)
    have w: "(if mb \<le> ?o then (- 1, m, u) else if r2 \<noteq> 0 then (- 1, m2, u2) else write_data m2 fd buf can u2) = (r, m', u')"
      using w unfolding e prod.case f sb unfolding mb_def [symmetric] unfolding can_def [symmetric] e2 prod.case by simp
    show ?thesis
    proof (cases "mb \<le> ?o")
      case False
      then have c: "can \<noteq> 0" "unat can = min (unat count) (unat mb - off)"
        using cnt fd by (auto simp: can_def word_less_nat_alt word_le_nat_alt unat_sub refers_def unat_eq_zero min_def)
      have "blocks_of m d i \<le> need_of (off + unat can)"
        using sz(3) c(2) umb False fd need_of_blocks [of "blocks_of m d i" "off + unat can"]
        by (auto simp: min_def word_le_nat_alt refers_def)
      moreover have "unat can < 2147483648" "outside d m u buf (unat can)"
        using c cnt(2) out by (auto simp: outside_def)
      ultimately have ws: "r2 = - 1 \<and> m2 = m \<and> u2 = u \<or> r2 = 0 \<and> (\<forall>r m' u'. write_data m2 fd buf can u2 = (r, m', u') \<longrightarrow>
          r = int (unat can) \<and> written d i fd off buf (unat can) m u m' u')"
        using write_some [OF fs i(1) fd sz(1,2) _ c(1) _ _ e2] by blast
      have "can = count \<Longrightarrow> r2 = - 1" using e e2 f by simp
      then have lt: "unat can < unat count" if "r2 = 0"
        using that c(2) by (metis min.strict_order_iff min.cobounded1 nat_less_le word_unat_eq_iff zero_neq_neg_one)
      have pos: "0 < unat can" using c(1) by (simp add: unat_gt_0)
      show ?thesis
      proof (cases "r2 = 0")
        case True
        then have "r = int (unat can) \<and> written d i fd off buf (unat can) m u m' u'" using ws w False by auto
        then show ?thesis using nr lt [OF True] pos by (metis nat_int of_nat_0_less_iff of_nat_less_iff)
      qed (use ws w False nr in auto)
    qed (use w nr in auto)
  qed
qed

lemma memcpy_out:
  assumes "buf \<noteq> 0" "src \<noteq> 0" "unat n \<le> unat (buf - src)"
  shows "snd (lib_memcpy m buf src n) = (\<lambda>a. if unat (a - buf) < unat n then m (src + (a - buf)) else m a)"
  using copy_bytes_at [of "unat n" buf src m] assms less_imp_le [OF unat_less_2p32 [of n]]
  by (simp add: memcpy_eq_copy_bytes fun_eq_iff)

lemma word_min: "unat (if a < b then a else b) = min (unat a) (unat (b :: u32))"
  by (auto simp: word_less_nat_alt min_def)

lemma file_range:
  assumes fs: "fs_ok d m u" and i: "in_use m d u i" and full: "size_of m d i \<le> 4096 * blocks_of m d i"
    and k: "k < size_of m d i"
  shows "dpos (first_of m d i) + size_of m d i \<le> 4096 * (bitmap_blocks u + 2)" "bitmap_blocks u \<le> 4096" "blocks_of m d i \<noteq> 0"
    "first_of m d i + blocks_of m d i \<le> bitmap_blocks u"
proof -
  show b: "blocks_of m d i \<noteq> 0" using k full by auto
  show "bitmap_blocks u \<le> 4096" using fs_okD(1) [OF fs] by (simp add: mounted_def bitmap_ok_def)
  show "first_of m d i + blocks_of m d i \<le> bitmap_blocks u" by (rule extent_okD(2) [OF fs_okD(4) [OF fs i] b])
  then show "dpos (first_of m d i) + size_of m d i \<le> 4096 * (bitmap_blocks u + 2)" using full by (simp add: dpos_def)
qed

lemma read_unfold:
  assumes fs: "fs_ok d m u" and i: "in_use m d u i" "i_flags m (at d (ipos i)) AND 2 = 0" and fd: "refers u fd i off"
    and full: "size_of m d i \<le> 4096 * blocks_of m d i" and buf: "buf \<noteq> 0" and n: "n = min (unat count) (size_of m d i - off)"
  shows "unamedfs_read m fd buf count u =
    (if n = 0 then (0, m, u)
     else (sint (of_nat n :: u32), snd (lib_memcpy m buf (at d (dpos (first_of m d i) + off)) (of_nat n)),
           set_fd (nat fd) (\<lambda>e. e\<lparr>fd_offset := fd_offset e + of_nat n\<rparr>) u))"
proof -
  note mo = fs_okD(1) [OF fs]
  let ?a = "at d (ipos i)" and ?o = "fd_offset (fd_entries u ! nat fd)"
  have v: "valid_fd fd u" "mount_valid u" and f: "fd_inode fd u = ?a" and uo: "unat ?o = off"
    using fd mo inode_at_eq [OF mo] by (auto simp: refers_def mounted_def fd_inode_def)
  define c where "c = (if i_size m ?a - ?o < count then i_size m ?a - ?o else count)"
  have sz: "unat (i_size m ?a) = size_of m d i" by (simp add: size_of_def)
  show ?thesis
  proof (cases "i_size m ?a \<le> ?o")
    case True
    then have "n = 0" using uo sz by (simp add: n word_le_nat_alt)
    then show ?thesis using True v i(2) buf by (simp add: unamedfs_read_def f)
  next
    case False
    then have lt: "off < size_of m d i" using uo sz by (simp add: word_le_nat_alt)
    note r = file_range [OF fs i(1) full lt]
    have uc: "unat c = n" using False by (simp add: c_def word_min n unat_sub uo sz min.commute)
    then have c: "c = of_nat n" by auto
    have "unat (i_blocks m ?a * 4096) = 4096 * blocks_of m d i"
      using r by (simp add: unat_word_ariths blocks_of_def)
    then have av: "\<not> i_blocks m ?a * 4096 \<le> ?o" "\<not> i_blocks m ?a * 4096 < ?o + c" "i_blocks m ?a \<noteq> 0"
      using lt full r uo uc n by (auto simp: word_le_nat_alt word_less_nat_alt unat_add_no_wrap blocks_of_def)
    have src: "data_at u (i_first m ?a) + ?o = at d (dpos (first_of m d i) + off)"
      by (simp add: data_at_eq [OF mo] first_of_def at_def uo [symmetric])
    have cz: "c = 0 \<longleftrightarrow> n = 0" using uc by (metis unat_eq_zero)
    show ?thesis
      unfolding unamedfs_read_def Let_def f
      unfolding c_def [symmetric] src using v i(2) buf False av cz by (simp add: c)
  qed
qed

text \<open>C21. A read returns the bytes of the file from the position of the descriptor on, as many as were
  asked for and the file has, advances the position by their number and changes no memory outside
  the buffer.\<close>

theorem unamedfs_read_correct:
  assumes fs: "fs_ok d m u" and i: "in_use m d u i" "i_flags m (at d (ipos i)) AND 2 = 0" and fd: "refers u fd i off"
    and full: "size_of m d i \<le> 4096 * blocks_of m d i" and out: "outside d m u buf (unat count)"
    and r: "unamedfs_read m fd buf count u = (r, m', u')"
  shows "let c = take (unat count) (drop off (content m d i)) in
    r = int (length c) \<and> buffer m' buf (length c) = c \<and> refers u' fd i (off + length c) \<and>
    (\<forall>a. length c \<le> unat (a - buf) \<longrightarrow> m' a = m a)"
proof -
  define n where "n = min (unat count) (size_of m d i - off)"
  have buf: "buf \<noteq> 0" using out by (simp add: outside_def)
  note r = r [unfolded read_unfold [OF fs i fd full buf n_def]]
  have len: "length (take (unat count) (drop off (content m d i))) = n" by (simp add: content_def n_def)
  show ?thesis
  proof (cases "n = 0")
    case True
    then have c: "take (unat count) (drop off (content m d i)) = []" using len by (simp only: length_0_conv)
    show ?thesis unfolding c using r fd True by (simp add: buffer_def)
  next
    case False
    then have lt: "off < size_of m d i" by (simp add: n_def)
    note rg = file_range [OF fs i(1) full lt]
    let ?s = "dpos (first_of m d i) + off"
    have un: "unat (of_nat n :: u32) = n" by (intro unat_of_nat_32) (simp add: n_def min.strict_coboundedI1)
    have n: "off + n \<le> size_of m d i" using lt by (simp add: n_def)
    have ns: "n < 2147483648" using n full rg by simp
    have b: "buf = at d (unat (buf - d))" by (simp add: at_def)
    have ends: "?s + n \<le> 4096 * (bitmap_blocks u + 2)" "4096 * (bitmap_blocks u + 2) \<le> unat (buf - d)"
      using n rg(1) out by (simp_all add: outside_def)
    have nz: "at d ?s \<noteq> 0" using ends False by (intro data_nonzero(1) [OF fs_okD(1) [OF fs]]) simp
    have "unat (at d (unat (buf - d)) - at d ?s) = unat (buf - d) - ?s"
      using ends le_less_trans [OF _ unat_less_2p32 [of "buf - d"], of ?s] by (subst unat_at_diff) auto
    then have m': "m' = (\<lambda>a. if unat (a - buf) < n then m (at d ?s + (a - buf)) else m a)"
      using r False ends memcpy_out [OF buf nz, of "of_nat n" m] unfolding b [symmetric] by (simp add: un)
    have "m' (at buf k) = m (at d (?s + k))" if "k < n" for k
      using that ns by (simp add: m' at_def ac_simps)
    then have "buffer m' buf n = take (unat count) (drop off (content m d i))"
      by (intro nth_equalityI) (auto simp: buffer_def content_def n_def add.assoc)
    moreover have "refers u' fd i (off + n)"
      using r False refers_advance [OF fd fs_okD(1) [OF fs], of "of_nat n"] n un full rg by simp
    ultimately show ?thesis using r False ns un unfolding Let_def len by (auto simp: sint_small m')
  qed
qed

section \<open>Findings about the layout and about writes\<close>

lemma store_str_frame: "length s < unat (x - a) \<Longrightarrow> store_str m a s x = m x"
proof (induction s arbitrary: m a)
  case Nil
  then show ?case by auto
next
  case (Cons c s)
  have ne: "x \<noteq> a" using Cons.prems by auto
  have "x - a \<noteq> 0" using ne by simp
  then have "unat (x - (a + 1)) = unat (x - a) - 1" using unat_minus_one_32 [of "x - a"] by (simp add: algebra_simps)
  then have "length s < unat (x - (a + 1))" using Cons.prems by simp
  then have "store_str (m(a := c)) (a + 1) s x = (m(a := c)) x" by (rule Cons.IH)
  then show ?case using ne by simp
qed

lemma init_inode_frame:
  assumes "ni \<noteq> 0" "88 \<le> unat (x - ni)"
  shows "init_inode m ni slot flags par base x = (if unat (x - ni) < 4104 then 0 else m x)"
proof -
  have far: "4 \<le> unat (x - (ni + of_nat q))" if "q \<le> 24" for q
  proof -
    have "unat (x - ni - of_nat q) = unat (x - ni) - q" using assms(2) that by (subst unat_sub) (simp_all add: word_le_nat_alt)
    then show ?thesis using assms(2) that by (simp add: diff_diff_add algebra_simps)
  qed
  have str: "length (take 63 base) < unat (x - (ni + 24))"
  proof -
    have "unat (x - ni - 24) = unat (x - ni) - 24" using assms(2) by (subst unat_sub) (simp_all add: word_le_nat_alt)
    then have "64 \<le> unat (x - (ni + 24))" using assms(2) by (simp add: algebra_simps)
    then show ?thesis by simp
  qed
  show ?thesis
    using far [of 0] far [of 4] far [of 8] far [of 12] far [of 16] far [of 20]
    by (simp add: init_inode_def Let_def store_str_frame [OF str] set_i_size_def set_i_first_def set_i_blocks_def
        wr32_other memset_correct [OF assms(1)])
qed

definition cache_only :: "ufs \<Rightarrow> ufs \<Rightarrow> bool" where
  "cache_only u u' \<longleftrightarrow> (\<exists>c. u' = u\<lparr>icache := c\<rparr>)"

lemma cache_only_refl: "cache_only u u"
  unfolding cache_only_def by (rule exI [of _ "icache u"]) simp

lemma cache_only_trans: "cache_only u u1 \<Longrightarrow> cache_only u1 u2 \<Longrightarrow> cache_only u u2"
  by (auto simp: cache_only_def)

lemma cache_only_upd: "cache_only u (u\<lparr>icache := c\<rparr>)"
  by (auto simp: cache_only_def)

lemma find_name_frame: "cache_only u (snd (find_inode_by_name_parent m name p u))"
  by (auto simp: find_inode_by_name_parent_def Let_def cache_only_upd cache_only_refl split: option.splits)

lemma step_component_frame: "cache_only u (snd (step_component m name cur u))"
  by (simp add: step_component_def cache_only_refl find_name_frame)

lemma walk_path_frame: "cache_only u (snd (walk_path m s cur u))"
proof (induction m s cur u rule: walk_path.induct)
  case (2 m c s cur u)
  note [simp del] = walk_path.simps
  let ?name = "take 63 (takeWhile (\<lambda>c. c \<noteq> slash) (c # s))" and ?rest = "dropWhile (\<lambda>c. c \<noteq> slash) (c # s)"
  obtain nxt u1 where st: "step_component m ?name cur u = (nxt, u1)" by fastforce
  have u1: "cache_only u u1" using step_component_frame [of u m ?name cur] st by simp
  show ?case
    unfolding walk_path.simps(2) Let_def st prod.case
    using 2(1) [OF refl refl] 2(2) [OF refl refl _ st [symmetric] refl] cache_only_trans [OF u1] u1 by auto
qed (simp add: cache_only_refl)

lemma find_path_frame: "cache_only u (snd (find_inode_by_path m path u))"
  by (simp add: find_inode_by_path_def cache_only_refl walk_path_frame Let_def)

lemma cache_only_keeps:
  assumes "cache_only u u'"
  shows "mounted d u' = mounted d u" "inode_count m u' = inode_count m u" "inode_at u' i = inode_at u i"
    "current_mount u' = current_mount u" "mount_valid u' = mount_valid u" "inode_is m u' name p i = inode_is m u name p i"
  using assms
  by (auto simp: cache_only_def mounted_def inode_count_def inode_at_def bitmap_ok_def inode_is_def Let_def)

lemma create_inode_effect:
  assumes mo: "mounted d u" and c: "create_inode m path flags u = (slot, m', u')" and s: "0 \<le> slot"
  shows "\<exists>m1 par base. alloc_inode_slot m u = (slot, m1) \<and> m' = init_inode m1 (inode_at u slot) slot flags par base"
proof -
  let ?b = "path_basename path 64"
  obtain p u1 where p: "find_inode_by_path m (path_dirname path) u = (p, u1)" by fastforce
  obtain f u2 where f: "find_inode_by_name_parent m ?b (word_of_int p) u1 = (f, u2)" by fastforce
  have k: "cache_only u u2"
    using find_path_frame [of u m "path_dirname path"] find_name_frame [of u1 m ?b "word_of_int p"] p f
    by (auto intro: cache_only_trans)
  have "alloc_inode_slot m u2 = alloc_inode_slot m u"
    using cache_only_keeps(3,4) [OF k] by (simp add: alloc_inode_slot_def)
  moreover obtain sl m1 where a: "alloc_inode_slot m u2 = (sl, m1)" by fastforce
  ultimately have "alloc_inode_slot m u = (sl, m1)" by simp
  then show ?thesis
    using c s cache_only_keeps(3) [OF k] by (auto simp: create_inode_def Let_def p f a split: if_splits)
qed

lemma alloc_slot_append:
  assumes mo: "mounted d u" and n: "inode_count m u < 256"
    and used: "\<And>i. i < inode_count m u \<Longrightarrow> i_flags m (at d (ipos i)) \<noteq> 0"
  shows "alloc_inode_slot m u = (int (inode_count m u), wr32 m (at d 16) (sb_inode_count m d + 1))"
proof -
  have sb: "mnt_sb (current_mount u) = d" using mo by (simp add: mounted_def)
  have "find (\<lambda>i. i_flags m (inode_at u (int i)) = 0) [0..<inode_count m u] = None"
    using used by (auto simp: find_None_iff inode_at_eq [OF mo])
  moreover have "\<not> 256 \<le> sb_inode_count m d" "sint (sb_inode_count m d) = int (inode_count m u)"
    using n by (simp_all add: inode_count_def sb word_le_nat_alt sint_small)
  ultimately show ?thesis
    by (simp add: alloc_inode_slot_def Let_def sb inode_count_def at_def)
qed

text \<open>C37. When a file system has its root and one file, creating another file clears the first 24 bytes
  of block 2, the first block of the first file: the inode that is cleared is 4104 bytes long and
  the table holds 4096 bytes per block.\<close>

theorem create_clears_data:
  assumes mo: "mounted d u" "2 < bitmap_blocks u" and n: "inode_count m u = 2" and used: "\<And>i. i < 2 \<Longrightarrow> i_flags m (at d (ipos i)) \<noteq> 0"
    and f: "first_of m d 1 = 2" "24 \<le> size_of m d 1" "size_of m d 1 \<le> 4096"
    and c: "unamedfs_create m True (Some path) u = (0, m', u')"
  shows "content m' d 1 = replicate 24 0 @ drop 24 (content m d 1)"
proof -
  obtain slot where ci: "create_inode m (path_normalize path 256) 1 u = (slot, m', u')" "0 \<le> slot"
    using c by (auto simp: unamedfs_create_def split: prod.splits if_splits)
  obtain m1 par base where a: "alloc_inode_slot m u = (slot, m1)"
      "m' = init_inode m1 (inode_at u slot) slot 1 par base"
    using create_inode_effect [OF mo(1) ci] by blast
  have al: "slot = 2" "m1 = wr32 m (at d 16) (sb_inode_count m d + 1)"
    using alloc_slot_append [OF mo(1)] n used a(1) by auto
  have ni: "inode_at u slot = at d 12304" using inode_at_eq [OF mo(1), of 2] by (simp add: al ipos_def)
  have "12304 < 4096 * (bitmap_blocks u + 2)" using mo(2) by simp
  then have nz: "at d 12304 \<noteq> 0" by (rule data_nonzero(1) [OF mo(1)])
  have "m1 (at d p) = m (at d p)" if "20 \<le> p" "p < addr_space" for p
    using differs_inD [OF differs_in_wr32 [of 16 d m "sb_inode_count m d + 1"]] that by (simp add: al)
  then have at: "m' (at d p) = (if 12304 \<le> p \<and> p < 16408 then 0 else m (at d p))"
    if "20 \<le> p" "p < 12304 \<or> 12392 \<le> p" "p < addr_space - 88" for p
    using that init_inode_frame [OF nz, of "at d p" m1 slot 1 par base]
    by (auto simp: a ni unat_at_diff)
  have fr: "differs_in d m m' (\<lambda>p. p < 20 \<or> 12304 \<le> p \<and> p < 16408 \<or> addr_space - 88 \<le> p)"
    unfolding differs_in_def using at by auto
  have rw: "rd32 m' (at d (ipos 1 + q)) = rd32 m (at d (ipos 1 + q))" if "q \<le> 20" for q
    using that by (intro rd32_at_frame [OF fr]) (auto simp: ipos_def)
  have fields: "first_of m' d 1 = 2" "size_of m' d 1 = size_of m d 1"
    using f by (simp_all add: fields_of rw del: One_nat_def)
  show ?thesis
    by (rule nth_equalityI)
      (use f at in \<open>auto simp: content_def fields [unfolded One_nat_def] nth_append dpos_def add.assoc split: if_splits\<close>)
qed

text \<open>C38. Overwriting the start of a file with data that needs fewer blocks than the file has gives the
  blocks behind it back to the bitmap although the size of the file still counts them: the tail of
  the file is lost.\<close>

theorem write_truncates:
  assumes fs: "fs_ok d m u" and i: "in_use m d u i" "i_flags m (at d (ipos i)) AND 2 = 0" and fd: "refers u fd i off"
    and cnt: "count \<noteq> 0" "off + unat count + 4095 < addr_space" and out: "outside d m u buf (unat count)"
    and short: "need_of (off + unat count) < blocks_of m d i" "4096 * need_of (off + unat count) < size_of m d i"
    and w: "unamedfs_write m fd buf count u = (r, m', u')"
  shows "r = sint count \<and> size_of m' d i = size_of m d i \<and> blocks_of m' d i = need_of (off + unat count) \<and>
    (\<forall>b. first_of m d i + need_of (off + unat count) \<le> b \<and> b < first_of m d i + blocks_of m d i \<longrightarrow>
      \<not> bitmap_test (int b) u')"
proof -
  note mo = fs_okD(1) [OF fs] and eo = fs_okD(4) [OF fs i(1)]
  let ?a = "at d (ipos i)" and ?s = "fd_offset (fd_entries u ! nat fd) + count" and ?n = "need_of (off + unat count)"
  have t: "ipos i + 88 \<le> table_top (inode_count m u)" "i < 256"
    using table_top_ge i(1) fs_okD(2) [OF fs] by (auto simp: in_use_def)
  have buf: "buf \<noteq> 0" using out by (simp add: outside_def)
  have us: "unat ?s = off + unat count" using fd cnt by (simp add: refers_def unat_add_no_wrap)
  define need :: u32 where "need = (if ?s = 0 then 0 else (?s + 4096 - 1) div 4096)"
  have un: "unat need = ?n" unfolding need_def need_of_def us [symmetric] by (rule unat_need) (simp add: us cnt)
  have lt: "need < i_blocks m ?a" using short un by (simp add: word_less_nat_alt blocks_of_def)
  obtain m1 u1 where s: "shrink_blocks m u ?a need = (m1, u1)" by fastforce
  have e: "ensure_blocks m u ?a ?s = (0, m1, u1)"
    using lt less_imp_neq [OF lt] by (simp add: ensure_blocks_def Let_def s flip: need_def)
  have rs: "resized d i ?n m u m1 u1" using shrink_resized [OF mo t(2) eo t(1) lt s] by (simp add: un)
  have wd: "write_data m1 fd buf count u1 = (r, m', u')"
    using w unfolding write_unfold [OF mo fd i(2) buf cnt(1)] Let_def e by simp
  have ct: "off + unat count \<le> 4096 * ?n" by (rule need_of_ge)
  note wm = write_data_memory [OF fs i(1) rs fd cnt(1) ct out wd]
  have b: "blocks_of m d i \<noteq> 0" "?n \<noteq> 0" using short ct cnt(1) unat_gt_0 [of count] by auto
  have "mnt_sb (current_mount u) = d" "need \<noteq> 0" using mo b un by (auto simp: mounted_def)
  then have F: "first_of m1 d i = first_of m d i"
    using s ipos_range(1) [OF t(2)] ipos_range(2) [of i]
    by (auto simp: shrink_blocks_def Let_def fields_of rd32_wr32_at split: if_splits)
  have "\<not> bitmap_test (int b) u'" if "first_of m d i + ?n \<le> b" "b < first_of m d i + blocks_of m d i" for b
    using that resizedD(1,5) [OF rs] extent_okD(2) [OF eo b(1)] F
    by (simp add: wm(2) set_fd_frame in_extent)
  then show ?thesis using wm(1,4,5) short ct by auto
qed

section \<open>Path resolution\<close>

fun split_path :: "u8 list \<Rightarrow> u8 list \<Rightarrow> u8 list list" where
  "split_path [] w = (if w = [] then [] else [w])"
| "split_path (c # s) w =
     (if c = slash then (if w = [] then split_path s [] else w # split_path s []) else split_path s (w @ [c]))"

definition path_components :: "u8 list \<Rightarrow> u8 list list" where
  "path_components path = split_path path []"

definition lookup_child :: "mem \<Rightarrow> ufs \<Rightarrow> u8 list \<Rightarrow> u32 \<Rightarrow> int" where
  "lookup_child m u name parent =
     (case find (\<lambda>i. inode_is m u name parent (int i)) [0..<inode_count m u] of Some i \<Rightarrow> int i | None \<Rightarrow> - 1)"

fun resolve :: "mem \<Rightarrow> ufs \<Rightarrow> u8 list list \<Rightarrow> int \<Rightarrow> int" where
  "resolve m u [] cur = cur"
| "resolve m u (name # rest) cur =
     (if name = [46] then resolve m u rest cur
      else if name = [46, 46] then
        resolve m u rest (if cur = 0 then 0 else sint (i_parent m (inode_at u cur)))
      else let nxt = lookup_child m u name (word_of_int cur) in
        if nxt < 0 then - 1 else resolve m u rest nxt)"

definition names_unique :: "mem \<Rightarrow> ufs \<Rightarrow> bool" where
  "names_unique m u \<longleftrightarrow> (\<forall>name parent i j. i < inode_count m u \<and> j < inode_count m u \<and>
     inode_is m u name parent (int i) \<and> inode_is m u name parent (int j) \<longrightarrow> i = j)"

lemma split_path_double: "split_path (xs @ slash # slash # ys) w = split_path (xs @ slash # ys) w"
  by (induction xs w rule: split_path.induct) auto

lemma split_path_trailing: "split_path (xs @ [slash]) w = split_path xs w"
  by (induction xs w rule: split_path.induct) auto

lemma normalize_loop_split:
  assumes "length out + length path < n" "ls \<longleftrightarrow> out \<noteq> [] \<and> last out = slash"
  shows "split_path (normalize_loop path n out ls) [] = split_path (out @ path) []"
  using assms
proof (induction path n out ls rule: normalize_loop.induct)
  case (2 c path n out ls)
  show ?case
  proof (cases "c = slash \<and> out \<noteq> [] \<and> ls")
    case True
    then obtain xs where "out = xs @ [slash]" using 2(6) by (metis append_butlast_last_id)
    then show ?thesis using True 2 by (simp add: split_path_double)
  qed (use 2 in auto)
qed simp

lemma normalize_loop_head:
  "out \<noteq> [] \<and> hd out = slash \<or> out = [] \<and> path \<noteq> [] \<and> hd path = slash \<and> 1 < n \<Longrightarrow>
    normalize_loop path n out ls \<noteq> [] \<and> hd (normalize_loop path n out ls) = slash"
  by (induction path n out ls rule: normalize_loop.induct) auto

lemma path_normalize_split:
  assumes "length path < n" "1 < n" "path \<noteq> []" "hd path = slash"
  shows "path_components (path_normalize path n) = path_components path"
    "\<exists>s. path_normalize path n = slash # s"
proof -
  define out where "out = normalize_loop path n [] False"
  have o: "split_path out [] = split_path path []" "out \<noteq> []" "hd out = slash"
    using normalize_loop_split [of "[]" path n False] normalize_loop_head [of "[]" path n False] assms
    by (auto simp: out_def)
  have t: "split_path (butlast out) [] = split_path out []" if "last out = slash"
    using split_path_trailing [of "butlast out" "[]"] that o(2) append_butlast_last_id [of out] by simp
  show "path_components (path_normalize path n) = path_components path"
    using o t by (auto simp: path_normalize_def path_components_def Let_def simp flip: out_def)
  show "\<exists>s. path_normalize path n = slash # s"
    using o by (cases out) (auto simp: path_normalize_def Let_def simp flip: out_def)
qed

lemma split_path_takeWhile:
  "split_path s w = (let t = w @ takeWhile (\<lambda>c. c \<noteq> slash) s; r = dropWhile (\<lambda>c. c \<noteq> slash) s in
     (if t = [] then [] else [t]) @ split_path (tl r) [])"
  by (induction s w rule: split_path.induct) (auto simp: Let_def)

lemma inode_is_icache: "inode_is m (u\<lparr>icache := c\<rparr>) name p i = inode_is m u name p i"
  by (simp add: inode_is_def inode_at_def)

lemma find_by_name_correct:
  assumes "names_unique m u" "mount_valid u" 
  shows "fst (find_inode_by_name_parent m name parent u) = lookup_child m u name parent"
proof (cases "ic_valid (icache u) \<and> ic_parent (icache u) = parent \<and> ic_name (icache u) = name \<and> 0 \<le> ic_ino (icache u) \<and>
    ic_ino (icache u) < int (inode_count m u) \<and> inode_is m u name parent (ic_ino (icache u))")
  case True
  define k where "k = nat (ic_ino (icache u))"
  have k: "ic_ino (icache u) = int k" "k < inode_count m u" "inode_is m u name parent (int k)" using True by (auto simp: k_def)
  have "\<not> inode_is m u name parent (int j)" if "j < k" for j
    using assms(1) k(2,3) that unfolding names_unique_def by (metis less_trans nat_neq_iff)
  then have "find (\<lambda>i. inode_is m u name parent (int i)) [0..<inode_count m u] = Some k"
    using k unfolding find_Some_iff by (intro exI [of _ k]) auto
  then show ?thesis using True assms(2) k(1) by (simp add: find_inode_by_name_parent_def lookup_child_def Let_def)
next
  case False
  then show ?thesis
    using assms(2)
    by (auto simp: find_inode_by_name_parent_def lookup_child_def Let_def inode_count_def inode_is_icache split: option.splits)
qed

lemma names_unique_keeps: "cache_only u u' \<Longrightarrow> names_unique m u' = names_unique m u"
  by (simp add: names_unique_def cache_only_keeps)

lemma lookup_child_keeps: "cache_only u u' \<Longrightarrow> lookup_child m u' name p = lookup_child m u name p"
  by (simp add: lookup_child_def cache_only_keeps)

lemma resolve_keeps: "cache_only u u' \<Longrightarrow> resolve m u' cs cur = resolve m u cs cur"
  by (induction cs arbitrary: cur) (simp_all add: lookup_child_keeps cache_only_keeps Let_def)

lemma step_component_correct:
  assumes "names_unique m u" "mount_valid u"
  shows "fst (step_component m name cur u) =
    (if name = [46] then cur
     else if name = [46, 46] then if cur = 0 then 0 else sint (i_parent m (inode_at u cur))
     else lookup_child m u name (word_of_int cur))"
  using find_by_name_correct [OF assms] by (auto simp: step_component_def)

lemma walk_path_correct:
  assumes "names_unique m u" "mount_valid u" "\<forall>c\<in>set (split_path s []). length c \<le> 63"
  shows "fst (walk_path m s cur u) = resolve m u (split_path s []) cur"
  using assms
proof (induction m s cur u rule: walk_path.induct)
  case (2 m c s cur u)
  note [simp del] = walk_path.simps split_path.simps
  let ?t = "takeWhile (\<lambda>c. c \<noteq> slash) (c # s)" and ?rest = "dropWhile (\<lambda>c. c \<noteq> slash) (c # s)"
  have sp: "split_path (c # s) [] = (if ?t = [] then [] else [?t]) @ split_path (tl ?rest) []"
    by (subst split_path_takeWhile) (simp add: Let_def)
  have long: "\<forall>c\<in>set (split_path (tl ?rest) []). length c \<le> 63" "length ?t \<le> 63"
    using 2(5) unfolding sp by (auto split: if_splits)
  then have tk: "take 63 ?t = ?t" by simp
  obtain nxt u1 where st: "step_component m ?t cur u = (nxt, u1)" by fastforce
  have u1: "cache_only u u1" using step_component_frame [of u m ?t cur] st by simp
  have nxt: "nxt = (if ?t = [46] then cur
     else if ?t = [46, 46] then if cur = 0 then 0 else sint (i_parent m (inode_at u cur))
     else lookup_child m u ?t (word_of_int cur))"
    using step_component_correct [OF 2(3,4), of ?t cur] unfolding st by simp
  show ?case
  proof (cases "?t = []")
    case True
    then show ?thesis
      using 2(1) [OF refl refl] 2(3,4) long unfolding sp walk_path.simps(2) Let_def tk by simp
  next
    case False
    have IH: "fst (walk_path m (tl ?rest) nxt u1) = resolve m u (split_path (tl ?rest) []) nxt"
      if "\<not> (nxt < 0 \<and> ?t \<noteq> [46] \<and> ?t \<noteq> [46, 46])"
      using 2(2) [OF refl refl, unfolded tk, OF False st [symmetric] refl that] 2(3,4) long(1)
      by (simp add: names_unique_keeps [OF u1] cache_only_keeps [OF u1] resolve_keeps [OF u1])
    show ?thesis
      unfolding sp walk_path.simps(2) Let_def tk st prod.case
      using False IH nxt by (auto simp: Let_def)
  qed
qed simp

lemma find_path_resolve:
  assumes "names_unique m u" "mount_valid u" "length path < 256" "path \<noteq> []" "hd path = slash"
    and "\<forall>c\<in>set (path_components path). length c \<le> 63"
  shows "fst (find_inode_by_path m path u) = resolve m u (path_components path) 0"
proof -
  obtain s where s: "path_normalize path 256 = slash # s"
    using path_normalize_split(2) [of path 256] assms(3-5) by auto
  have "path_components path = path_components (slash # s)"
    using path_normalize_split(1) [of path 256] assms(3-5) by (simp add: s)
  then have sp: "path_components path = split_path s []" by (simp add: path_components_def)
  show ?thesis
    using walk_path_correct [OF assms(1,2), of s 0] assms(2,6) unfolding sp
    by (cases s) (auto simp: find_inode_by_path_def s)
qed

text \<open>C22. For an absolute path of fewer than 256 characters with components of at most 63, and unique
  names within directories, the lookup that normalises the path and consults the inode cache finds
  the same inode as following the components one by one through a plain search of the inode table.\<close>

theorem path_resolution:
  assumes "names_unique m u" "mount_valid u" "length path < 256" "path \<noteq> []" "hd path = slash"
    and "\<forall>c\<in>set (path_components path). length c \<le> 63"
  shows "fst (find_inode_by_path m path u) = resolve m u (path_components path) 0"
  using assms by (rule find_path_resolve)

section \<open>A concrete file system\<close>

definition demo_dev :: u32 where "demo_dev = 0x100000"

definition demo_disk :: "u32 \<Rightarrow> u32 \<Rightarrow> mem" where
  "demo_disk sz blocks = fold (\<lambda>(q, v) m. wr32 m (at demo_dev q) v)
     [(0, unamedfs_magic), (8, 32), (12, 30 - blocks), (16, 2), (20, 2), (4104, 2), (4120, 0x2F),
      (8200, 1), (8204, sz), (8208, 1), (8216, 2), (8220, blocks), (8224, 0x66), (16384, 0x64636261)] (\<lambda>_. 0)"

definition demo_fs :: "u8 \<Rightarrow> ufs" where
  "demo_fs used = \<lparr>block_bitmap = used # replicate 511 0, bitmap_blocks = 32,
     fd_entries = \<lparr>fd_ino = 1, fd_offset = 0, fd_flags = 0, fd_used = True\<rparr> # replicate 63 closed_fd,
     current_mount = \<lparr>mnt_device = demo_dev, mnt_device_size = 0x20000, mnt_sb = demo_dev,
       mnt_inodes = at demo_dev 4096, mnt_data_blocks = at demo_dev 8192, mnt_mounted = True\<rparr>,
     mount_valid = True, icache = \<lparr>ic_name = [], ic_parent = 0, ic_ino = 0, ic_valid = False\<rparr>\<rparr>"

lemma demo_mounted: "mounted demo_dev (demo_fs b)"
  by (simp add: mounted_def demo_fs_def bitmap_ok_def demo_dev_def)

lemma rd32_zero: "rd32 (\<lambda>_. 0) a = 0"
  by (simp add: rd32_def)

lemma demo_word:
  "rd32 (demo_disk sz bl) (at demo_dev 12) = 30 - bl" "rd32 (demo_disk sz bl) (at demo_dev 16) = 2"
  "rd32 (demo_disk sz bl) (at demo_dev 4100) = 0" "rd32 (demo_disk sz bl) (at demo_dev 4104) = 2"
  "rd32 (demo_disk sz bl) (at demo_dev 4108) = 0"
  "rd32 (demo_disk sz bl) (at demo_dev 4112) = 0" "rd32 (demo_disk sz bl) (at demo_dev 4116) = 0"
  "rd32 (demo_disk sz bl) (at demo_dev 8204) = sz" "rd32 (demo_disk sz bl) (at demo_dev 8208) = 1"
  "rd32 (demo_disk sz bl) (at demo_dev 8212) = 0"
  "rd32 (demo_disk sz bl) (at demo_dev 8216) = 2" "rd32 (demo_disk sz bl) (at demo_dev 8220) = bl"
  by (simp_all add: demo_disk_def rd32_wr32_at rd32_zero del: at_0)

lemma demo_inodes:
  "inode_count (demo_disk sz bl) (demo_fs b) = 2"
  "i_flags (demo_disk sz bl) (at demo_dev (ipos 0)) = 2" "i_flags (demo_disk sz bl) (at demo_dev (ipos 1)) = 1"
  "size_of (demo_disk sz bl) demo_dev 1 = unat sz" "blocks_of (demo_disk sz bl) demo_dev 1 = unat bl"
  "first_of (demo_disk sz bl) demo_dev 1 = 2" "blocks_of (demo_disk sz bl) demo_dev 0 = 0"
  "sb_free (demo_disk sz bl) demo_dev = 30 - bl"
  "bitmap_blocks (demo_fs b) = 32"
  unfolding inode_count_def fields_of by (simp_all add: demo_fs_def inode_fields ipos_def demo_word)

lemma demo_refers: "refers (demo_fs b) 0 1 0"
  by (simp add: refers_def valid_fd_def demo_fs_def)

lemma demo_in_use: "in_use (demo_disk sz bl) demo_dev (demo_fs b) i \<longleftrightarrow> i < 2"
  using demo_inodes by (auto simp: in_use_def less_2_cases_iff)

lemma demo_test:
  "bitmap_test (int k) (demo_fs b) \<longleftrightarrow> k < 8 \<and> bit b k \<or> 32 \<le> k"
proof -
  have "(b # replicate 511 0) ! (k div 8) = (if k < 8 then b else 0)" if "k < 32"
    using that by (auto simp: nth_Cons')
  then show ?thesis by (auto simp: bitmap_test_bit demo_fs_def split: if_splits)
qed

lemma demo_fs_ok:
  assumes "0 < unat bl" "unat bl \<le> 6" "\<And>k. k < 8 \<Longrightarrow> bit b k \<longleftrightarrow> k < 2 + unat bl"
  shows "fs_ok demo_dev (demo_disk sz bl) (demo_fs b)"
proof -
  let ?m = "demo_disk sz bl"
  have "extent ?m demo_dev 0 = {}" "extent ?m demo_dev 1 = {2..<2 + unat bl}"
    by (simp_all add: extent_def demo_inodes del: One_nat_def)
  then show ?thesis
    unfolding fs_ok_def
    using assms demo_mounted [of b]
    by (auto simp: demo_inodes [unfolded One_nat_def] demo_in_use less_2_cases_iff extent_ok_def free_above_def demo_test table_top_def
        ipos_def dpos_def)
qed

lemma byte0: "m a = ucast (rd32 m a)"
  by (rule bit_word_eqI) (auto simp: rd32_def bit_simps)

lemma demo_names:
  "demo_disk sz bl (at demo_dev 4120) = 0x2F" "demo_disk sz bl (at demo_dev 8224) = 0x66"
  by (subst byte0, simp add: demo_disk_def rd32_wr32_at rd32_zero del: at_0)+

lemma byte1: "m (a + 1) = ucast (drop_bit 8 (rd32 m a))"
  by (rule bit_word_eqI) (auto simp: rd32_def bit_simps dest: bit_imp_le_length)

lemma demo_name_end: "demo_disk sz bl (at demo_dev 8225) = 0"
proof -
  have "at demo_dev 8225 = at demo_dev 8224 + 1" by (simp add: at_def)
  moreover have "rd32 (demo_disk sz bl) (at demo_dev 8224) = 0x66"
    by (simp add: demo_disk_def rd32_wr32_at rd32_zero del: at_0)
  ultimately show ?thesis using byte1 [of "demo_disk sz bl" "at demo_dev 8224"] by simp
qed

lemma at_plus: "at d p + numeral k = at d (p + numeral k)"
  by (simp add: at_def)

lemma demo_inode_is:
  "inode_is (demo_disk sz bl) (demo_fs b) (c # s) p 0 \<Longrightarrow> c = 0x2F"
  "inode_is (demo_disk sz bl) (demo_fs b) (c # s) p 1 \<Longrightarrow> c = 0x66"
  "\<not> inode_is (demo_disk sz bl) (demo_fs b) [] p 0" "\<not> inode_is (demo_disk sz bl) (demo_fs b) [] p 1"
  using inode_at_eq [OF demo_mounted, of b 0] inode_at_eq [OF demo_mounted, of b 1]
  by (auto simp: inode_is_def Let_def ipos_def at_plus demo_names)

lemma demo_cache: "\<not> ic_valid (icache (demo_fs b))" "mount_valid (demo_fs b)"
  by (simp_all add: demo_fs_def)

lemma demo_outside: "outside demo_dev (demo_disk sz bl) (demo_fs b) 0x300000 5000"
  by (simp add: outside_def demo_inodes table_top_def ipos_def demo_dev_def)

lemma demo_outside_le: "n \<le> 5000 \<Longrightarrow> outside demo_dev (demo_disk sz bl) (demo_fs b) 0x300000 n"
  using demo_outside [of sz bl b] by (simp add: outside_def)

lemma bits_7: "k < 8 \<Longrightarrow> bit (7 :: u8) k \<longleftrightarrow> k < 3"
  using bit_mask_iff [of 3 k, where 'a = u8] by (simp add: mask_eq_exp_minus_1)

lemma bits_15: "k < 8 \<Longrightarrow> bit (15 :: u8) k \<longleftrightarrow> k < 4"
  using bit_mask_iff [of 4 k, where 'a = u8] by (simp add: mask_eq_exp_minus_1)

lemma demo_ok: "fs_ok demo_dev (demo_disk sz 1) (demo_fs 7)" "fs_ok demo_dev (demo_disk sz 2) (demo_fs 15)"
  by (rule demo_fs_ok, simp, simp, simp only: bits_7, simp)
    (rule demo_fs_ok, simp, simp, simp only: bits_15, simp)

lemma demo_free_run: "3 \<le> f \<Longrightarrow> f + n \<le> 32 \<Longrightarrow> free_run (demo_fs 7) f n"
  unfolding free_run_def demo_test demo_inodes using bits_7 by force

text \<open>The search for a run of n free blocks returns the least block from 2 on at which n
  free blocks lie within the bitmap, and fails only if there is none.\<close>

theorem bitmap_find_contiguous_correct:
  assumes "0 < n"
  shows "case bitmap_find_contiguous n u of
     Some s \<Rightarrow> 2 \<le> s \<and> free_run u s n \<and> (\<forall>s'. 2 \<le> s' \<and> s' < s \<longrightarrow> \<not> free_run u s' n)
   | None \<Rightarrow> \<forall>s. 2 \<le> s \<longrightarrow> \<not> free_run u s n"
  by (rule find_contiguous_spec [OF assms])

theorem bitmap_find_contiguous_correct_witness:
  "\<exists>s\<ge>2. bitmap_find_contiguous 3 (demo_fs 7) = Some s \<and> free_run (demo_fs 7) s 3"
  using bitmap_find_contiguous_correct [of 3 "demo_fs 7"] demo_free_run [of 3 3] by (auto split: option.splits)

theorem unamedfs_write_correct_witness:
  "\<exists>m' u'. unamedfs_write (demo_disk 30 1) 0 0x300000 5 (demo_fs 7) = (5, m', u') \<and>
    written demo_dev 1 0 0 0x300000 5 (demo_disk 30 1) (demo_fs 7) m' u'"
proof -
  obtain r m' u' where w: "unamedfs_write (demo_disk 30 1) 0 0x300000 5 (demo_fs 7) = (r, m', u')" by (metis prod_cases3)
  have "\<not> no_room demo_dev (demo_disk 30 1) (demo_fs 7) 1 5"
    using demo_free_run [of 3 1] by (simp add: no_room_def need_of_def demo_inodes del: One_nat_def) (rule exI [of _ 3], simp)
  then show ?thesis
    using unamedfs_write_correct [OF demo_ok(1) _ _ demo_refers _ _ _ _ _ demo_outside_le _ w] w
    by (simp add: demo_in_use demo_inodes need_of_def del: One_nat_def)
qed

theorem unamedfs_read_correct_witness:
  "\<exists>m' u'. unamedfs_read (demo_disk 30 1) 0 0x300000 4 (demo_fs 7) = (4, m', u') \<and>
    buffer m' 0x300000 4 = take 4 (content (demo_disk 30 1) demo_dev 1)"
proof -
  obtain r m' u' where w: "unamedfs_read (demo_disk 30 1) 0 0x300000 4 (demo_fs 7) = (r, m', u')" by (metis prod_cases3)
  have "length (content (demo_disk 30 1) demo_dev 1) = 30" by (simp add: content_def demo_inodes del: One_nat_def)
  then show ?thesis
    using unamedfs_read_correct [OF demo_ok(1) _ _ demo_refers _ demo_outside_le w] w
    by (simp add: demo_in_use demo_inodes Let_def del: One_nat_def)
qed

theorem write_truncates_witness:
  "\<exists>m' u'. unamedfs_write (demo_disk 5000 2) 0 0x300000 5 (demo_fs 15) = (5, m', u') \<and>
    size_of m' demo_dev 1 = 5000 \<and> blocks_of m' demo_dev 1 = 1 \<and> \<not> bitmap_test 3 u'"
proof -
  obtain r m' u' where w: "unamedfs_write (demo_disk 5000 2) 0 0x300000 5 (demo_fs 15) = (r, m', u')" by (metis prod_cases3)
  then show ?thesis
    using write_truncates [OF demo_ok(2) _ _ demo_refers _ _ demo_outside_le _ _ w]
    by (simp add: demo_in_use demo_inodes need_of_def del: One_nat_def) (drule conjunct2, drule conjunct2, drule conjunct2, drule spec [of _ 3], simp)
qed

lemma demo_used: "i < 2 \<Longrightarrow> i_flags (demo_disk sz bl) (at demo_dev (ipos i)) \<noteq> 0"
  using demo_inodes(2,3) [of sz bl] by (auto simp: less_2_cases_iff)

lemma demo_create:
  "fst (unamedfs_create (demo_disk 30 1) True (Some [47, 103]) (demo_fs 7)) = 0"
proof -
  let ?m = "demo_disk 30 1" and ?u = "demo_fs 7"
  have p: "path_dirname [47, 103] = [47]" "path_basename [47, 103] 64 = [103]"
    by code_simp+
  have "\<not> inode_is ?m ?u [103] 0 0" "\<not> inode_is ?m ?u [103] 0 1"
    using demo_inode_is(1,2) [of 30 1 7 103 "[]" 0] by auto
  then have "find (\<lambda>i. inode_is ?m ?u [103] 0 (int i)) [0..<2] = None"
    by (simp add: numeral_2_eq_2)
  then have "find_inode_by_name_parent ?m [103] 0 ?u = (- 1, ?u)"
    by (simp add: find_inode_by_name_parent_def demo_inodes demo_cache)
  moreover have "find_inode_by_path ?m [47] ?u = (0, ?u)"
    by (simp add: find_inode_by_path_def path_normalize_def demo_fs_def)
  ultimately have "fst (create_inode ?m [47, 103] 1 ?u) = 2"
    using alloc_slot_append [OF demo_mounted, of ?m 7] inode_at_eq [OF demo_mounted, of 7 0] demo_used
    by (simp add: create_inode_def p demo_inodes)
  then show ?thesis by (simp add: unamedfs_create_def path_normalize_def Let_def case_prod_beta)
qed

theorem create_clears_data_witness:
  "\<exists>m' u'. unamedfs_create (demo_disk 30 1) True (Some [47, 103]) (demo_fs 7) = (0, m', u') \<and>
    content m' demo_dev 1 = replicate 24 0 @ drop 24 (content (demo_disk 30 1) demo_dev 1)"
proof -
  obtain m' u' where w: "unamedfs_create (demo_disk 30 1) True (Some [47, 103]) (demo_fs 7) = (0, m', u')"
    using demo_create by (metis fst_conv prod_cases3)
  then show ?thesis
    using create_clears_data [OF demo_mounted _ _ _ _ _ _ w] demo_used by (simp add: demo_inodes del: One_nat_def)
qed

lemma demo_unique: "names_unique (demo_disk sz bl) (demo_fs b)"
  unfolding names_unique_def demo_inodes
proof (intro allI impI, elim conjE)
  fix name p and i j :: nat
  assume ij: "i < 2" "j < 2" and eq: "inode_is (demo_disk sz bl) (demo_fs b) name p (int i)"
    "inode_is (demo_disk sz bl) (demo_fs b) name p (int j)"
  show "i = j"
  proof (cases name)
    case (Cons c s)
    then show ?thesis using ij eq demo_inode_is(1,2) [of sz bl b c s p] by (auto simp: less_2_cases_iff)
  next
    case Nil
    then show ?thesis using ij eq demo_inode_is(3,4) [of sz bl b p] by (auto simp: less_2_cases_iff)
  qed
qed

lemma demo_child: "lookup_child (demo_disk 30 1) (demo_fs 7) [102] 0 = 1"
proof -
  have "inode_is (demo_disk 30 1) (demo_fs 7) [102] 0 1"
  proof -
    have e: "inode_at (demo_fs 7) 1 = at demo_dev (ipos 1)" using inode_at_eq [OF demo_mounted, of 7 1] by simp
    have "at demo_dev (ipos 1) + 24 = at demo_dev 8224" "at demo_dev 8224 + 1 = at demo_dev 8225"
      by (simp_all add: at_def ipos_def)
    moreover have "i_parent (demo_disk 30 1) (at demo_dev (ipos 1)) = 0"
      unfolding inode_fields by (simp add: ipos_def demo_word)
    ultimately show ?thesis
      unfolding inode_is_def Let_def e demo_inodes by (simp add: demo_names demo_name_end)
  qed
  moreover have "\<not> inode_is (demo_disk 30 1) (demo_fs 7) [102] 0 0" using demo_inode_is(1) by force
  ultimately show ?thesis
    by (simp add: lookup_child_def demo_inodes numeral_2_eq_2)
qed

theorem path_resolution_witness:
  "fst (find_inode_by_path (demo_disk 30 1) [47, 47, 102, 47] (demo_fs 7)) = 1"
  using path_resolution [OF demo_unique demo_cache(2), of "[47, 47, 102, 47]" 30 1 7] demo_child
  by (simp add: path_components_def)

end
