(* ===== verification/Vfs.thy ===== *)
theory Vfs
  imports Ufs_Files
begin

text \<open>
  The virtual file system layer of \<open>src/vfs.c\<close> on top of \<open>Unnamedfs\<close>.
  \<^item> The record \<open>vfs\<close> holds the statics of the file: the vnode array, the dentry cache, the readdir
    cache, the file table, the root vnode and the mounted file system, together with the memory
    (\<open>disk\<close>) and the statics of the backend (\<open>backend\<close>) that it calls.
  \<^item> A \<open>struct vfs_node *\<close> is an index into the static vnode array, NULL is \<open>None\<close>. Every vnode has the
    operations of the unnamed file system, so a call through \<open>ops\<close> is a call of that function; the
    branches for a vnode without operations cannot be reached and are left out.
  \<^item> A lookup returns an option: \<open>None\<close> for the error -1, \<open>Some n\<close> when the node \<open>n\<close> was stored.
    An operation that would dereference a NULL vnode returns \<open>None\<close>. Locking disables interrupts
    and is not modelled.
  The lemmas show that every vnode pointer the layer holds stays valid, that the dentry cache never
  answers with a wrong or an invalidated node, and three faults in how the layer uses its backend.
\<close>

section \<open>State\<close>

definition read_str :: "mem \<Rightarrow> u32 \<Rightarrow> nat \<Rightarrow> u8 list" where
  "read_str m a n = takeWhile (\<lambda>c. c \<noteq> 0) (map (\<lambda>k. m (a + of_nat k)) [0..<n])"

record vfs_node =
  vn_id :: u32
  vn_type :: u32
  vn_refcount :: u32
  vn_data :: u32
  vn_name :: "u8 list"

record vfs_file =
  vf_node :: "nat option"
  vf_offset :: u32
  vf_mode :: u32
  vf_fd :: u32

record dentry_cache_entry =
  dc_path :: "u8 list"
  dc_node :: "nat option"
  dc_hash :: u32
  dc_lru :: u64
  dc_valid :: bool

record readdir_cache =
  rd_dir :: "nat option"
  rd_child_inos :: "nat list"
  rd_valid :: bool

record vfs_context =
  ctx_num_files :: nat
  ctx_cwd :: "nat option"
  ctx_root :: "nat option"

record vfs =
  disk :: mem
  backend :: ufs
  unnamedfs_mnt :: fs_mount
  nodes :: "vfs_node list"
  nodes_initialized :: bool
  dcache :: "dentry_cache_entry list"
  dcache_tick :: u64
  rdcache :: readdir_cache
  file_table :: "vfs_file list"
  vfd_used :: "bool list"
  root_node :: "nat option"
  num_mounts :: nat
  registered_fs :: "(u8 list \<times> u32) list"
  global_context :: vfs_context
  context_initialized :: bool

definition VFS_TYPE_FILE :: u32 where "VFS_TYPE_FILE = 1"
definition VFS_TYPE_DIR :: u32 where "VFS_TYPE_DIR = 2"

definition vfs_sb :: "vfs \<Rightarrow> u32" where
  "vfs_sb s = mnt_sb (unnamedfs_mnt s)"

definition vfs_inode :: "vfs \<Rightarrow> nat \<Rightarrow> u32" where
  "vfs_inode s i = mnt_inodes (unnamedfs_mnt s) + 4104 * of_nat i"

definition vfs_inode_count :: "vfs \<Rightarrow> nat" where
  "vfs_inode_count s = unat (sb_inode_count (disk s) (vfs_sb s))"

definition vfs_data :: "vfs \<Rightarrow> u32 \<Rightarrow> u32" where
  "vfs_data s first = mnt_data_blocks (unnamedfs_mnt s) + first * 4096"

definition i_ino :: "mem \<Rightarrow> u32 \<Rightarrow> u32" where
  "i_ino m a = rd32 m a"

section \<open>The dentry cache\<close>

definition hash_path :: "u8 list \<Rightarrow> u32" where
  "hash_path p = fold (\<lambda>c h. (push_bit 5 h + h) XOR ucast c) p 5381"

definition dcache_init :: "vfs \<Rightarrow> vfs" where
  "dcache_init s = s\<lparr>dcache := map (\<lambda>e. e\<lparr>dc_valid := False\<rparr>) (dcache s), dcache_tick := 1,
     rdcache := (rdcache s)\<lparr>rd_valid := False\<rparr>\<rparr>"

definition dcache_lookup :: "u8 list \<Rightarrow> vfs \<Rightarrow> nat option \<times> vfs" where
  "dcache_lookup path s =
     (let h = hash_path path in
      case find (\<lambda>i. dc_valid (dcache s ! i) \<and> dc_hash (dcache s ! i) = h \<and> dc_path (dcache s ! i) = path) [0..<32] of
        None \<Rightarrow> (None, s)
      | Some i \<Rightarrow> (dc_node (dcache s ! i),
          s\<lparr>dcache := (dcache s)[i := (dcache s ! i)\<lparr>dc_lru := dcache_tick s\<rparr>], dcache_tick := dcache_tick s + 1\<rparr>))"

fun dcache_victim :: "dentry_cache_entry list \<Rightarrow> nat \<Rightarrow> u64 \<Rightarrow> int \<Rightarrow> int" where
  "dcache_victim [] i oldest victim = victim"
| "dcache_victim (e # es) i oldest victim =
     (if \<not> dc_valid e then int i
      else if dc_lru e < oldest then dcache_victim es (i + 1) (dc_lru e) (int i)
      else dcache_victim es (i + 1) oldest victim)"

definition dcache_insert :: "u8 list \<Rightarrow> nat option \<Rightarrow> vfs \<Rightarrow> vfs" where
  "dcache_insert path node s =
     (if node = None then s
      else let h = hash_path path;
               victim = dcache_victim (dcache s) 0 (- 1) (- 1);
               victim = (if victim < 0 then 0 else victim)
      in s\<lparr>dcache := (dcache s)[nat victim := \<lparr>dc_path = take 255 path, dc_node = node, dc_hash = h,
             dc_lru = dcache_tick s, dc_valid = True\<rparr>], dcache_tick := dcache_tick s + 1\<rparr>)"

definition dcache_flush :: "vfs \<Rightarrow> vfs" where
  "dcache_flush s = s\<lparr>dcache := map (\<lambda>e. e\<lparr>dc_valid := False\<rparr>) (dcache s),
     rdcache := (rdcache s)\<lparr>rd_valid := False\<rparr>\<rparr>"

definition path_covers :: "u8 list \<Rightarrow> u8 list \<Rightarrow> bool" where
  "path_covers path p \<longleftrightarrow> take (length path) p = path \<and>
     (length p = length path \<or> length path < length p \<and> p ! length path = slash)"

definition dcache_invalidate :: "u8 list \<Rightarrow> vfs \<Rightarrow> vfs" where
  "dcache_invalidate path s =
     (let h = hash_path path;
          es = map (\<lambda>e. if dc_valid e \<and> dc_hash e = h \<and> dc_path e = path then e\<lparr>dc_valid := False\<rparr> else e) (dcache s);
          es = map (\<lambda>e. if dc_valid e \<and> path_covers path (dc_path e) then e\<lparr>dc_valid := False\<rparr> else e) es
      in s\<lparr>dcache := es, rdcache := (if rd_valid (rdcache s) \<and> rd_dir (rdcache s) \<noteq> None
             then (rdcache s)\<lparr>rd_valid := False\<rparr> else rdcache s)\<rparr>)"

definition dcache_invalidate_node :: "nat option \<Rightarrow> vfs \<Rightarrow> vfs" where
  "dcache_invalidate_node node s =
     (if node = None then s
      else s\<lparr>dcache := map (\<lambda>e. if dc_valid e \<and> dc_node e = node then e\<lparr>dc_valid := False\<rparr> else e) (dcache s),
             rdcache := (if rd_valid (rdcache s) \<and> rd_dir (rdcache s) = node
               then (rdcache s)\<lparr>rd_valid := False\<rparr> else rdcache s)\<rparr>)"

section \<open>Vnodes\<close>

definition blank_node :: "nat \<Rightarrow> vfs_node \<Rightarrow> vfs_node" where
  "blank_node i n = n\<lparr>vn_id := of_nat i, vn_refcount := 0, vn_data := 0, vn_name := []\<rparr>"

definition inode_to_vnode :: "u32 \<Rightarrow> vfs \<Rightarrow> nat option \<times> vfs" where
  "inode_to_vnode inode s =
     (let s = (if nodes_initialized s then s
               else s\<lparr>nodes := map (\<lambda>i. blank_node i (nodes s ! i)) [0..<256], nodes_initialized := True\<rparr>);
          m = disk s
      in if inode = 0 then (None, s)
         else if 256 \<le> i_ino m inode then (None, s)
         else let k = unat (i_ino m inode)
         in (Some k, s\<lparr>nodes := (nodes s)[k := (nodes s ! k)\<lparr>
               vn_type := (if i_flags m inode AND 2 \<noteq> 0 then VFS_TYPE_DIR else VFS_TYPE_FILE),
               vn_data := inode, vn_id := i_ino m inode, vn_name := read_str m (inode + 24) 63\<rparr>]\<rparr>))"

section \<open>The vnode operations of the unnamed file system\<close>

definition node_at :: "vfs \<Rightarrow> nat \<Rightarrow> vfs_node" where
  "node_at s k = nodes s ! k"

definition unnamedfs_vop_open :: "nat option \<Rightarrow> nat \<Rightarrow> vfs \<Rightarrow> int \<times> vfs" where
  "unnamedfs_vop_open node fd s =
     (case node of
        None \<Rightarrow> (- 1, s)
      | Some k \<Rightarrow>
          if vn_data (node_at s k) = 0 then (- 1, s)
          else (0, s\<lparr>file_table := (file_table s)[fd := (file_table s ! fd)\<lparr>vf_offset := 0, vf_node := node\<rparr>]\<rparr>))"

definition unnamedfs_vop_close :: "nat \<Rightarrow> vfs \<Rightarrow> int \<times> vfs" where
  "unnamedfs_vop_close fd s =
     (0, s\<lparr>file_table := (file_table s)[fd := (file_table s ! fd)\<lparr>vf_node := None, vf_offset := 0\<rparr>]\<rparr>)"

definition set_offset :: "nat \<Rightarrow> u32 \<Rightarrow> vfs \<Rightarrow> vfs" where
  "set_offset fd off s = s\<lparr>file_table := (file_table s)[fd := (file_table s ! fd)\<lparr>vf_offset := off\<rparr>]\<rparr>"

definition unnamedfs_vop_read :: "nat \<Rightarrow> nat \<Rightarrow> u32 \<Rightarrow> u32 \<Rightarrow> u32 \<Rightarrow> vfs \<Rightarrow> int \<times> vfs" where
  "unnamedfs_vop_read fd node buf count offset s =
     (if buf = 0 then (- 1, s)
      else let m = disk s; inode = vn_data (node_at s node)
      in if inode = 0 \<or> i_flags m inode AND 2 \<noteq> 0 then (- 1, s)
      else if i_size m inode \<le> offset then (0, s)
      else let count = (if i_size m inode - offset < count then i_size m inode - offset else count)
      in if i_blocks m inode = 0 then (0, s)
      else let avail = i_blocks m inode * 4096
      in if avail \<le> offset then (0, s)
      else let count = (if avail < offset + count then avail - offset else count);
               m = snd (lib_memcpy m buf (vfs_data s (i_first m inode) + offset) count)
           in (sint count, set_offset fd (offset + count) (s\<lparr>disk := m\<rparr>)))"

definition mark_used :: "mem \<Rightarrow> u32 \<Rightarrow> bool list \<Rightarrow> bool list" where
  "mark_used m it used =
     (if i_flags m it = 0 \<or> i_blocks m it = 0 then used
      else fold (\<lambda>b used. let bn = unat (i_first m it + of_nat b) in if bn < 64 then used[bn := True] else used)
             [0..<unat (i_blocks m it)] used)"

definition used_blocks :: "vfs \<Rightarrow> bool list" where
  "used_blocks s = fold (\<lambda>i. mark_used (disk s) (vfs_inode s i)) [0..<vfs_inode_count s]
     ((replicate 64 False)[0 := True, 1 := True])"

definition run_free :: "bool list \<Rightarrow> nat \<Rightarrow> nat \<Rightarrow> bool" where
  "run_free used start n \<longleftrightarrow> (\<forall>k\<in>set [0..<n]. \<not> (start + k < 64 \<and> used ! (start + k)))"

definition find_run :: "bool list \<Rightarrow> nat \<Rightarrow> nat \<Rightarrow> nat option" where
  "find_run used nblocks need = find (\<lambda>st. run_free used st need) [2..<Suc nblocks - need]"

definition blocks_for :: "u32 \<Rightarrow> u32" where
  "blocks_for n = (n + 4096 - 1) div 4096"

definition truncated :: "vfs \<Rightarrow> u32 \<Rightarrow> u32" where
  "truncated s cur_cap = cur_cap + sb_free (disk s) (vfs_sb s) * 4096"

definition place :: "vfs \<Rightarrow> bool list \<Rightarrow> u32 \<Rightarrow> u32 \<Rightarrow> u32 \<Rightarrow> u32 \<Rightarrow> (nat \<times> u32 \<times> u32) option" where
  "place s used need cur_blocks offset count =
     (let nblocks = unat (sb_total (disk s) (vfs_sb s)); max_can = truncated s (cur_blocks * 4096) in
      case find_run used nblocks (unat need) of
        Some f \<Rightarrow> Some (f, need, count)
      | None \<Rightarrow>
          if max_can \<le> offset then None
          else let count = max_can - offset; need = blocks_for (offset + count)
          in if need = 0 \<and> cur_blocks = 0 then None
          else map_option (\<lambda>f. (f, need, count)) (find_run used nblocks (unat need)))"

definition vop_grow :: "u32 \<Rightarrow> u32 \<Rightarrow> u32 \<Rightarrow> vfs \<Rightarrow> (u32 \<times> vfs) option" where
  "vop_grow inode offset count s =
     (let m = disk s; sb = vfs_sb s; used = used_blocks s;
          need = blocks_for (offset + count); cur_blocks = i_blocks m inode;
          extra = need - cur_blocks
      in if need \<le> cur_blocks then Some (count, s)
      else if cur_blocks = 0 then
        (case place s used need cur_blocks offset count of
           None \<Rightarrow> None
         | Some (f, need, count) \<Rightarrow>
             let m = set_i_first m inode (of_nat f);
                 m = set_i_blocks m inode need;
                 m = set_sb_free m sb (sb_free m sb - extra)
             in Some (count, s\<lparr>disk := m\<rparr>))
      else if run_free used (unat (i_first m inode + cur_blocks)) (unat extra) then
        let m = set_i_blocks m inode need;
            m = set_sb_free m sb (sb_free m sb - extra)
        in Some (count, s\<lparr>disk := m\<rparr>)
      else
        (case place s used need cur_blocks offset count of
           None \<Rightarrow> None
         | Some (f, need', count) \<Rightarrow>
             let extra = need' - cur_blocks;
                 m = snd (lib_memcpy m (vfs_data s (of_nat f)) (vfs_data s (i_first m inode)) (i_size m inode));
                 m = set_i_first m inode (of_nat f);
                 m = set_i_blocks m inode need';
                 m = set_sb_free m sb (sb_free m sb - extra)
             in Some (count, s\<lparr>disk := m\<rparr>)))"

definition vop_capacity :: "u32 \<Rightarrow> u32 \<Rightarrow> u32 \<Rightarrow> vfs \<Rightarrow> (u32 \<times> vfs) option" where
  "vop_capacity inode offset count s =
     (let m = disk s; cur_cap = i_blocks m inode * 4096
      in if offset + count \<le> cur_cap then Some (count, s)
      else let need = (if 256 < blocks_for (offset + count) then 256 else blocks_for (offset + count));
               extra = (if i_blocks m inode < need then need - i_blocks m inode else 0)
      in if sb_free m (vfs_sb s) < extra
         then if truncated s cur_cap \<le> offset then None else Some (truncated s cur_cap - offset, s)
         else vop_grow inode offset count s)"

definition unnamedfs_vop_write :: "nat \<Rightarrow> nat \<Rightarrow> u32 \<Rightarrow> u32 \<Rightarrow> u32 \<Rightarrow> vfs \<Rightarrow> int \<times> vfs" where
  "unnamedfs_vop_write fd node buf count offset s =
     (if buf = 0 then (- 1, s)
      else let inode = vn_data (node_at s node)
      in if inode = 0 \<or> i_flags (disk s) inode AND 2 \<noteq> 0 then (- 1, s)
      else case vop_capacity inode offset count s of
             None \<Rightarrow> (- 1, s)
           | Some (count, s) \<Rightarrow>
               let m = disk s; cap = 4096 * i_blocks m inode
               in if cap < offset + count \<and> cap \<le> offset then (- 1, s)
               else let count = (if cap < offset + count then cap - offset else count);
                        m = snd (lib_memcpy m (vfs_data s (i_first m inode) + offset) buf count);
                        m = (if i_size m inode < offset + count then set_i_size m inode (offset + count) else m)
                    in (sint count, set_offset fd (offset + count) (s\<lparr>disk := m\<rparr>)))"

definition children :: "vfs \<Rightarrow> u32 \<Rightarrow> nat list" where
  "children s ino = filter (\<lambda>i. i_flags (disk s) (vfs_inode s i) \<noteq> 0 \<and> i_parent (disk s) (vfs_inode s i) = ino)
     [0..<vfs_inode_count s]"

definition entry_name :: "vfs \<Rightarrow> nat \<Rightarrow> nat \<Rightarrow> u8 list" where
  "entry_name s i name_size = read_str (disk s) (vfs_inode s i + 24) (name_size - 1)"

definition unnamedfs_vop_readdir :: "nat \<Rightarrow> nat \<Rightarrow> nat \<Rightarrow> vfs \<Rightarrow> u8 list option \<times> vfs" where
  "unnamedfs_vop_readdir dir name_size index s =
     (let d = node_at s dir; dir_inode = vn_data d
      in if vn_type d \<noteq> VFS_TYPE_DIR then (None, s)
      else if vfs_sb s = 0 \<or> dir_inode = 0 then (None, s)
      else if rd_valid (rdcache s) \<and> rd_dir (rdcache s) = Some dir then
        (if length (rd_child_inos (rdcache s)) \<le> index then (None, s)
         else let i = rd_child_inos (rdcache s) ! index
         in if vfs_inode_count s \<le> i then (None, s)
         else if i_flags (disk s) (vfs_inode s i) = 0 then (None, s)
         else (Some (entry_name s i name_size), s))
      else let kids = children s (i_ino (disk s) dir_inode)
      in if 8 < length kids then
           let s = s\<lparr>rdcache := \<lparr>rd_dir = Some dir, rd_child_inos = take 256 kids, rd_valid = True\<rparr>\<rparr>
           in if length (take 256 kids) \<le> index then (None, s)
           else (Some (entry_name s (take 256 kids ! index) name_size), s)
         else if index < length kids then (Some (entry_name s (kids ! index) name_size), s)
         else (None, s))"

definition unnamedfs_vop_lookup :: "nat \<Rightarrow> u8 list \<Rightarrow> vfs \<Rightarrow> nat option option \<times> vfs" where
  "unnamedfs_vop_lookup dir name s =
     (let d = node_at s dir; dir_inode = vn_data d; m = disk s
      in if vn_type d \<noteq> VFS_TYPE_DIR then (None, s)
      else if dir_inode = 0 then (None, s)
      else if vfs_sb s = 0 then (None, s)
      else if name = [46, 46] \<or> name = [46] then (Some (Some dir), s)
      else case find (\<lambda>i. i_flags m (vfs_inode s i) \<noteq> 0 \<and> i_parent m (vfs_inode s i) = i_ino m dir_inode \<and>
                        str_eq m (vfs_inode s i + 24) name) [0..<vfs_inode_count s] of
             None \<Rightarrow> (None, s)
           | Some i \<Rightarrow> let (n, s) = inode_to_vnode (vfs_inode s i) s in (Some n, s))"

record vfs_stat_buf =
  st_mode :: u32
  st_type :: u32
  st_size :: u32
  st_blocks :: u32

definition unnamedfs_vop_stat :: "nat \<Rightarrow> vfs \<Rightarrow> vfs_stat_buf option" where
  "unnamedfs_vop_stat node s =
     (let n = node_at s node; inode = vn_data n
      in if inode = 0 then None
      else Some \<lparr>st_mode = 1 OR 2, st_type = vn_type n, st_size = i_size (disk s) inode, st_blocks = i_blocks (disk s) inode\<rparr>)"

definition new_inode :: "mem \<Rightarrow> u32 \<Rightarrow> u32 \<Rightarrow> u32 \<Rightarrow> u32 \<Rightarrow> u8 list \<Rightarrow> mem" where
  "new_inode m ni ino flags parent name =
     (let m = snd (lib_memset m ni 0 4104);
          m = wr32 m ni ino;
          m = wr32 m (ni + 8) flags;
          m = wr32 m (ni + 12) parent
      in store_str m (ni + 24) (take 63 name))"

definition free_slot :: "vfs \<Rightarrow> nat option" where
  "free_slot s = find (\<lambda>i. i_flags (disk s) (vfs_inode s i) = 0) [0..<vfs_inode_count s]"

definition append_inode :: "u32 \<Rightarrow> u32 \<Rightarrow> u8 list \<Rightarrow> vfs \<Rightarrow> vfs" where
  "append_inode flags parent name s =
     (let m = disk s; n = sb_inode_count m (vfs_sb s);
          m = new_inode m (vfs_inode s (vfs_inode_count s)) n flags parent name;
          m = wr32 m (vfs_sb s + 16) (sb_inode_count m (vfs_sb s) + 1);
          s = dcache_flush (s\<lparr>disk := m\<rparr>)
      in s\<lparr>rdcache := (rdcache s)\<lparr>rd_valid := False\<rparr>\<rparr>)"

definition unnamedfs_vop_create :: "nat \<Rightarrow> u8 list \<Rightarrow> vfs \<Rightarrow> int \<times> vfs" where
  "unnamedfs_vop_create dir name s =
     (let d = node_at s dir; dir_inode = vn_data d
      in if vn_type d \<noteq> VFS_TYPE_DIR then (- 1, s)
      else if 64 \<le> length name then (- 1, s)
      else if dir_inode = 0 then (- 1, s)
      else let (found, s) = unnamedfs_vop_lookup dir name s
      in if found \<noteq> None then (- 1, s)
      else if 256 \<le> sb_inode_count (disk s) (vfs_sb s) then
        (case free_slot s of
           None \<Rightarrow> (- 1, s)
         | Some i \<Rightarrow> (0, dcache_flush
             (s\<lparr>disk := new_inode (disk s) (vfs_inode s i) (of_nat i) 1 (i_ino (disk s) dir_inode) name\<rparr>)))
      else (0, append_inode 1 (i_ino (disk s) dir_inode) name s))"

definition unnamedfs_vop_mkdir :: "nat \<Rightarrow> u8 list \<Rightarrow> vfs \<Rightarrow> int \<times> vfs" where
  "unnamedfs_vop_mkdir dir name s =
     (let d = node_at s dir; dir_inode = vn_data d
      in if vn_type d \<noteq> VFS_TYPE_DIR then (- 1, s)
      else if 64 \<le> length name then (- 1, s)
      else if dir_inode = 0 then (- 1, s)
      else let (found, s) = unnamedfs_vop_lookup dir name s
      in if found \<noteq> None then (- 1, s)
      else case free_slot s of
             Some i \<Rightarrow>
               let s = dcache_flush
                 (s\<lparr>disk := new_inode (disk s) (vfs_inode s i) (of_nat i) 2 (i_ino (disk s) dir_inode) name\<rparr>)
               in (0, s\<lparr>rdcache := (rdcache s)\<lparr>rd_valid := False\<rparr>\<rparr>)
           | None \<Rightarrow>
               if 256 \<le> sb_inode_count (disk s) (vfs_sb s) then (- 1, s)
               else (0, append_inode 2 (i_ino (disk s) dir_inode) name s))"

fun path_stack :: "vfs \<Rightarrow> int \<Rightarrow> nat \<Rightarrow> u8 list list" where
  "path_stack s cur 0 = []"
| "path_stack s cur (Suc left) =
     (if cur = 0 then []
      else let ci = vfs_inode s (nat cur); nxt = sint (i_parent (disk s) ci); name = read_str (disk s) (ci + 24) 63
      in if nxt < 0 \<or> int (vfs_inode_count s) \<le> nxt then [name] else name # path_stack s nxt left)"

definition join_path :: "u8 list list \<Rightarrow> u8 list" where
  "join_path stack = fold (\<lambda>name p. (if p = [slash] then p else p @ [slash]) @ name) (rev stack) [slash]"

definition find_entry :: "nat \<Rightarrow> u8 list \<Rightarrow> vfs \<Rightarrow> nat option" where
  "find_entry dir name s =
     (let m = disk s
      in find (\<lambda>i. i_flags m (vfs_inode s i) \<noteq> 0 \<and> i_parent m (vfs_inode s i) = i_ino m (vn_data (node_at s dir)) \<and>
                str_eq m (vfs_inode s i + 24) name) [0..<vfs_inode_count s])"

definition unnamedfs_vop_unlink :: "nat \<Rightarrow> u8 list \<Rightarrow> vfs \<Rightarrow> int \<times> vfs" where
  "unnamedfs_vop_unlink dir name s =
     (let d = node_at s dir; dir_inode = vn_data d; m = disk s
      in if vn_type d \<noteq> VFS_TYPE_DIR then (- 1, s)
      else if dir_inode = 0 then (- 1, s)
      else case find_entry dir name s of
             None \<Rightarrow> (- 1, s)
           | Some target \<Rightarrow>
               let t = vfs_inode s target
               in if i_flags m t AND 2 \<noteq> 0 \<and> children s (i_ino m t) \<noteq> [] then (- 1, s)
               else let path = join_path (path_stack s (int target) 8);
                        (rc, m', u) = (if i_flags m t AND 2 \<noteq> 0 then unamedfs_rmdir m (Some path) (backend s)
                                       else unamedfs_unlink m (Some path) (backend s));
                        s = s\<lparr>disk := m', backend := u\<rparr>
               in if rc \<noteq> 0 then (rc, s)
               else let s = dcache_invalidate path s;
                        (n, s) = inode_to_vnode t s;
                        s = dcache_invalidate_node n s
                    in (rc, s\<lparr>rdcache := (rdcache s)\<lparr>rd_valid := False\<rparr>\<rparr>))"

section \<open>The file system interface\<close>

definition closed_file :: vfs_file where
  "closed_file = \<lparr>vf_node = None, vf_offset = 0, vf_mode = 0, vf_fd = 0\<rparr>"

definition vfs_init :: "u32 \<Rightarrow> vfs \<Rightarrow> vfs" where
  "vfs_init ram_disk s =
     (let s = s\<lparr>vfd_used := replicate 64 False,
                file_table := map (\<lambda>f. f\<lparr>vf_node := None, vf_offset := 0\<rparr>) (file_table s),
                num_mounts := 0, registered_fs := []\<rparr>;
          s = dcache_init s;
          m = snd (unamedfs_format (disk s) ram_disk 65536);
          (r, mnt, u) = unamedfs_mount m (Some (unnamedfs_mnt s)) ram_disk 65536 (backend s);
          s = s\<lparr>disk := m, backend := u, unnamedfs_mnt := the mnt\<rparr>;
          (root, s) = inode_to_vnode (vfs_inode s 0) s;
          s = s\<lparr>root_node := root, num_mounts := 1\<rparr>;
          (r, m, u) = unamedfs_mkdir (disk s) True (Some [47, 98, 105, 110]) (backend s);
          (r, m, u) = unamedfs_mkdir m True (Some [47, 101, 116, 99]) u;
          (r, m, u) = unamedfs_mkdir m True (Some [47, 104, 111, 109, 101]) u;
          (r, m, u) = unamedfs_mkdir m True (Some [47, 116, 109, 112]) u
      in s\<lparr>disk := m, backend := u\<rparr>)"

definition vfs_register_fs :: "u8 list option \<Rightarrow> u32 \<Rightarrow> vfs \<Rightarrow> int \<times> vfs" where
  "vfs_register_fs name ops s =
     (case name of
        None \<Rightarrow> (- 1, s)
      | Some name \<Rightarrow>
          if ops = 0 then (- 1, s)
          else if 8 \<le> length (registered_fs s) then (- 1, s)
          else (0, s\<lparr>registered_fs := registered_fs s @ [(take 31 name, ops)]\<rparr>))"

definition vfs_lookup_component :: "nat \<Rightarrow> u8 list \<Rightarrow> vfs \<Rightarrow> nat option option \<times> vfs" where
  "vfs_lookup_component dir name s =
     (let m = disk s; inode = vn_data (node_at s dir)
      in if name = [46] then (Some (Some dir), s)
      else if name = [46, 46] then
        (if inode = 0 then (Some (root_node s), s)
         else if i_ino m inode = 0 then (Some (Some dir), s)
         else case find (\<lambda>i. i_ino m (vfs_inode s i) = i_parent m inode) [0..<vfs_inode_count s] of
                Some i \<Rightarrow> let (n, s) = inode_to_vnode (vfs_inode s i) s in (Some n, s)
              | None \<Rightarrow> (Some (root_node s), s))
      else unnamedfs_vop_lookup dir name s)"

lemma skip_shorter:
  assumes "takeWhile p xs \<noteq> []"
  shows "length (dropWhile q (dropWhile p xs)) < length xs"
proof -
  obtain x ys where "xs = x # ys" "p x" using assms by (cases xs) (auto split: if_splits)
  then show ?thesis
    using order.trans [OF length_dropWhile_le [of q] length_dropWhile_le [of p ys]] by (simp add: less_Suc_eq_le)
qed

function vfs_walk :: "u8 list \<Rightarrow> nat option \<Rightarrow> vfs \<Rightarrow> nat option option \<times> vfs" where
  "vfs_walk p current s =
     (let name = takeWhile (\<lambda>c. c \<noteq> slash) p;
          rest = dropWhile (\<lambda>c. c = slash) (dropWhile (\<lambda>c. c \<noteq> slash) p)
      in if 63 < length name then (None, s)
      else if name = [] then (Some current, s)
      else case current of
             None \<Rightarrow> (None, s)
           | Some dir \<Rightarrow>
               let (nxt, s) = vfs_lookup_component dir name s
               in case nxt of
                    None \<Rightarrow> (None, s)
                  | Some nxt \<Rightarrow> if rest = [] then (Some nxt, s) else vfs_walk rest nxt s)"
  by pat_completeness auto
termination
  by (relation "measure (\<lambda>(p, current, s). length p)") (simp_all add: skip_shorter)

declare vfs_walk.simps [simp del]

definition vfs_lookup :: "u8 list option \<Rightarrow> vfs \<Rightarrow> nat option option \<times> vfs" where
  "vfs_lookup path s =
     (case path of
        None \<Rightarrow> (None, s)
      | Some path \<Rightarrow>
          if path = [] then (None, s)
          else let norm = path_normalize path 256;
              (cached, s) = dcache_lookup norm s
          in if cached \<noteq> None then (Some cached, s)
          else let p = dropWhile (\<lambda>c. c = slash) path
          in if p = [] then (Some (root_node s), dcache_insert norm (root_node s) s)
          else let (r, s) = vfs_walk p (root_node s) s
          in case r of
               None \<Rightarrow> (None, s)
             | Some current \<Rightarrow> (Some current, dcache_insert norm current s))"

definition upd_node :: "nat \<Rightarrow> (vfs_node \<Rightarrow> vfs_node) \<Rightarrow> vfs \<Rightarrow> vfs" where
  "upd_node k f s = s\<lparr>nodes := (nodes s)[k := f (nodes s ! k)]\<rparr>"

definition vfs_open :: "u8 list option \<Rightarrow> u32 \<Rightarrow> vfs \<Rightarrow> (int \<times> vfs) option" where
  "vfs_open path mode s =
     (case vfs_lookup path s of
        (None, s) \<Rightarrow> Some (- 1, s)
      | (Some node, s) \<Rightarrow>
          (case find (\<lambda>fd. \<not> vfd_used s ! fd) [0..<64] of
             None \<Rightarrow> Some (- 1, s)
           | Some fd \<Rightarrow>
               let s = s\<lparr>file_table := (file_table s)[fd := \<lparr>vf_node = node, vf_offset = 0, vf_mode = mode, vf_fd = of_nat fd\<rparr>]\<rparr>
               in case node of
                    None \<Rightarrow> None
                  | Some k \<Rightarrow>
                      let (r, s) = unnamedfs_vop_open node fd s
                      in if r \<noteq> 0 then Some (- 1, s)
                      else Some (int fd, upd_node k (\<lambda>n. n\<lparr>vn_refcount := vn_refcount n + 1\<rparr>)
                             (s\<lparr>vfd_used := (vfd_used s)[fd := True]\<rparr>))))"

definition open_fd :: "int \<Rightarrow> vfs \<Rightarrow> bool" where
  "open_fd fd s \<longleftrightarrow> 0 \<le> fd \<and> fd < 64 \<and> vfd_used s ! nat fd"

definition vfs_close :: "int \<Rightarrow> vfs \<Rightarrow> int \<times> vfs" where
  "vfs_close fd s =
     (if \<not> open_fd fd s then (- 1, s)
      else let s = (if vf_node (file_table s ! nat fd) \<noteq> None then snd (unnamedfs_vop_close (nat fd) s) else s);
               s = (case vf_node (file_table s ! nat fd) of
                      None \<Rightarrow> s
                    | Some k \<Rightarrow> upd_node k (\<lambda>n. n\<lparr>vn_refcount := vn_refcount n - 1\<rparr>) s)
           in (0, s\<lparr>vfd_used := (vfd_used s)[nat fd := False],
                    file_table := (file_table s)[nat fd := (file_table s ! nat fd)\<lparr>vf_node := None\<rparr>]\<rparr>))"

definition vfs_read :: "int \<Rightarrow> u32 \<Rightarrow> u32 \<Rightarrow> vfs \<Rightarrow> int \<times> vfs" where
  "vfs_read fd buf count s =
     (if \<not> open_fd fd s then (- 1, s)
      else case vf_node (file_table s ! nat fd) of
             None \<Rightarrow> (- 1, s)
           | Some k \<Rightarrow> unnamedfs_vop_read (nat fd) k buf count (vf_offset (file_table s ! nat fd)) s)"

definition vfs_write :: "int \<Rightarrow> u32 \<Rightarrow> u32 \<Rightarrow> vfs \<Rightarrow> int \<times> vfs" where
  "vfs_write fd buf count s =
     (if \<not> open_fd fd s then (- 1, s)
      else case vf_node (file_table s ! nat fd) of
             None \<Rightarrow> (- 1, s)
           | Some k \<Rightarrow>
               let (ret, s) = unnamedfs_vop_write (nat fd) k buf count (vf_offset (file_table s ! nat fd)) s
               in (ret, if 0 < ret then s\<lparr>rdcache := (rdcache s)\<lparr>rd_valid := False\<rparr>\<rparr> else s))"

definition vfs_lseek :: "int \<Rightarrow> int \<Rightarrow> int \<Rightarrow> vfs \<Rightarrow> (int \<times> vfs) option" where
  "vfs_lseek fd offset whence s =
     (if \<not> open_fd fd s then Some (- 1, s)
      else let seek = (\<lambda>nxt. if nxt < 0 then (- 1, s) else (nxt, set_offset (nat fd) (word_of_int nxt) s))
      in if whence = 0 then Some (seek offset)
      else if whence = 1 then Some (seek (sint (vf_offset (file_table s ! nat fd)) + offset))
      else if whence = 2 then
        (case vf_node (file_table s ! nat fd) of
           None \<Rightarrow> None
         | Some k \<Rightarrow>
             (case unnamedfs_vop_stat k s of
                None \<Rightarrow> Some (- 1, s)
              | Some st \<Rightarrow> Some (seek (sint (st_size st) + offset))))
      else Some (- 1, s))"

definition vfs_readdir :: "int \<Rightarrow> nat \<Rightarrow> vfs \<Rightarrow> u8 list option \<times> vfs" where
  "vfs_readdir fd name_size s =
     (if \<not> open_fd fd s \<or> name_size = 0 then (None, s)
      else case vf_node (file_table s ! nat fd) of
             None \<Rightarrow> (None, s)
           | Some k \<Rightarrow>
               if vn_type (node_at s k) \<noteq> VFS_TYPE_DIR then (None, s)
               else let index = vf_offset (file_table s ! nat fd);
                        (name, s) = unnamedfs_vop_readdir k name_size (unat index) s
               in (name, if name \<noteq> None then set_offset (nat fd) (index + 1) s else s))"

definition vfs_stat :: "u8 list option \<Rightarrow> vfs \<Rightarrow> (vfs_stat_buf option \<times> vfs) option" where
  "vfs_stat path s =
     (case vfs_lookup path s of
        (None, s) \<Rightarrow> Some (None, s)
      | (Some None, s) \<Rightarrow> None
      | (Some (Some k), s) \<Rightarrow> Some (unnamedfs_vop_stat k s, s))"

definition vfs_fstat :: "int \<Rightarrow> vfs \<Rightarrow> vfs_stat_buf option" where
  "vfs_fstat fd s =
     (if \<not> open_fd fd s then None
      else case vf_node (file_table s ! nat fd) of None \<Rightarrow> None | Some k \<Rightarrow> unnamedfs_vop_stat k s)"

definition split_parent :: "u8 list \<Rightarrow> u8 list \<times> u8 list" where
  "split_parent path =
     (let tmp = take (drop_trailing path (length path)) path
      in case find (\<lambda>i. tmp ! i = slash) (rev [0..<length tmp]) of
           None \<Rightarrow> ([slash], tmp)
         | Some k \<Rightarrow> if k = 0 then ([slash], drop 1 tmp) else (take k tmp, drop (k + 1) tmp))"

definition vfs_mkdir :: "u8 list option \<Rightarrow> vfs \<Rightarrow> (int \<times> vfs) option" where
  "vfs_mkdir path s =
     (case path of
        None \<Rightarrow> Some (- 1, s)
      | Some path \<Rightarrow>
          if path = [] \<or> 256 \<le> length path then Some (- 1, s)
          else let (parent_path, name) = split_parent path
          in if name = [] \<or> 64 \<le> length name then Some (- 1, s)
          else case vfs_lookup (Some parent_path) s of
                 (None, s) \<Rightarrow> Some (- 1, s)
               | (Some None, s) \<Rightarrow> None
               | (Some (Some parent), s) \<Rightarrow>
                   if vn_type (node_at s parent) \<noteq> VFS_TYPE_DIR then Some (- 1, s)
                   else let (existing, s) = vfs_lookup (Some path) s
                   in if existing \<noteq> None then Some (- 1, s)
                   else let (rc, s) = unnamedfs_vop_mkdir parent name s
                   in if rc \<noteq> 0 then Some (rc, s)
                   else let s = dcache_invalidate (path_normalize path 256) s
                   in Some (rc, s\<lparr>rdcache := (rdcache s)\<lparr>rd_valid := False\<rparr>\<rparr>))"

definition remove_entry :: "u8 list \<Rightarrow> nat \<Rightarrow> nat \<Rightarrow> u8 list \<Rightarrow> vfs \<Rightarrow> int \<times> vfs" where
  "remove_entry norm target parent name s =
     (let (rc, s) = unnamedfs_vop_unlink parent name s
      in if rc \<noteq> 0 then (rc, s)
      else let s = dcache_invalidate norm s; s = dcache_invalidate_node (Some target) s
      in (rc, s\<lparr>rdcache := (rdcache s)\<lparr>rd_valid := False\<rparr>\<rparr>))"

definition vfs_unlink :: "u8 list option \<Rightarrow> vfs \<Rightarrow> (int \<times> vfs) option" where
  "vfs_unlink path s =
     (case path of
        None \<Rightarrow> Some (- 1, s)
      | Some path \<Rightarrow>
          if path = [] then Some (- 1, s)
          else let norm = path_normalize path 256
          in case vfs_lookup (Some norm) s of
               (None, s) \<Rightarrow> Some (- 1, s)
             | (Some None, s) \<Rightarrow> None
             | (Some (Some target), s) \<Rightarrow>
                 if vn_type (node_at s target) = VFS_TYPE_DIR then Some (- 1, s)
                 else let (parent_path, name) = split_parent norm
                 in case vfs_lookup (Some parent_path) s of
                      (None, s) \<Rightarrow> Some (- 1, s)
                    | (Some None, s) \<Rightarrow> None
                    | (Some (Some parent), s) \<Rightarrow> Some (remove_entry norm target parent (take 63 name) s))"

definition vfs_rmdir :: "u8 list option \<Rightarrow> vfs \<Rightarrow> (int \<times> vfs) option" where
  "vfs_rmdir path s =
     (case path of
        None \<Rightarrow> Some (- 1, s)
      | Some path \<Rightarrow>
          if path = [] then Some (- 1, s)
          else let norm = path_normalize path 256
          in if norm = [slash] then Some (- 1, s)
          else case vfs_lookup (Some norm) s of
               (None, s) \<Rightarrow> Some (- 1, s)
             | (Some None, s) \<Rightarrow> None
             | (Some (Some target), s) \<Rightarrow>
                 if vn_type (node_at s target) \<noteq> VFS_TYPE_DIR then Some (- 1, s)
                 else let (parent_path, name) = split_parent norm
                 in case vfs_lookup (Some parent_path) s of
                      (None, s) \<Rightarrow> Some (- 1, s)
                    | (Some None, s) \<Rightarrow> None
                    | (Some (Some parent), s) \<Rightarrow>
                        let (child, s) = unnamedfs_vop_readdir target 64 0 s
                        in if child \<noteq> None then Some (- 1, s)
                        else Some (remove_entry norm target parent (take 63 name) s))"

definition vfs_mount :: "u8 list option \<Rightarrow> u8 list option \<Rightarrow> u8 list option \<Rightarrow> u32 \<Rightarrow> int" where
  "vfs_mount path fs_type source data = - 1"

definition vfs_unmount :: "u8 list option \<Rightarrow> int" where
  "vfs_unmount path = - 1"

definition vfs_mount_ahci :: "u8 list option \<Rightarrow> (int \<Rightarrow> bool) option \<Rightarrow> int \<Rightarrow> int" where
  "vfs_mount_ahci path ctrl port =
     (case ctrl of None \<Rightarrow> - 1
      | Some present \<Rightarrow> if port < 0 \<or> 32 \<le> port then - 1 else if \<not> present port then - 1 else 0)"

definition vfs_context_init :: "vfs \<Rightarrow> vfs_context" where
  "vfs_context_init s = \<lparr>ctx_num_files = 0, ctx_cwd = root_node s, ctx_root = root_node s\<rparr>"

definition vfs_get_current_context :: "vfs \<Rightarrow> vfs_context \<times> vfs" where
  "vfs_get_current_context s =
     (let s = (if \<not> context_initialized s
               then s\<lparr>global_context := vfs_context_init s, context_initialized := True\<rparr> else s)
      in (global_context s, s))"

definition vfs_shutdown :: "vfs \<Rightarrow> vfs" where
  "vfs_shutdown s =
     (let s = fold (\<lambda>i s. if vfd_used s ! i then snd (vfs_close (int i) s) else s) [0..<64] s
      in dcache_init (s\<lparr>num_mounts := 0, context_initialized := False\<rparr>))"

section \<open>The dentry cache is a map from paths to vnodes\<close>

definition cached :: "vfs \<Rightarrow> u8 list \<Rightarrow> nat \<Rightarrow> bool" where
  "cached s p n \<longleftrightarrow> (\<exists>i<32. dc_valid (dcache s ! i) \<and> dc_path (dcache s ! i) = p \<and> dc_node (dcache s ! i) = Some n)"

definition dentries_ok :: "dentry_cache_entry list \<Rightarrow> bool" where
  "dentries_ok es \<longleftrightarrow> length es = 32 \<and>
     (\<forall>i<32. dc_valid (es ! i) \<longrightarrow> dc_hash (es ! i) = hash_path (dc_path (es ! i)) \<and> dc_node (es ! i) \<noteq> None) \<and>
     (\<forall>i<32. \<forall>j<32. dc_valid (es ! i) \<and> dc_valid (es ! j) \<and> dc_path (es ! i) = dc_path (es ! j) \<longrightarrow> i = j)"

lemma dentries_ok_length: "dentries_ok es \<Longrightarrow> length es = 32"
  by (simp add: dentries_ok_def)

lemma dentries_ok_map:
  assumes "dentries_ok es" "\<And>e. f e = e \<or> f e = e\<lparr>dc_valid := False\<rparr>"
  shows "dentries_ok (map f es)"
proof -
  have f: "dc_valid (f e) \<longrightarrow> dc_valid e" "dc_path (f e) = dc_path e" "dc_hash (f e) = dc_hash e" "dc_node (f e) = dc_node e" for e
    using assms(2) [of e] by auto
  show ?thesis using assms(1) f(1) unfolding dentries_ok_def by (simp add: f(2-4))
qed

lemma dcache_lookup_cached:
  assumes "dentries_ok (dcache s)"
  shows "fst (dcache_lookup p s) = Some n \<longleftrightarrow> cached s p n"
proof (cases "find (\<lambda>i. dc_valid (dcache s ! i) \<and> dc_hash (dcache s ! i) = hash_path p \<and> dc_path (dcache s ! i) = p) [0..<32]")
  case None
  then have "\<not> cached s p n" using assms unfolding cached_def dentries_ok_def by (auto simp: find_None_iff)
  then show ?thesis using None by (simp add: dcache_lookup_def)
next
  case (Some i)
  then have i: "i < 32" "dc_valid (dcache s ! i)" "dc_path (dcache s ! i) = p" by (auto dest: find_upt_Some)
  then have "cached s p n \<longleftrightarrow> dc_node (dcache s ! i) = Some n"
    using assms unfolding cached_def dentries_ok_def by blast
  then show ?thesis using Some by (simp add: dcache_lookup_def)
qed

lemma dcache_touch_entry:
  "dc_valid ((es[i := (es ! i)\<lparr>dc_lru := t\<rparr>]) ! k) = dc_valid (es ! k)"
  "dc_path ((es[i := (es ! i)\<lparr>dc_lru := t\<rparr>]) ! k) = dc_path (es ! k)"
  "dc_node ((es[i := (es ! i)\<lparr>dc_lru := t\<rparr>]) ! k) = dc_node (es ! k)"
  "dc_hash ((es[i := (es ! i)\<lparr>dc_lru := t\<rparr>]) ! k) = dc_hash (es ! k)"
  by (cases "i < length es"; simp add: nth_list_update list_update_beyond)+

lemma dcache_touch:
  "dentries_ok (dcache (snd (dcache_lookup p s))) = dentries_ok (dcache s)" "cached (snd (dcache_lookup p s)) = cached s"
proof -
  consider (miss) "snd (dcache_lookup p s) = s"
    | (hit) i t where "snd (dcache_lookup p s) = s\<lparr>dcache := (dcache s)[i := (dcache s ! i)\<lparr>dc_lru := t\<rparr>], dcache_tick := t + 1\<rparr>"
    by (cases "find (\<lambda>i. dc_valid (dcache s ! i) \<and> dc_hash (dcache s ! i) = hash_path p \<and> dc_path (dcache s ! i) = p) [0..<32]")
      (auto simp: dcache_lookup_def)
  then show "dentries_ok (dcache (snd (dcache_lookup p s))) = dentries_ok (dcache s)" "cached (snd (dcache_lookup p s)) = cached s"
    by (cases; simp add: dentries_ok_def cached_def dcache_touch_entry fun_eq_iff)+
qed

lemma ex_less_Suc2: "(\<exists>k<Suc n. P k) \<longleftrightarrow> P 0 \<or> (\<exists>k<n. P (Suc k))"
  using less_Suc_eq_0_disj by auto

lemma dcache_victim_cases:
  "(\<exists>k<length es. dcache_victim es i old vic = int (i + k) \<and> \<not> dc_valid (es ! k)) \<or>
   (\<forall>k<length es. dc_valid (es ! k) \<and> old \<le> dc_lru (es ! k)) \<and> dcache_victim es i old vic = vic \<or>
   (\<exists>k<length es. dcache_victim es i old vic = int (i + k) \<and> dc_lru (es ! k) \<le> old \<and>
      (\<forall>j<length es. dc_valid (es ! j) \<and> dc_lru (es ! k) \<le> dc_lru (es ! j)))"
proof (induction es arbitrary: i old vic)
  case (Cons e es)
  consider (free) "\<not> dc_valid e" | (older) "dc_valid e" "dc_lru e < old" | (newer) "dc_valid e" "old \<le> dc_lru e"
    by fastforce
  then show ?case
  proof cases
    case free
    then show ?thesis by (intro disjI1 exI [of _ 0]) simp
  next
    case older
    show ?thesis using Cons [of "i + 1" "dc_lru e" "int i"] older
      by (auto simp: ex_less_Suc2 All_less_Suc2 intro: order.trans less_imp_le)
  next
    case newer
    show ?thesis using Cons [of "i + 1" old vic] newer
      by (auto simp: ex_less_Suc2 All_less_Suc2 intro: order.trans)
  qed
qed simp

definition victim_of :: "vfs \<Rightarrow> nat" where
  "victim_of s = (let v = dcache_victim (dcache s) 0 (- 1) (- 1) in nat (if v < 0 then 0 else v))"

lemma victim_of:
  assumes "length (dcache s) = 32"
  shows "victim_of s < 32"
    "dc_valid (dcache s ! victim_of s) \<Longrightarrow> j < 32 \<Longrightarrow>
       dc_valid (dcache s ! j) \<and> dc_lru (dcache s ! victim_of s) \<le> dc_lru (dcache s ! j)"
  using dcache_victim_cases [of "dcache s" 0 "- 1" "- 1"] assms
  by (auto simp: victim_of_def intro: order.trans [OF word_n1_ge])

lemma dcache_insert_victim:
  "length path \<le> 255 \<Longrightarrow> dcache (dcache_insert path (Some n) s) =
     (dcache s)[victim_of s := \<lparr>dc_path = path, dc_node = Some n, dc_hash = hash_path path, dc_lru = dcache_tick s, dc_valid = True\<rparr>]"
  by (simp add: dcache_insert_def victim_of_def Let_def)

lemma ex_less_update:
  "length xs = n \<Longrightarrow> v < n \<Longrightarrow> (\<exists>i<n. P (xs[v := e] ! i)) \<longleftrightarrow> P e \<or> (\<exists>i<n. i \<noteq> v \<and> P (xs ! i))"
  by (metis nth_list_update_eq nth_list_update_neq)

lemma dcache_insert_ok:
  assumes ok: "dentries_ok (dcache s)" and miss: "\<forall>n. \<not> cached s path n" and l: "length path \<le> 255"
  shows "dentries_ok (dcache (dcache_insert path (Some n) s))"
    "cached (dcache_insert path (Some n) s) q k \<longleftrightarrow> q = path \<and> k = n \<or> cached s q k \<and>
       \<not> (dc_valid (dcache s ! victim_of s) \<and> q = dc_path (dcache s ! victim_of s))"
proof -
  define v where "v = victim_of s"
  have len: "length (dcache s) = 32" using ok by (simp add: dentries_ok_def)
  then have v: "v < 32" by (simp add: v_def victim_of)
  have free: "\<not> (dc_valid (dcache s ! i) \<and> dc_path (dcache s ! i) = path)" if "i < 32" for i
    using ok miss that unfolding dentries_ok_def cached_def by blast
  have uniq: "i = j" if "i < 32" "j < 32" "dc_valid (dcache s ! i)" "dc_valid (dcache s ! j)"
    "dc_path (dcache s ! i) = dc_path (dcache s ! j)" for i j
    using ok that unfolding dentries_ok_def by blast
  note new = dcache_insert_victim [OF l, of n s, folded v_def]
  show "dentries_ok (dcache (dcache_insert path (Some n) s))"
    unfolding dentries_ok_def new using ok free v len by (auto simp: dentries_ok_def nth_list_update)
  show "cached (dcache_insert path (Some n) s) q k \<longleftrightarrow> q = path \<and> k = n \<or> cached s q k \<and>
      \<not> (dc_valid (dcache s ! victim_of s) \<and> q = dc_path (dcache s ! victim_of s))"
    unfolding cached_def v_def [symmetric] new using len v by (subst ex_less_update) (auto dest: uniq)
qed

lemma dcache_invalidate_entry:
  assumes "i < length (dcache s)"
  shows "dc_valid (dcache (dcache_invalidate path s) ! i) \<longleftrightarrow> dc_valid (dcache s ! i) \<and> \<not> path_covers path (dc_path (dcache s ! i))"
    "dc_path (dcache (dcache_invalidate path s) ! i) = dc_path (dcache s ! i)"
    "dc_node (dcache (dcache_invalidate path s) ! i) = dc_node (dcache s ! i)"
    "dc_hash (dcache (dcache_invalidate path s) ! i) = dc_hash (dcache s ! i)"
  using assms by (auto simp: dcache_invalidate_def Let_def path_covers_def)

lemma dcache_invalidate_ok:
  assumes "dentries_ok (dcache s)"
  shows "dentries_ok (dcache (dcache_invalidate path s))"
    "cached (dcache_invalidate path s) q k \<longleftrightarrow> cached s q k \<and> \<not> path_covers path q"
proof -
  have len: "length (dcache s) = 32" "length (dcache (dcache_invalidate path s)) = 32"
    using assms by (simp_all add: dentries_ok_def dcache_invalidate_def Let_def)
  show "dentries_ok (dcache (dcache_invalidate path s))"
    using assms len unfolding dentries_ok_def by (simp add: dcache_invalidate_entry)
  show "cached (dcache_invalidate path s) q k \<longleftrightarrow> cached s q k \<and> \<not> path_covers path q"
    unfolding cached_def using len by (simp add: dcache_invalidate_entry cong: conj_cong) blast
qed

section \<open>Vnode pointers stay valid\<close>

definition valid_node :: "nat option \<Rightarrow> bool" where
  "valid_node n \<longleftrightarrow> (case n of None \<Rightarrow> True | Some k \<Rightarrow> k < 256)"

lemma valid_node_simps [simp]: "valid_node None" "valid_node (Some k) \<longleftrightarrow> k < 256"
  by (simp_all add: valid_node_def)

definition typed_node :: "vfs_node \<Rightarrow> bool" where
  "typed_node n \<longleftrightarrow> length (vn_name n) < 64 \<and>
     (vn_data n \<noteq> 0 \<longrightarrow> vn_type n = VFS_TYPE_FILE \<or> vn_type n = VFS_TYPE_DIR)"

definition valid_entry :: "dentry_cache_entry \<Rightarrow> bool" where
  "valid_entry e \<longleftrightarrow> (dc_valid e \<longrightarrow> valid_node (dc_node e) \<and> length (dc_path e) \<le> 255)"

definition valid_rdcache :: "readdir_cache \<Rightarrow> bool" where
  "valid_rdcache r \<longleftrightarrow> (rd_valid r \<longrightarrow> valid_node (rd_dir r) \<and> length (rd_child_inos r) \<le> 256)"

definition vfs_wf :: "vfs \<Rightarrow> bool" where
  "vfs_wf s \<longleftrightarrow> length (nodes s) = 256 \<and> (nodes_initialized s \<longrightarrow> list_all typed_node (nodes s)) \<and>
     dentries_ok (dcache s) \<and> list_all valid_entry (dcache s) \<and> valid_rdcache (rdcache s) \<and>
     length (file_table s) = 64 \<and> list_all (valid_node \<circ> vf_node) (file_table s) \<and> length (vfd_used s) = 64 \<and>
     valid_node (root_node s) \<and> length (registered_fs s) \<le> 8 \<and>
     valid_node (ctx_cwd (global_context s)) \<and> valid_node (ctx_root (global_context s))"

lemma list_all_update: "list_all P xs \<Longrightarrow> (i < length xs \<Longrightarrow> P y) \<Longrightarrow> list_all P (xs[i := y])"
  by (cases "i < length xs") (auto simp: list_all_length nth_list_update)

lemma list_all_nth: "list_all P xs \<Longrightarrow> i < length xs \<Longrightarrow> P (xs ! i)"
  by (simp add: list_all_length)

lemma wf_disk [simp]: "vfs_wf (s\<lparr>disk := m\<rparr>) = vfs_wf s" "vfs_wf (s\<lparr>backend := u\<rparr>) = vfs_wf s"
  "vfs_wf (s\<lparr>num_mounts := k\<rparr>) = vfs_wf s" "vfs_wf (s\<lparr>unnamedfs_mnt := mnt\<rparr>) = vfs_wf s"
  "vfs_wf (s\<lparr>dcache_tick := t\<rparr>) = vfs_wf s" "vfs_wf (s\<lparr>context_initialized := b\<rparr>) = vfs_wf s"
  by (simp_all add: vfs_wf_def)

lemma wf_dcache: "vfs_wf s \<Longrightarrow> dentries_ok es \<Longrightarrow> list_all valid_entry es \<Longrightarrow> vfs_wf (s\<lparr>dcache := es\<rparr>)"
  by (simp add: vfs_wf_def)

lemma wf_rdcache: "vfs_wf s \<Longrightarrow> valid_rdcache r \<Longrightarrow> vfs_wf (s\<lparr>rdcache := r\<rparr>)"
  by (simp add: vfs_wf_def)

lemma wf_nodes:
  "vfs_wf s \<Longrightarrow> length ns = 256 \<Longrightarrow> (nodes_initialized s \<Longrightarrow> list_all typed_node ns) \<Longrightarrow> vfs_wf (s\<lparr>nodes := ns\<rparr>)"
  by (simp add: vfs_wf_def)

lemma wf_file: "vfs_wf s \<Longrightarrow> valid_node (vf_node f) \<Longrightarrow> vfs_wf (s\<lparr>file_table := (file_table s)[fd := f]\<rparr>)"
  by (simp add: vfs_wf_def list_all_update)

lemma wf_used: "vfs_wf s \<Longrightarrow> vfs_wf (s\<lparr>vfd_used := (vfd_used s)[fd := b]\<rparr>)"
  by (simp add: vfs_wf_def)

lemma valid_rd_invalid [simp]: "valid_rdcache (r\<lparr>rd_valid := False\<rparr>)"
  by (simp add: valid_rdcache_def)

lemma valid_entry_invalid [simp]: "valid_entry (e\<lparr>dc_valid := False\<rparr>)"
  by (simp add: valid_entry_def)

lemma wfD:
  assumes "vfs_wf s"
  shows "length (nodes s) = 256" "dentries_ok (dcache s)" "list_all valid_entry (dcache s)" "valid_rdcache (rdcache s)"
    "length (file_table s) = 64" "valid_node (root_node s)" "nodes_initialized s \<Longrightarrow> list_all typed_node (nodes s)"
    "\<And>fd. fd < 64 \<Longrightarrow> valid_node (vf_node (file_table s ! fd))"
  using assms by (auto simp: vfs_wf_def list_all_length)

lemma list_all_map_if: "list_all P xs \<Longrightarrow> (\<And>x. P x \<Longrightarrow> P (f x)) \<Longrightarrow> list_all P (map f xs)"
  by (simp add: list_all_length)

lemma wf_dcache_map:
  assumes "vfs_wf s" and f: "\<And>e. f e = e \<or> f e = e\<lparr>dc_valid := False\<rparr>"
  shows "vfs_wf (s\<lparr>dcache := map f (dcache s)\<rparr>)"
proof -
  have "valid_entry (f e)" if "valid_entry e" for e using f [of e] that by (auto simp: valid_entry_def)
  then show ?thesis
    using wfD(2,3) [OF assms(1)] by (intro wf_dcache assms(1) dentries_ok_map f list_all_map_if)
qed

lemma wf_dcache_init: "vfs_wf s \<Longrightarrow> vfs_wf (dcache_init s)"
  unfolding dcache_init_def by (intro wf_rdcache) (simp_all add: wf_dcache_map)

lemma wf_dcache_flush: "vfs_wf s \<Longrightarrow> vfs_wf (dcache_flush s)"
  unfolding dcache_flush_def by (intro wf_rdcache) (simp_all add: wf_dcache_map)

lemma wf_dcache_lookup:
  assumes "vfs_wf s" "dcache_lookup path s = (n, s')"
  shows "vfs_wf s' \<and> valid_node n"
proof (cases "find (\<lambda>i. dc_valid (dcache s ! i) \<and> dc_hash (dcache s ! i) = hash_path path \<and>
    dc_path (dcache s ! i) = path) [0..<32]")
  case None
  then show ?thesis using assms by (simp add: dcache_lookup_def valid_node_def)
next
  case (Some i)
  then have i: "i < 32" "dc_valid (dcache s ! i)" by (auto dest: find_upt_Some)
  then have "valid_entry (dcache s ! i)" using list_all_nth [OF wfD(3) [OF assms(1)]] dentries_ok_length [OF wfD(2) [OF assms(1)]] by simp
  then have e: "valid_node (dc_node (dcache s ! i))" "valid_entry ((dcache s ! i)\<lparr>dc_lru := t\<rparr>)" for t
    using i(2) by (simp_all add: valid_entry_def)
  have d: "dentries_ok ((dcache s)[i := (dcache s ! i)\<lparr>dc_lru := dcache_tick s\<rparr>])"
    using dcache_touch(1) [of path s] wfD(2) [OF assms(1)] Some by (simp add: dcache_lookup_def)
  show ?thesis
    using assms(2) Some e(1) wf_dcache [OF assms(1) d list_all_update [OF wfD(3) [OF assms(1)] e(2)]]
    by (auto simp: dcache_lookup_def)
qed

lemma wf_dcache_insert:
  assumes "vfs_wf s" "valid_node n" "\<forall>k. \<not> cached s path k" "length path \<le> 255"
  shows "vfs_wf (dcache_insert path n s)"
proof (cases n)
  case (Some k)
  let ?s = "dcache_insert path n s"
  have "valid_entry \<lparr>dc_path = path, dc_node = n, dc_hash = hash_path path, dc_lru = dcache_tick s, dc_valid = True\<rparr>"
    using assms(2,4) by (simp add: valid_entry_def)
  then have "list_all valid_entry (dcache ?s)"
    using wfD(3) [OF assms(1)] by (simp add: Some dcache_insert_victim [OF assms(4)] list_all_update)
  moreover have "dentries_ok (dcache ?s)"
    unfolding Some by (rule dcache_insert_ok(1) [OF wfD(2) [OF assms(1)] assms(3,4)])
  moreover have "?s = s\<lparr>dcache := dcache ?s, dcache_tick := dcache_tick s + 1\<rparr>"
    by (simp add: Some dcache_insert_def Let_def)
  ultimately show ?thesis
    using wf_dcache [OF assms(1), of "dcache ?s"] by (metis wf_disk(5))
qed (use assms in \<open>simp add: dcache_insert_def\<close>)

lemma wf_dcache_invalidate:
  assumes "vfs_wf s"
  shows "vfs_wf (dcache_invalidate path s)"
proof -
  have "vfs_wf (s\<lparr>dcache := map (\<lambda>e. if dc_valid e \<and> path_covers path (dc_path e) then e\<lparr>dc_valid := False\<rparr> else e)
      (map (\<lambda>e. if dc_valid e \<and> dc_hash e = hash_path path \<and> dc_path e = path then e\<lparr>dc_valid := False\<rparr> else e) (dcache s))\<rparr>)"
    using wf_dcache_map [OF wf_dcache_map [OF assms]] by simp
  then show ?thesis
    unfolding dcache_invalidate_def Let_def by (auto simp: wfD [OF assms] intro: wf_rdcache)
qed

lemma wf_dcache_invalidate_node: "vfs_wf s \<Longrightarrow> vfs_wf (dcache_invalidate_node n s)"
  unfolding dcache_invalidate_node_def by (auto simp: wfD intro!: wf_rdcache wf_dcache_map)

lemma read_str_length: "length (read_str m a n) \<le> n"
  using length_takeWhile_le [of "\<lambda>c. c \<noteq> 0" "map (\<lambda>k. m (a + of_nat k)) [0..<n]"] by (simp add: read_str_def)

lemma wf_inode_to_vnode:
  assumes "vfs_wf s" "inode_to_vnode a s = (n, s')"
  shows "vfs_wf s' \<and> valid_node n"
proof -
  define s1 where "s1 = (if nodes_initialized s then s
    else s\<lparr>nodes := map (\<lambda>i. blank_node i (nodes s ! i)) [0..<256], nodes_initialized := True\<rparr>)"
  have s1: "vfs_wf s1" "nodes_initialized s1"
    using assms(1) by (simp_all add: s1_def vfs_wf_def blank_node_def typed_node_def list_all_length)
  define k where "k = unat (i_ino (disk s1) a)"
  define x where "x = (nodes s1 ! k)\<lparr>vn_type := (if i_flags (disk s1) a AND 2 \<noteq> 0 then VFS_TYPE_DIR else VFS_TYPE_FILE),
               vn_data := a, vn_id := i_ino (disk s1) a, vn_name := read_str (disk s1) (a + 24) 63\<rparr>"
  have ty: "typed_node x" using read_str_length [of "disk s1" "a + 24" 63] by (simp add: typed_node_def x_def)
  have "inode_to_vnode a s = (if a = 0 then (None, s1) else if 256 \<le> i_ino (disk s1) a then (None, s1)
    else (Some k, s1\<lparr>nodes := (nodes s1)[k := x]\<rparr>))"
    unfolding inode_to_vnode_def s1_def k_def x_def Let_def by simp
  moreover have "vfs_wf (s1\<lparr>nodes := (nodes s1)[k := x]\<rparr>)"
    using wfD(1,7) [OF s1(1)] s1(2) ty by (intro wf_nodes [OF s1(1)]) (simp_all add: list_all_update)
  ultimately show ?thesis
    using assms(2) s1(1) by (auto simp: valid_node_def k_def word_le_nat_alt split: if_splits)
qed

lemma wf_refcount: "vfs_wf s \<Longrightarrow> vfs_wf (upd_node k (\<lambda>n. n\<lparr>vn_refcount := f n\<rparr>) s)"
  unfolding upd_node_def
  by (rule wf_nodes) (auto simp: wfD typed_node_def dest: list_all_nth [OF wfD(7)] intro!: list_all_update)

lemma wf_set_offset: "vfs_wf s \<Longrightarrow> fd < 64 \<Longrightarrow> vfs_wf (set_offset fd off s)"
  unfolding set_offset_def by (rule wf_file) (simp_all add: wfD)

lemma wf_vop_open: "vfs_wf s \<Longrightarrow> valid_node n \<Longrightarrow> unnamedfs_vop_open n fd s = (r, s') \<Longrightarrow> vfs_wf s'"
  by (auto simp: unnamedfs_vop_open_def wf_file split: option.splits if_splits)

lemma wf_vop_read: "vfs_wf s \<Longrightarrow> fd < 64 \<Longrightarrow> unnamedfs_vop_read fd k buf c off s = (r, s') \<Longrightarrow> vfs_wf s'"
  by (auto simp: unnamedfs_vop_read_def Let_def wf_set_offset split: if_splits)

lemma wf_vop_grow: "vfs_wf s \<Longrightarrow> vop_grow a off c s = Some (c', s') \<Longrightarrow> vfs_wf s'"
  by (auto simp: vop_grow_def Let_def split: if_splits option.splits prod.splits)

lemma wf_vop_capacity: "vfs_wf s \<Longrightarrow> vop_capacity a off c s = Some (c', s') \<Longrightarrow> vfs_wf s'"
  using wf_vop_grow by (auto simp: vop_capacity_def Let_def split: if_splits)

lemma wf_vop_write:
  assumes "vfs_wf s" "fd < 64" "unnamedfs_vop_write fd k buf c off s = (r, s')"
  shows "vfs_wf s'"
proof (cases "vop_capacity (vn_data (node_at s k)) off c s")
  case None
  then show ?thesis using assms by (auto simp: unnamedfs_vop_write_def Let_def split: if_splits)
next
  case (Some x)
  obtain c1 s1 where x: "x = (c1, s1)" by fastforce
  have "vfs_wf s1" using wf_vop_capacity [OF assms(1)] Some x by blast
  then show ?thesis
    using assms Some x wf_set_offset [OF _ assms(2)] unfolding unnamedfs_vop_write_def Let_def
    by (auto split: if_splits)
qed

lemma wf_vop_readdir:
  "vfs_wf s \<Longrightarrow> k < 256 \<Longrightarrow> unnamedfs_vop_readdir k sz i s = (r, s') \<Longrightarrow> vfs_wf s'"
  by (auto simp: unnamedfs_vop_readdir_def Let_def valid_rdcache_def valid_node_def intro!: wf_rdcache split: if_splits)

lemma wf_vop_lookup:
  assumes "vfs_wf s" "k < 256" "unnamedfs_vop_lookup k name s = (r, s')"
  shows "vfs_wf s' \<and> (\<forall>n. r = Some n \<longrightarrow> valid_node n)"
  using assms wf_inode_to_vnode [OF assms(1)]
  by (auto simp: unnamedfs_vop_lookup_def Let_def split: if_splits option.splits prod.splits)

lemma wf_append_inode: "vfs_wf s \<Longrightarrow> vfs_wf (append_inode f p name s)"
  unfolding append_inode_def Let_def by (intro wf_rdcache wf_dcache_flush) simp_all

lemma wf_vop_mkdir:
  assumes "vfs_wf s" "k < 256" "unnamedfs_vop_mkdir k name s = (r, s')"
  shows "vfs_wf s'"
proof -
  obtain f s1 where l: "unnamedfs_vop_lookup k name s = (f, s1)" by fastforce
  have "vfs_wf s1" using wf_vop_lookup [OF assms(1,2) l] by simp
  then show ?thesis
    using assms(1,3) unfolding unnamedfs_vop_mkdir_def Let_def l
    by (auto simp: wf_append_inode intro!: wf_rdcache wf_dcache_flush split: if_splits option.splits)
qed

lemma wf_vop_unlink:
  assumes "vfs_wf s" "unnamedfs_vop_unlink k name s = (r, s')"
  shows "vfs_wf s'"
proof -
  have "vfs_wf s2" if "inode_to_vnode t (dcache_invalidate p (s\<lparr>disk := m, backend := u\<rparr>)) = (n, s2)" for t p m u n s2
    using wf_inode_to_vnode [OF wf_dcache_invalidate that] assms(1) by simp
  then show ?thesis
    using assms unfolding unnamedfs_vop_unlink_def Let_def
    by (auto intro!: wf_rdcache wf_dcache_invalidate_node split: if_splits option.splits prod.splits)
qed

lemma wf_lookup_component:
  assumes "vfs_wf s" "k < 256" "vfs_lookup_component k name s = (r, s')"
  shows "vfs_wf s' \<and> (\<forall>n. r = Some n \<longrightarrow> valid_node n)"
  using assms wf_inode_to_vnode [OF assms(1)] wf_vop_lookup [OF assms(1,2)] wfD(6) [OF assms(1)]
  by (auto simp: vfs_lookup_component_def Let_def split: if_splits option.splits prod.splits)

lemma inode_to_vnode_dcache [simp]: "dcache (snd (inode_to_vnode a s)) = dcache s"
  by (simp add: inode_to_vnode_def Let_def)

lemma lookup_component_dcache: "dcache (snd (vfs_lookup_component dir name s)) = dcache s"
  by (simp add: vfs_lookup_component_def unnamedfs_vop_lookup_def Let_def case_prod_unfold split: option.split)

lemma wf_walk:
  "vfs_wf s \<Longrightarrow> valid_node cur \<Longrightarrow> vfs_walk p cur s = (r, s') \<Longrightarrow>
     vfs_wf s' \<and> dcache s' = dcache s \<and> (\<forall>n. r = Some n \<longrightarrow> valid_node n)"
proof (induction p cur s rule: vfs_walk.induct)
  case (1 p cur s)
  let ?name = "takeWhile (\<lambda>c. c \<noteq> slash) p" and ?rest = "dropWhile (\<lambda>c. c = slash) (dropWhile (\<lambda>c. c \<noteq> slash) p)"
  show ?case
  proof (cases "63 < length ?name \<or> ?name = [] \<or> cur = None")
    case True
    then show ?thesis using 1(2-4) by (subst (asm) vfs_walk.simps) (auto simp: Let_def split: if_splits)
  next
    case False
    then obtain k where k: "cur = Some k" "k < 256" using 1(3) by auto
    obtain n s1 where l: "vfs_lookup_component k ?name s = (n, s1)" by fastforce
    note w = wf_lookup_component [OF 1(2) k(2) l]
    have d: "dcache s1 = dcache s" using lookup_component_dcache [of k ?name s] l by simp
    show ?thesis
    proof (cases n)
      case None
      then show ?thesis using 1(4) False k l w d by (subst (asm) vfs_walk.simps) (auto simp: Let_def)
    next
      case (Some n1)
      have eq: "vfs_walk p cur s = (if ?rest = [] then (Some n1, s1) else vfs_walk ?rest n1 s1)"
        using False k l Some by (subst vfs_walk.simps) (auto simp: Let_def)
      have f: "\<not> 63 < length ?name" "?name \<noteq> []" using False by blast+
      show ?thesis
      proof (cases "?rest = []")
        case True
        have "r = Some n1 \<and> s' = s1" using 1(4) unfolding eq if_P [OF True] by simp
        then show ?thesis using w Some d by blast
      next
        case r: False
        have "vfs_walk ?rest n1 s1 = (r, s')" using 1(4) unfolding eq if_not_P [OF r] .
        then have "vfs_wf s' \<and> dcache s' = dcache s1 \<and> (\<forall>n. r = Some n \<longrightarrow> valid_node n)"
          using w Some by (intro 1(1) [OF refl refl f k(1) l [symmetric] refl Some r]) blast+
        then show ?thesis unfolding d .
      qed
    qed
  qed
qed

lemma cached_cong: "dcache s = dcache t \<Longrightarrow> cached s = cached t"
  by (simp add: cached_def fun_eq_iff)

lemma normalize_loop_length: "length out < n \<Longrightarrow> length (normalize_loop p n out b) < n"
  by (induction p n out b rule: normalize_loop.induct) auto

lemma path_normalize_length: "length (path_normalize p 256) \<le> 255"
  using normalize_loop_length [of "[]" 256 p False] by (auto simp: path_normalize_def Let_def)

lemma vfs_lookup_Some:
  assumes "p \<noteq> []" "dcache_lookup (path_normalize p 256) s = (c, s1)"
    "vfs_walk (dropWhile (\<lambda>c. c = slash) p) (root_node s1) s1 = (q, s2)"
  shows "vfs_lookup (Some p) s =
    (if c \<noteq> None then (Some c, s1)
     else if dropWhile (\<lambda>c. c = slash) p = [] then (Some (root_node s1), dcache_insert (path_normalize p 256) (root_node s1) s1)
     else case q of None \<Rightarrow> (None, s2) | Some n \<Rightarrow> (Some n, dcache_insert (path_normalize p 256) n s2))"
  using assms by (simp add: vfs_lookup_def Let_def)

lemma wf_lookup:
  assumes "vfs_wf s" "vfs_lookup path s = (r, s')"
  shows "vfs_wf s' \<and> (\<forall>n. r = Some n \<longrightarrow> valid_node n)"
proof (cases "path = None \<or> path = Some []")
  case False
  then obtain p where p: "path = Some p" "p \<noteq> []" by auto
  obtain c s1 where c: "dcache_lookup (path_normalize p 256) s = (c, s1)" by fastforce
  note w1 = wf_dcache_lookup [OF assms(1) c]
  obtain q s2 where q: "vfs_walk (dropWhile (\<lambda>c. c = slash) p) (root_node s1) s1 = (q, s2)" by fastforce
  have w2: "vfs_wf s2 \<and> dcache s2 = dcache s1 \<and> (\<forall>n. q = Some n \<longrightarrow> valid_node n)"
    using wf_walk [OF _ _ q] w1 wfD(6) by blast
  have miss: "\<not> cached s1 (path_normalize p 256) k" "\<not> cached s2 (path_normalize p 256) k" if "c = None" for k
    using dcache_lookup_cached [OF wfD(2) [OF assms(1)], of "path_normalize p 256" k] dcache_touch(2) [of "path_normalize p 256" s]
      cached_cong [of s2 s1] c w2 that by simp_all
  show ?thesis
    using assms(2) p w1 w2 wf_dcache_insert [of s1 "root_node s1"] wf_dcache_insert [of s2] wfD(6) [of s1] miss path_normalize_length
    by (auto simp: vfs_lookup_Some [OF p(2) c q] split: if_splits option.splits)
qed (use assms in \<open>auto simp: vfs_lookup_def\<close>)

lemma wf_open:
  assumes "vfs_wf s" "vfs_open path mode s = Some (r, s')"
  shows "vfs_wf s'"
proof -
  obtain n s1 where l: "vfs_lookup path s = (n, s1)" by fastforce
  note w = wf_lookup [OF assms(1) l]
  have "vfs_wf s2" if "unnamedfs_vop_open k fd (s1\<lparr>file_table := (file_table s1)[fd := f]\<rparr>) = (q, s2)"
      "valid_node k" "vf_node f = k" for k fd f q s2
    using wf_vop_open [OF wf_file that(2,1)] w that(2,3) by blast
  then show ?thesis
    using assms w unfolding vfs_open_def l Let_def
    by (auto intro!: wf_refcount wf_used split: option.splits prod.splits if_splits)
qed

lemma wf_close: "vfs_wf s \<Longrightarrow> vfs_wf (snd (vfs_close fd s))"
proof -
  assume wf: "vfs_wf s"
  define s1 where "s1 = (if vf_node (file_table s ! nat fd) \<noteq> None then snd (unnamedfs_vop_close (nat fd) s) else s)"
  have "vfs_wf s1" using wf by (simp add: s1_def unnamedfs_vop_close_def wf_file)
  then have "vfs_wf (case vf_node (file_table s1 ! nat fd) of None \<Rightarrow> s1
      | Some k \<Rightarrow> upd_node k (\<lambda>n. n\<lparr>vn_refcount := vn_refcount n - 1\<rparr>) s1)" (is "vfs_wf ?s2")
    by (simp add: wf_refcount split: option.split)
  then have "vfs_wf (?s2\<lparr>vfd_used := (vfd_used ?s2)[nat fd := False],
      file_table := (file_table ?s2)[nat fd := (file_table ?s2 ! nat fd)\<lparr>vf_node := None\<rparr>]\<rparr>)"
    using wf_file [OF wf_used, of ?s2] by simp
  then show ?thesis using wf unfolding vfs_close_def Let_def s1_def by simp
qed

lemma open_fd_less: "open_fd fd s \<Longrightarrow> nat fd < 64"
  by (auto simp: open_fd_def)

lemma wf_read: "vfs_wf s \<Longrightarrow> vfs_wf (snd (vfs_read fd buf c s))"
  using wf_vop_read [OF _ open_fd_less]
  by (auto simp: vfs_read_def split: option.splits) (metis prod.collapse)

lemma wf_write: "vfs_wf s \<Longrightarrow> vfs_wf (snd (vfs_write fd buf c s))"
  using wf_vop_write [OF _ open_fd_less]
  by (auto simp: vfs_write_def intro!: wf_rdcache split: option.splits prod.splits)

lemma wf_lseek: "vfs_wf s \<Longrightarrow> vfs_lseek fd off wh s = Some (r, s') \<Longrightarrow> vfs_wf s'"
  using wf_set_offset [OF _ open_fd_less]
  by (auto simp: vfs_lseek_def Let_def split: if_splits option.splits)

lemma wf_readdir:
  assumes "vfs_wf s" shows "vfs_wf (snd (vfs_readdir fd sz s))"
proof (cases "open_fd fd s \<and> sz \<noteq> 0")
  case True
  have "vfs_wf s1" if "unnamedfs_vop_readdir k n i s = (r, s1)" "vf_node (file_table s ! nat fd) = Some k" for k n i r s1
    using wf_vop_readdir [OF assms _ that(1)] wfD(8) [OF assms open_fd_less [of fd s]] True that(2) by simp
  then show ?thesis
    using True assms wf_set_offset [OF _ open_fd_less]
    by (auto simp: vfs_readdir_def Let_def split: option.splits prod.splits)
qed (use assms in \<open>auto simp: vfs_readdir_def\<close>)

lemma wf_stat: "vfs_wf s \<Longrightarrow> vfs_stat path s = Some (r, s') \<Longrightarrow> vfs_wf s'"
  using wf_lookup by (auto simp: vfs_stat_def split: prod.splits option.splits)

lemma wf_register: "vfs_wf s \<Longrightarrow> vfs_wf (snd (vfs_register_fs name ops s))"
  by (auto simp: vfs_register_fs_def vfs_wf_def split: option.splits)

lemma wf_mkdir:
  assumes "vfs_wf s" "vfs_mkdir path s = Some (r, s')"
  shows "vfs_wf s'"
proof -
  have two: "vfs_wf s3"
    if "vfs_lookup p s = (Some (Some k), s1)" "vfs_lookup q s1 = (e, s2)" "unnamedfs_vop_mkdir k n s2 = (c, s3)"
    for p k s1 q e s2 n c s3
  proof -
    have "vfs_wf s1" "k < 256" using wf_lookup [OF assms(1) that(1)] by auto
    then show ?thesis using wf_vop_mkdir [OF _ _ that(3)] wf_lookup [OF _ that(2)] by blast
  qed
  show ?thesis
    using assms two wf_lookup [OF assms(1)] unfolding vfs_mkdir_def Let_def
    by (auto intro!: wf_rdcache wf_dcache_invalidate dest: wf_lookup split: option.splits prod.splits if_splits)
qed

lemma wf_remove: "vfs_wf s \<Longrightarrow> vfs_wf (snd (remove_entry norm t p name s))"
  using wf_vop_unlink
  by (auto simp: remove_entry_def Let_def intro!: wf_rdcache wf_dcache_invalidate_node wf_dcache_invalidate split: prod.splits)

lemma wf_unlink:
  assumes "vfs_wf s" "vfs_unlink path s = Some (r, s')"
  shows "vfs_wf s'"
proof -
  have "vfs_wf s2" if "vfs_lookup p s = (a, s1)" "vfs_lookup q s1 = (b, s2)" for p a s1 q b s2
    using wf_lookup [OF assms(1) that(1)] wf_lookup [OF _ that(2)] by blast
  then show ?thesis
    using assms wf_lookup [OF assms(1)] wf_remove unfolding vfs_unlink_def Let_def
    by (auto split: option.splits prod.splits if_splits) (metis snd_conv)+
qed

lemma wf_rmdir:
  assumes "vfs_wf s" "vfs_rmdir path s = Some (r, s')"
  shows "vfs_wf s'"
proof -
  have two: "vfs_wf s2" if "vfs_lookup p s = (a, s1)" "vfs_lookup q s1 = (b, s2)" for p a s1 q b s2
    using wf_lookup [OF assms(1) that(1)] wf_lookup [OF _ that(2)] by blast
  have "vfs_wf s3" if "vfs_lookup p s = (Some (Some t), s1)" "vfs_lookup q s1 = (b, s2)"
      "unnamedfs_vop_readdir t 64 0 s2 = (c, s3)" for p t s1 q b s2 c s3
    using wf_vop_readdir [OF two [OF that(1,2)] _ that(3)] wf_lookup [OF assms(1) that(1)] by simp
  then show ?thesis
    using assms two wf_lookup [OF assms(1)] wf_remove unfolding vfs_rmdir_def Let_def
    by (auto split: option.splits prod.splits if_splits) (metis snd_conv)+
qed

lemma wf_shutdown: "vfs_wf s \<Longrightarrow> vfs_wf (vfs_shutdown s)"
proof -
  have "vfs_wf (fold (\<lambda>i s. if vfd_used s ! i then snd (vfs_close (int i) s) else s) is s)" if "vfs_wf s" for "is" s
    using that by (induction "is" arbitrary: s) (auto simp: wf_close)
  then show "vfs_wf s \<Longrightarrow> vfs_wf (vfs_shutdown s)" unfolding vfs_shutdown_def Let_def by (intro wf_dcache_init) simp
qed

lemma wf_root: "vfs_wf s \<Longrightarrow> valid_node n \<Longrightarrow> vfs_wf (s\<lparr>root_node := n\<rparr>)"
  by (simp add: vfs_wf_def)

lemma wf_reset:
  "vfs_wf s \<Longrightarrow> vfs_wf (s\<lparr>vfd_used := replicate 64 False,
    file_table := map (\<lambda>f. f\<lparr>vf_node := None, vf_offset := 0\<rparr>) (file_table s), num_mounts := 0, registered_fs := []\<rparr>)"
  by (simp add: vfs_wf_def list_all_length)

lemma wf_init:
  assumes "vfs_wf s"
  shows "vfs_wf (vfs_init ram s)"
proof -
  let ?s1 = "dcache_init (s\<lparr>vfd_used := replicate 64 False,
    file_table := map (\<lambda>f. f\<lparr>vf_node := None, vf_offset := 0\<rparr>) (file_table s), num_mounts := 0, registered_fs := []\<rparr>)"
  have "vfs_wf ?s1" by (intro wf_dcache_init wf_reset assms)
  then have root: "vfs_wf (s2\<lparr>root_node := n\<rparr>)"
    if "inode_to_vnode a (?s1\<lparr>disk := m, backend := u, unnamedfs_mnt := mnt\<rparr>) = (n, s2)" for a m u mnt n s2
    using wf_inode_to_vnode [OF _ that] by (intro wf_root) simp_all
  show ?thesis
    unfolding vfs_init_def Let_def by (auto simp: root split: prod.splits)
qed

definition vfs_boot :: "mem \<Rightarrow> ufs \<Rightarrow> vfs" where
  "vfs_boot m u = \<lparr>disk = m, backend = u, unnamedfs_mnt = \<lparr>mnt_device = 0, mnt_device_size = 0, mnt_sb = 0, mnt_inodes = 0,
       mnt_data_blocks = 0, mnt_mounted = False\<rparr>,
     nodes = replicate 256 \<lparr>vn_id = 0, vn_type = 0, vn_refcount = 0, vn_data = 0, vn_name = []\<rparr>, nodes_initialized = False,
     dcache = replicate 32 \<lparr>dc_path = [], dc_node = None, dc_hash = 0, dc_lru = 0, dc_valid = False\<rparr>, dcache_tick = 1,
     rdcache = \<lparr>rd_dir = None, rd_child_inos = [], rd_valid = False\<rparr>,
     file_table = replicate 64 closed_file, vfd_used = replicate 64 False, root_node = None, num_mounts = 0, registered_fs = [],
     global_context = \<lparr>ctx_num_files = 0, ctx_cwd = None, ctx_root = None\<rparr>, context_initialized = False\<rparr>"

inductive vfs_reach :: "u32 \<Rightarrow> vfs \<Rightarrow> bool" for ram where
  do_boot: "vfs_reach ram (vfs_init ram (vfs_boot m u))"
| do_init: "vfs_reach ram s \<Longrightarrow> vfs_reach ram (vfs_init ram s)"
| do_register: "vfs_reach ram s \<Longrightarrow> vfs_reach ram (snd (vfs_register_fs name ops s))"
| do_open: "vfs_reach ram s \<Longrightarrow> vfs_open path mode s = Some (r, s') \<Longrightarrow> vfs_reach ram s'"
| do_close: "vfs_reach ram s \<Longrightarrow> vfs_reach ram (snd (vfs_close fd s))"
| do_read: "vfs_reach ram s \<Longrightarrow> vfs_reach ram (snd (vfs_read fd buf c s))"
| do_write: "vfs_reach ram s \<Longrightarrow> vfs_reach ram (snd (vfs_write fd buf c s))"
| do_lseek: "vfs_reach ram s \<Longrightarrow> vfs_lseek fd off wh s = Some (r, s') \<Longrightarrow> vfs_reach ram s'"
| do_readdir: "vfs_reach ram s \<Longrightarrow> vfs_reach ram (snd (vfs_readdir fd sz s))"
| do_stat: "vfs_reach ram s \<Longrightarrow> vfs_stat path s = Some (st, s') \<Longrightarrow> vfs_reach ram s'"
| do_mkdir: "vfs_reach ram s \<Longrightarrow> vfs_mkdir path s = Some (r, s') \<Longrightarrow> vfs_reach ram s'"
| do_unlink: "vfs_reach ram s \<Longrightarrow> vfs_unlink path s = Some (r, s') \<Longrightarrow> vfs_reach ram s'"
| do_rmdir: "vfs_reach ram s \<Longrightarrow> vfs_rmdir path s = Some (r, s') \<Longrightarrow> vfs_reach ram s'"
| do_context: "vfs_reach ram s \<Longrightarrow> vfs_reach ram (snd (vfs_get_current_context s))"
| do_shutdown: "vfs_reach ram s \<Longrightarrow> vfs_reach ram (vfs_shutdown s)"

lemma wf_context: "vfs_wf s \<Longrightarrow> vfs_wf (snd (vfs_get_current_context s))"
  by (simp add: vfs_get_current_context_def vfs_context_init_def vfs_wf_def Let_def)

lemma wf_boot: "vfs_wf (vfs_boot m u)"
  by (simp add: vfs_wf_def vfs_boot_def dentries_ok_def list_all_length valid_entry_def valid_rdcache_def closed_file_def)

lemma reach_wf: "vfs_reach ram s \<Longrightarrow> vfs_wf s"
  by (induction rule: vfs_reach.induct) (auto intro: wf_boot wf_init wf_register wf_open wf_close wf_read wf_write wf_lseek
      wf_readdir wf_stat wf_mkdir wf_unlink wf_rmdir wf_context wf_shutdown)

text \<open>C3. In every state that the interface of the virtual file system reaches after \<open>vfs_init\<close>, the
  tables have their declared sizes, every vnode pointer in the root, the dentry cache, the readdir cache
  the contexts and the file table is NULL or points into the vnode array, and every vnode that stands for an inode
  has the type of a file or of a directory and a name that fits its field. Every valid entry of the
  dentry cache has a node and the hash of its path, and no two valid entries have the same path.\<close>

theorem vfs_typed:
  assumes "vfs_reach ram s"
  shows "vfs_wf s"
  using assms by (rule reach_wf)

theorem vfs_typed_witness:
  "vfs_wf (snd (vfs_read 3 0x2000 16 (snd (vfs_close 3 (vfs_init 0x100000 (vfs_boot (\<lambda>_. 0) (demo_fs 7)))))))"
  by (rule vfs_typed [of "0x100000"], rule do_read, rule do_close, rule do_boot)

section \<open>The dentry cache as seen by its clients\<close>

text \<open>
  A client looks a path up and enters the node it found by other means on a miss (\<open>Look\<close>),
  invalidates a path with what its prefix test covers (\<open>Drop\<close>) or all paths of a node (\<open>Drop_node\<close>), or empties the
  cache (\<open>Flush\<close>, \<open>Reset\<close>). The cache may forget entries at any time, so
  the contract is one-sided: it says what a hit means, not that there is one.
\<close>

datatype cache_op = Look "u8 list" nat | Drop "u8 list" | Drop_node nat | Flush | Reset

locale path_cache =
  fixes look :: "u8 list \<Rightarrow> 's \<Rightarrow> nat option \<times> 's"
    and enter :: "u8 list \<Rightarrow> nat option \<Rightarrow> 's \<Rightarrow> 's"
    and drop_path :: "u8 list \<Rightarrow> 's \<Rightarrow> 's"
    and drop_node :: "nat \<Rightarrow> 's \<Rightarrow> 's"
    and flush reset :: "'s \<Rightarrow> 's"
    and inv_cache :: "'s \<Rightarrow> bool"
  assumes find_touch: "inv_cache s \<Longrightarrow> fst (look q (snd (look p s))) = fst (look q s)"
    and find_enter: "inv_cache s \<Longrightarrow> fst (look p s) = None \<Longrightarrow> length p \<le> 255 \<Longrightarrow>
      fst (look q (enter p (Some n) s)) = Some k \<Longrightarrow> (q = p \<and> k = n) \<or> (q \<noteq> p \<and> fst (look q s) = Some k)"
    and find_drop: "inv_cache s \<Longrightarrow> fst (look q (drop_path p s)) = (if path_covers p q then None else fst (look q s))"
    and find_drop_node: "inv_cache s \<Longrightarrow>
      fst (look q (drop_node n s)) = (if fst (look q s) = Some n then None else fst (look q s))"
    and find_flush: "inv_cache s \<Longrightarrow> fst (look q (flush s)) = None"
    and find_reset: "inv_cache s \<Longrightarrow> fst (look q (reset s)) = None"
    and inv_find: "inv_cache s \<Longrightarrow> inv_cache (snd (look p s))"
    and inv_enter: "inv_cache s \<Longrightarrow> fst (look p s) = None \<Longrightarrow> length p \<le> 255 \<Longrightarrow> inv_cache (enter p (Some n) s)"
    and inv_drop: "inv_cache s \<Longrightarrow> inv_cache (drop_path p s)"
    and inv_drop_node: "inv_cache s \<Longrightarrow> inv_cache (drop_node n s)"
    and inv_flush: "inv_cache s \<Longrightarrow> inv_cache (flush s)"
    and inv_reset: "inv_cache s \<Longrightarrow> inv_cache (reset s)"

fun cache_step :: "(u8 list \<Rightarrow> 's \<Rightarrow> nat option \<times> 's) \<Rightarrow> (u8 list \<Rightarrow> nat option \<Rightarrow> 's \<Rightarrow> 's) \<Rightarrow>
    (u8 list \<Rightarrow> 's \<Rightarrow> 's) \<Rightarrow> (nat \<Rightarrow> 's \<Rightarrow> 's) \<Rightarrow> ('s \<Rightarrow> 's) \<Rightarrow> ('s \<Rightarrow> 's) \<Rightarrow> cache_op \<Rightarrow> 's \<Rightarrow> 's" where
  "cache_step look enter drop_path drop_node flush reset (Look p n) s =
     (let (hit, s) = look p s in if hit = None then enter p (Some n) s else s)"
| "cache_step look enter drop_path drop_node flush reset (Drop p) s = drop_path p s"
| "cache_step look enter drop_path drop_node flush reset (Drop_node n) s = drop_node n s"
| "cache_step look enter drop_path drop_node flush reset Flush s = flush s"
| "cache_step look enter drop_path drop_node flush reset Reset s = reset s"

definition dcache_step :: "cache_op \<Rightarrow> vfs \<Rightarrow> vfs" where
  "dcache_step = cache_step dcache_lookup dcache_insert dcache_invalidate (\<lambda>n. dcache_invalidate_node (Some n)) dcache_flush dcache_init"

definition short_paths :: "cache_op list \<Rightarrow> bool" where
  "short_paths ops \<longleftrightarrow> (\<forall>p n. Look p n \<in> set ops \<longrightarrow> length p \<le> 255)"

text \<open>No operation of the list invalidates the path \<open>q\<close>, the node \<open>k\<close> or everything.\<close>

definition undropped :: "u8 list \<Rightarrow> nat \<Rightarrow> cache_op list \<Rightarrow> bool" where
  "undropped q k ops \<longleftrightarrow> (\<forall>p. Drop p \<in> set ops \<longrightarrow> \<not> path_covers p q)
     \<and> Drop_node k \<notin> set ops \<and> Flush \<notin> set ops \<and> Reset \<notin> set ops"

lemma undropped_Cons: "undropped q k (x # ops) \<longleftrightarrow> undropped q k [x] \<and> undropped q k ops"
  by (auto simp: undropped_def)

lemma short_paths_Cons: "short_paths (x # ops) \<longleftrightarrow> short_paths [x] \<and> short_paths ops"
  by (auto simp: short_paths_def)

context path_cache
begin

lemma hit_after:
  assumes "inv_cache s" "short_paths [x]"
  defines "s' \<equiv> cache_step look enter drop_path drop_node flush reset x s"
  shows "inv_cache s'" "fst (look q s') = Some k \<Longrightarrow> x = Look q k \<or> fst (look q s) = Some k \<and> undropped q k [x]"
proof -
  have "inv_cache s' \<and> (fst (look q s') = Some k \<longrightarrow> x = Look q k \<or> fst (look q s) = Some k \<and> undropped q k [x])"
  proof (cases x)
    case (Look p n)
    obtain hit s1 where l: "look p s = (hit, s1)" by fastforce
    have s1: "inv_cache s1" "\<And>q. fst (look q s1) = fst (look q s)"
      using inv_find [OF assms(1), of p] find_touch [OF assms(1), of _ p] l by simp_all
    then have "hit = None \<Longrightarrow> fst (look p s1) = None" using l by simp
    moreover have "length p \<le> 255" using assms(2) Look by (simp add: short_paths_def)
    ultimately show ?thesis
      using s1 inv_enter [of s1 p] find_enter [of s1 p q n k] by (auto simp: s'_def Look l undropped_def)
  qed (use assms(1) in \<open>auto simp: s'_def undropped_def inv_drop inv_drop_node inv_flush inv_reset
      find_drop find_drop_node find_flush find_reset split: if_splits\<close>)
  then show "inv_cache s'" "fst (look q s') = Some k \<Longrightarrow> x = Look q k \<or> fst (look q s) = Some k \<and> undropped q k [x]"
    by blast+
qed

lemma hit_is_fresh:
  assumes "inv_cache s" "short_paths ops"
    "fst (look q (fold (cache_step look enter drop_path drop_node flush reset) ops s)) = Some k"
  shows "(fst (look q s) = Some k \<and> undropped q k ops) \<or> (\<exists>xs ys. ops = xs @ Look q k # ys \<and> undropped q k ys)"
  using assms
proof (induction ops arbitrary: s)
  case (Cons x ops)
  let ?s = "cache_step look enter drop_path drop_node flush reset x s"
  have sp: "short_paths [x]" "short_paths ops" using Cons.prems(2) by (simp_all add: short_paths_Cons [of x ops])
  have "(fst (look q ?s) = Some k \<and> undropped q k ops) \<or> (\<exists>xs ys. ops = xs @ Look q k # ys \<and> undropped q k ys)"
    using Cons.IH [OF hit_after(1) [OF Cons.prems(1) sp(1)] sp(2)] Cons.prems(3) by simp
  then show ?case
  proof
    assume a: "fst (look q ?s) = Some k \<and> undropped q k ops"
    then consider "x = Look q k" | "fst (look q s) = Some k" "undropped q k [x]"
      using hit_after(2) [OF Cons.prems(1) sp(1)] by blast
    then show ?thesis
    proof cases
      case 1
      then show ?thesis using a by (intro disjI2 exI [of _ "[]"] exI [of _ ops]) simp
    qed (use a undropped_Cons in blast)
  next
    assume "\<exists>xs ys. ops = xs @ Look q k # ys \<and> undropped q k ys"
    then show ?thesis by (metis append_Cons)
  qed
qed (simp add: undropped_def)

end

lemma lookup_eqI: "(\<And>n. x = Some n \<longleftrightarrow> y = Some n) \<Longrightarrow> x = y"
  by (cases x; cases y) auto

lemma dcache_lookup_eq_iff:
  assumes "dentries_ok (dcache s)" "dentries_ok (dcache t)" "\<And>n. cached s p n \<longleftrightarrow> cached t q n"
  shows "fst (dcache_lookup p s) = fst (dcache_lookup q t)"
  using assms dcache_lookup_cached by (intro lookup_eqI) blast

lemma dcache_miss:
  "dentries_ok (dcache s) \<Longrightarrow> fst (dcache_lookup p s) = None \<longleftrightarrow> (\<forall>n. \<not> cached s p n)"
  using dcache_lookup_cached by (metis not_None_eq)

lemma cached_unique:
  assumes "dentries_ok (dcache s)" "cached s p n" "cached s p k"
  shows "n = k"
  using dcache_lookup_cached [OF assms(1)] assms(2,3) by (metis option.inject)

lemma dcache_invalidate_node_ok:
  assumes "dentries_ok (dcache s)"
  shows "dentries_ok (dcache (dcache_invalidate_node (Some n) s))"
    "cached (dcache_invalidate_node (Some n) s) q k \<longleftrightarrow> cached s q k \<and> k \<noteq> n"
proof -
  show "dentries_ok (dcache (dcache_invalidate_node (Some n) s))"
    using assms by (auto simp: dcache_invalidate_node_def intro!: dentries_ok_map)
  have "dc_valid (dcache (dcache_invalidate_node (Some n) s) ! i) \<and> dc_path (dcache (dcache_invalidate_node (Some n) s) ! i) = q
      \<and> dc_node (dcache (dcache_invalidate_node (Some n) s) ! i) = Some k \<longleftrightarrow>
    dc_valid (dcache s ! i) \<and> dc_path (dcache s ! i) = q \<and> dc_node (dcache s ! i) = Some k \<and> k \<noteq> n" if "i < 32" for i
    using that dentries_ok_length [OF assms] by (auto simp: dcache_invalidate_node_def)
  then show "cached (dcache_invalidate_node (Some n) s) q k \<longleftrightarrow> cached s q k \<and> k \<noteq> n" unfolding cached_def by blast
qed

lemma dcache_flush_ok:
  assumes "dentries_ok (dcache s)"
  shows "dentries_ok (dcache (dcache_flush s))" "dentries_ok (dcache (dcache_init s))"
    "\<not> cached (dcache_flush s) q k" "\<not> cached (dcache_init s) q k"
  using assms dentries_ok_length [OF assms]
  by (auto simp: dcache_flush_def dcache_init_def cached_def intro!: dentries_ok_map)

interpretation dc: path_cache dcache_lookup dcache_insert dcache_invalidate "\<lambda>n. dcache_invalidate_node (Some n)" dcache_flush dcache_init
  "\<lambda>s. dentries_ok (dcache s)"
proof
  fix s :: vfs and p q n k
  assume ok: "dentries_ok (dcache s)"
  show ok1: "dentries_ok (dcache (snd (dcache_lookup p s)))" using ok by (simp add: dcache_touch)
  show "fst (dcache_lookup q (snd (dcache_lookup p s))) = fst (dcache_lookup q s)"
    using ok ok1 by (intro dcache_lookup_eq_iff) (simp_all add: dcache_touch)
  show ok2: "dentries_ok (dcache (dcache_invalidate p s))" using ok by (rule dcache_invalidate_ok)
  show "fst (dcache_lookup q (dcache_invalidate p s)) = (if path_covers p q then None else fst (dcache_lookup q s))"
    using ok ok2 by (auto simp: dcache_miss dcache_invalidate_ok intro: dcache_lookup_eq_iff)
  show ok4: "dentries_ok (dcache (dcache_invalidate_node (Some n) s))" using ok by (rule dcache_invalidate_node_ok)
  show "fst (dcache_lookup q (dcache_invalidate_node (Some n) s)) = (if fst (dcache_lookup q s) = Some n then None else fst (dcache_lookup q s))"
    using ok ok4 by (intro lookup_eqI) (auto simp: dcache_lookup_cached dcache_invalidate_node_ok dest: cached_unique [OF ok])
  show ok5: "dentries_ok (dcache (dcache_flush s))" "dentries_ok (dcache (dcache_init s))" using ok by (rule dcache_flush_ok)+
  then show "fst (dcache_lookup q (dcache_flush s)) = None" "fst (dcache_lookup q (dcache_init s)) = None"
    using ok by (simp_all add: dcache_miss dcache_flush_ok)
  assume m: "fst (dcache_lookup p s) = None" "length p \<le> 255"
  then have m1: "\<forall>n. \<not> cached s p n" using ok by (simp add: dcache_miss)
  show ok3: "dentries_ok (dcache (dcache_insert p (Some n) s))" by (rule dcache_insert_ok [OF ok m1 m(2)])
  assume "fst (dcache_lookup q (dcache_insert p (Some n) s)) = Some k"
  then show "(q = p \<and> k = n) \<or> (q \<noteq> p \<and> fst (dcache_lookup q s) = Some k)"
    using m1 ok ok3 by (auto simp: dcache_lookup_cached dcache_insert_ok [OF ok m1 m(2)])
qed

text \<open>C4. The dentry cache implements a map from paths to vnodes that may forget its least recently used
  entry. After an insertion of a path that missed, a lookup of that path hits with its node, the path of
  the one entry that was replaced misses, and every other lookup is as before; the replaced entry was
  free, or the cache was full and no entry was used less recently. An invalidation makes exactly the
  path and the paths that continue it with a slash miss (below the root directory itself, whose path
  already ends in the slash, it invalidates nothing). A lookup changes no other lookup.\<close>

theorem dcache_refines_map:
  assumes ok: "dentries_ok (dcache s)" and miss: "fst (dcache_lookup path s) = None" and l: "length path \<le> 255"
  shows "(\<exists>e\<in>set (dcache s).
      (\<forall>q. fst (dcache_lookup q (dcache_insert path (Some n) s)) =
         (if q = path then Some n else if dc_valid e \<and> q = dc_path e then None else fst (dcache_lookup q s))) \<and>
      (dc_valid e \<longrightarrow> (\<forall>e'\<in>set (dcache s). dc_valid e' \<and> dc_lru e \<le> dc_lru e'))) \<and>
    (\<forall>q. fst (dcache_lookup q (dcache_invalidate dir s)) = (if path_covers dir q then None else fst (dcache_lookup q s))) \<and>
    (\<forall>p q. fst (dcache_lookup q (snd (dcache_lookup p s))) = fst (dcache_lookup q s))"
proof (intro conjI)
  have m: "\<forall>n. \<not> cached s path n" using miss ok by (simp add: dcache_miss)
  note ins = dcache_insert_ok [OF ok m l]
  note len = dentries_ok_length [OF ok]
  let ?e = "dcache s ! victim_of s"
  have e: "?e \<in> set (dcache s)" using victim_of(1) [OF len] len by simp
  have "dc_valid ?e \<longrightarrow> (\<forall>e'\<in>set (dcache s). dc_valid e' \<and> dc_lru ?e \<le> dc_lru e')"
    using victim_of(2) [OF len] len by (auto simp: in_set_conv_nth)
  moreover have "fst (dcache_lookup q (dcache_insert path (Some n) s)) =
      (if q = path then Some n else if dc_valid ?e \<and> q = dc_path ?e then None else fst (dcache_lookup q s))" for q
    using m ok ins(1) by (intro lookup_eqI) (auto simp: dcache_lookup_cached ins(2))
  ultimately show "\<exists>e\<in>set (dcache s).
      (\<forall>q. fst (dcache_lookup q (dcache_insert path (Some n) s)) =
         (if q = path then Some n else if dc_valid e \<and> q = dc_path e then None else fst (dcache_lookup q s))) \<and>
      (dc_valid e \<longrightarrow> (\<forall>e'\<in>set (dcache s). dc_valid e' \<and> dc_lru e \<le> dc_lru e'))"
    using e by blast
qed (simp_all add: dc.find_drop [OF ok] dc.find_touch [OF ok])

definition demo_vfs :: vfs where
  "demo_vfs = dcache_insert [47, 98] (Some 1) (vfs_boot (\<lambda>_. 0) (demo_fs 7))"

lemma demo_vfs_ok: "dentries_ok (dcache demo_vfs)"
  unfolding demo_vfs_def
  by (rule dcache_insert_ok) (simp_all add: dentries_ok_def cached_def vfs_boot_def)

lemma demo_vfs_cached: "cached demo_vfs q k \<longleftrightarrow> q = [47, 98] \<and> k = 1"
proof -
  let ?s = "vfs_boot (\<lambda>_. 0) (demo_fs 7)"
  have 1: "dentries_ok (dcache ?s)" "\<not> cached ?s q k" for q k by (simp_all add: dentries_ok_def cached_def vfs_boot_def)
  show ?thesis unfolding demo_vfs_def using 1 by (subst dcache_insert_ok) simp_all
qed

theorem dcache_refines_map_witness:
  "fst (dcache_lookup [47, 99] (dcache_insert [47, 99] (Some 2) demo_vfs)) = Some 2 \<and>
   fst (dcache_lookup [47, 98] (dcache_invalidate [47] demo_vfs)) = Some 1 \<and>
   fst (dcache_lookup [47, 98] (dcache_invalidate [47, 98] demo_vfs)) = None"
proof -
  have m: "fst (dcache_lookup [47, 99] demo_vfs) = None" "fst (dcache_lookup [47, 98] demo_vfs) = Some 1"
    using demo_vfs_ok by (simp_all add: dcache_miss dcache_lookup_cached demo_vfs_cached)
  show ?thesis
    using dcache_refines_map [OF demo_vfs_ok m(1), of 2 "[47]"] dcache_refines_map [OF demo_vfs_ok m(1), of 2 "[47, 98]"] m(2)
    by (auto simp: path_covers_def)
qed

text \<open>C5. A hit in the dentry cache is never stale: whatever lookups, invalidations of paths and of nodes, flushes and
  resets the layer performs, a lookup of \<open>q\<close> that answers \<open>k\<close> answers with a node that was entered for exactly that
  path (or was cached at the start), and since then the cache was not emptied, the node \<open>k\<close> was not invalidated, and no path
  was invalidated that covers \<open>q\<close>, that is \<open>q\<close> itself or a prefix of it that is followed by a slash.
  The path of the root directory, which ends in its slash, covers only itself.\<close>

theorem dcache_never_stale:
  assumes "dentries_ok (dcache s)" "short_paths ops" "fst (dcache_lookup q (fold dcache_step ops s)) = Some k"
  shows "(fst (dcache_lookup q s) = Some k \<and> undropped q k ops) \<or> (\<exists>xs ys. ops = xs @ Look q k # ys \<and> undropped q k ys)"
  using assms unfolding dcache_step_def by (rule dc.hit_is_fresh)

theorem dcache_never_stale_witness:
  "\<exists>xs ys. [Drop [47, 98], Look [47, 98] 5] = xs @ Look [47, 98] 5 # ys \<and> undropped [47, 98] 5 ys"
proof -
  let ?p = "[47, 98] :: u8 list" and ?ops = "[Drop [47, 98], Look [47, 98] 5]"
  let ?s1 = "dcache_invalidate ?p demo_vfs"
  let ?s2 = "snd (dcache_lookup ?p ?s1)"
  note ok = demo_vfs_ok dc.inv_drop [OF demo_vfs_ok, of ?p]
  have miss: "fst (dcache_lookup ?p ?s1) = None" by (simp add: dc.find_drop [OF ok(1)] path_covers_def)
  have ok2: "dentries_ok (dcache ?s2)" "\<forall>n. \<not> cached ?s2 ?p n"
    using ok(2) miss by (simp_all add: dcache_touch dcache_miss)
  have "fold dcache_step ?ops demo_vfs = dcache_insert ?p (Some 5) ?s2"
    using miss by (simp add: dcache_step_def case_prod_unfold)
  then have "fst (dcache_lookup ?p (fold dcache_step ?ops demo_vfs)) = Some 5"
    using dcache_insert_ok [OF ok2] by (simp add: dcache_lookup_cached)
  from dcache_never_stale [OF demo_vfs_ok _ this] show ?thesis by (simp add: short_paths_def undropped_def path_covers_def)
qed

end
