(* ===== verification/Vfs_Faults.thy ===== *)
theory Vfs_Faults
  imports Vfs
begin

text \<open>
  How \<open>unnamedfs_vop_unlink\<close> of \<open>src/vfs.c\<close> destroys the vnode of the root directory when it removes
  a file: the effect of the removal on the inode, the theorem for every state in which the removal
  succeeds, and a concrete file system with one file on which it does.
\<close>

lemma memset_zero_byte: "a \<noteq> 0 \<Longrightarrow> w < n \<Longrightarrow> snd (lib_memset m a 0 n) (a + w) = 0"
  by (simp add: memset_correct word_less_nat_alt)

lemma memset_zero:
  assumes "a \<noteq> 0"
  shows "rd32 (snd (lib_memset m a 0 4104)) a = 0" "rd32 (snd (lib_memset m a 0 4104)) (a + 8) = 0"
proof -
  note z = memset_zero_byte [OF assms, of _ 4104 m]
  show "rd32 (snd (lib_memset m a 0 4104)) a = 0"
    using z [of 0] z [of 1] z [of 2] z [of 3] by (simp add: rd32_def)
  have "a + 8 + 1 = a + 9" "a + 8 + 2 = a + 10" "a + 8 + 3 = a + 11" by simp_all
  moreover have "snd (lib_memset m a 0 4104) (a + 8) = 0" "snd (lib_memset m a 0 4104) (a + 9) = 0"
    "snd (lib_memset m a 0 4104) (a + 10) = 0" "snd (lib_memset m a 0 4104) (a + 11) = 0"
    by (rule z, simp)+
  ultimately show "rd32 (snd (lib_memset m a 0 4104)) (a + 8) = 0" unfolding rd32_def by (simp only: ucast_0 push_bit_of_0 or.left_neutral)
qed

lemma unlink_clears:
  assumes "unamedfs_unlink m (Some path) u = (0, m', u')"
    and "fst (find_inode_by_path m (path_normalize path 256) u) = i" "inode_at u i \<noteq> 0"
  shows "rd32 m' (inode_at u i) = 0" "rd32 m' (inode_at u i + 8) = 0"
proof -
  obtain u1 where f: "find_inode_by_path m (path_normalize path 256) u = (i, u1)" using assms(2) by (metis prod.collapse)
  have "inode_at u1 i = inode_at u i" using cache_only_keeps(3) [OF find_path_frame] f by (metis snd_conv)
  then have "\<exists>m1. m' = snd (lib_memset m1 (inode_at u i) 0 4104)"
    using assms(1) by (auto simp: unamedfs_unlink_def f drop_inode_def Let_def split: if_splits)
  then show "rd32 m' (inode_at u i) = 0" "rd32 m' (inode_at u i + 8) = 0" using assms(3) memset_zero by auto
qed

lemma dcache_invalidate_keeps [simp]:
  "nodes (dcache_invalidate p s) = nodes s" "nodes_initialized (dcache_invalidate p s) = nodes_initialized s"
  "disk (dcache_invalidate p s) = disk s" "nodes (dcache_invalidate_node n s) = nodes s"
  by (simp_all add: dcache_invalidate_def dcache_invalidate_node_def Let_def)

text \<open>C39. Removing a file through the virtual file system destroys the root directory: the backend has
  already cleared the inode when its vnode is looked up by the inode number it stores, which is then 0,
  so the vnode of the root becomes a file that points at the inode just freed, and in the state after the unlink no name is found
  in the root directory any more.\<close>

theorem unlink_breaks_root:
  assumes wf: "vfs_wf s" "nodes_initialized s" "mnt_inodes (unnamedfs_mnt s) = mnt_inodes (current_mount (backend s))"
    and target: "find_entry dir name s = Some target" "i_flags (disk s) (vfs_inode s target) AND 2 = 0" "vfs_inode s target \<noteq> 0"
    and path: "fst (find_inode_by_path (disk s) (path_normalize (join_path (path_stack s (int target) 8)) 256) (backend s)) = int target"
    and ok: "unnamedfs_vop_unlink dir name s = (0, s')"
  shows "vn_type (node_at s' 0) = VFS_TYPE_FILE \<and> vn_data (node_at s' 0) = vfs_inode s target \<and>
    fst (unnamedfs_vop_lookup 0 child s') = None"
proof -
  let ?p = "join_path (path_stack s (int target) 8)" and ?t = "vfs_inode s target"
  obtain rc m' u where un: "unamedfs_unlink (disk s) (Some ?p) (backend s) = (rc, m', u)" by (metis prod_cases3)
  have rc: "rc = 0" using ok target(1,2) un by (auto simp: unnamedfs_vop_unlink_def Let_def split: if_splits prod.splits)
  have t: "inode_at (backend s) (int target) = ?t" by (simp add: inode_at_def vfs_inode_def wf(3))
  have z: "i_ino m' ?t = 0" "i_flags m' ?t = 0"
    using unlink_clears [OF un [unfolded rc] path] target(3) by (simp_all add: t i_ino_def i_flags_def)
  have "\<exists>x. nodes s' = (nodes s)[0 := (nodes s ! 0)\<lparr>vn_type := VFS_TYPE_FILE, vn_data := ?t, vn_id := 0, vn_name := x\<rparr>]"
    using ok target un rc z wf(2)
    by (auto simp: unnamedfs_vop_unlink_def inode_to_vnode_def Let_def split: if_splits prod.splits)
  then show ?thesis
    using wfD(1) [OF wf(1)] by (auto simp: node_at_def unnamedfs_vop_lookup_def Let_def VFS_TYPE_FILE_def VFS_TYPE_DIR_def)
qed

definition demo_tree :: vfs where
  "demo_tree = (vfs_boot (demo_disk 30 1) (demo_fs 7))\<lparr>unnamedfs_mnt := current_mount (demo_fs 7),
     nodes := \<lparr>vn_id = 0, vn_type = VFS_TYPE_DIR, vn_refcount = 0, vn_data = at demo_dev (ipos 0), vn_name = [47]\<rparr> #
       replicate 255 \<lparr>vn_id = 0, vn_type = 0, vn_refcount = 0, vn_data = 0, vn_name = []\<rparr>,
     nodes_initialized := True, root_node := Some 0\<rparr>"

lemma demo_tree_sel [simp]:
  "disk demo_tree = demo_disk 30 1" "backend demo_tree = demo_fs 7" "nodes_initialized demo_tree"
  "unnamedfs_mnt demo_tree = current_mount (demo_fs 7)" "vn_type (node_at demo_tree 0) = VFS_TYPE_DIR"
  "vn_data (node_at demo_tree 0) = at demo_dev (ipos 0)"
  by (simp_all add: demo_tree_def node_at_def vfs_boot_def)

lemma demo_tree_wf: "vfs_wf demo_tree"
proof -
  have "length (nodes demo_tree) = 256 \<and> list_all typed_node (nodes demo_tree)"
    by (simp add: demo_tree_def typed_node_def list_all_length nth_Cons')
  then show ?thesis
    using wf_boot [of "demo_disk 30 1" "demo_fs 7"] by (simp add: vfs_wf_def demo_tree_def)
qed

lemma demo_tree_inodes:
  "vfs_inode demo_tree 0 = at demo_dev (ipos 0)" "vfs_inode demo_tree 1 = at demo_dev (ipos 1)" "vfs_inode_count demo_tree = 2"
  using demo_inodes(1) [of 30 1 7]
  by (simp_all add: vfs_inode_def vfs_inode_count_def vfs_sb_def inode_count_def demo_fs_def at_def ipos_def)

lemma demo_tree_fields:
  "i_ino (demo_disk 30 1) (at demo_dev (ipos 0)) = 0" "i_parent (demo_disk 30 1) (at demo_dev (ipos 0)) = 0"
  "i_parent (demo_disk 30 1) (at demo_dev (ipos 1)) = 0"
proof -
  show "i_ino (demo_disk 30 1) (at demo_dev (ipos 0)) = 0"
    by (simp add: i_ino_def ipos_def demo_disk_def rd32_wr32_at rd32_zero del: at_0)
  show "i_parent (demo_disk 30 1) (at demo_dev (ipos 0)) = 0" "i_parent (demo_disk 30 1) (at demo_dev (ipos 1)) = 0"
    unfolding inode_fields by (simp_all add: ipos_def demo_word)
qed

lemma demo_tree_names:
  "at demo_dev (ipos 0) + 24 = at demo_dev 4120" "at demo_dev (ipos 1) + 24 = at demo_dev 8224" "at demo_dev 8224 + 1 = at demo_dev 8225"
  "25 + at demo_dev (ipos 1) = at demo_dev 8225"
  by (simp_all add: at_def ipos_def)

lemma demo_tree_one:
  "vfs_inode demo_tree (Suc 0) = at demo_dev 8200" "i_parent (demo_disk 30 1) (at demo_dev 8200) = 0"
  "i_flags (demo_disk 30 1) (at demo_dev 8200) = 1" "at demo_dev 8200 + 24 = at demo_dev 8224"
  using demo_tree_inodes(2) demo_tree_fields(3) demo_inodes(3) [of 30 1] demo_tree_names(2) by (simp_all add: ipos_def)

lemma demo_tree_find: "find_entry 0 [102] demo_tree = Some 1"
proof -
  have "[0..<2] = [0, 1 :: nat]" by (simp add: upt_rec)
  then show ?thesis
    by (simp add: find_entry_def Let_def demo_tree_inodes demo_tree_inodes(2) [unfolded One_nat_def] demo_tree_fields demo_tree_names
        demo_names demo_name_end demo_inodes del: One_nat_def)
qed

lemma demo_tree_path: "join_path (path_stack demo_tree 1 8) = [47, 102]"
proof -
  have n: "read_str (demo_disk 30 1) (at demo_dev 8224) 63 = [102]"
    unfolding read_str_def upt_conv_Cons [of 0 63, simplified] upt_conv_Cons [of "Suc 0" 63, simplified]
    by (simp add: demo_names demo_name_end demo_tree_names)
  have z: "path_stack demo_tree 0 k = []" for k by (cases k) simp_all
  have "path_stack demo_tree 1 (Suc 7) = [[102]]"
    unfolding path_stack.simps Let_def using n z
    by (simp add: demo_tree_one demo_tree_inodes(3))
  then show ?thesis by (simp add: join_path_def)
qed

lemma demo_tree_resolves: "fst (find_inode_by_path (demo_disk 30 1) (path_normalize [47, 102] 256) (demo_fs 7)) = 1"
proof -
  have "path_normalize [47, 102] 256 = [47, 102]" by (simp add: path_normalize_def)
  then show ?thesis
    using find_path_resolve [OF demo_unique demo_cache(2), of "[47, 102]" 30 1 7] demo_child by (simp add: path_components_def)
qed

lemma demo_tree_unlink: "fst (unnamedfs_vop_unlink 0 [102] demo_tree) = 0"
proof -
  obtain u1 where f: "find_inode_by_path (demo_disk 30 1) (path_normalize [47, 102] 256) (demo_fs 7) = (1, u1)"
    using demo_tree_resolves by (metis prod.collapse)
  have a: "inode_at u1 1 = at demo_dev (ipos 1)"
    using cache_only_keeps(3) [OF find_path_frame] inode_at_eq [OF demo_mounted, of 7 1] f by (metis of_nat_1 snd_conv)
  have n: "path_normalize [47, 102] 256 \<noteq> [47]" by (simp add: path_normalize_def)
  obtain m' u' where un: "unamedfs_unlink (demo_disk 30 1) (Some [47, 102]) (demo_fs 7) = (0, m', u')"
    using n demo_inodes(3) [of 30 1] by (auto simp: unamedfs_unlink_def f a demo_cache drop_inode_def Let_def)
  show ?thesis
    using demo_inodes(3) [of 30 1] un
    by (simp add: unnamedfs_vop_unlink_def demo_tree_find demo_tree_inodes demo_tree_path Let_def case_prod_unfold
        at_def ipos_def demo_dev_def del: One_nat_def)
qed

theorem unlink_breaks_root_witness:
  "\<exists>s'. unnamedfs_vop_unlink 0 [102] demo_tree = (0, s') \<and> vn_type (node_at s' 0) = VFS_TYPE_FILE \<and>
     fst (unnamedfs_vop_lookup 0 [101, 116, 99] s') = None"
proof -
  obtain s' where s': "unnamedfs_vop_unlink 0 [102] demo_tree = (0, s')" using demo_tree_unlink by (metis prod.collapse)
  have "vfs_inode demo_tree 1 \<noteq> 0" unfolding demo_tree_inodes by (simp add: at_def ipos_def demo_dev_def)
  then show ?thesis
    using unlink_breaks_root [OF demo_tree_wf _ _ demo_tree_find _ _ _ s', of "[101, 116, 99]"] s'
      demo_tree_path demo_tree_resolves by (simp add: demo_tree_one)
qed

end
