(* ===== verification/Console.thy ===== *)
theory Console
  imports Tinx_Prelude
begin

text \<open>
  The text console of \<open>src/io.c\<close>.
  \<^item> The record \<open>console\<close> holds the statics: the cell array at \<open>VGA_MEMORY\<close> (as a function of the index,
    so that a write outside the screen is visible), the cursor and the colour, together with the trace
    of the bytes written to ports.
  \<^item> \<open>rep movsl\<close> and \<open>rep stosl\<close> are written out as loops over pairs of cells.
  \<^item> The keyboard state \<open>keyboard\<close> holds the three statics of \<open>io_getchar\<close>; the status and the scan
    code that it reads from the controller are arguments.
  The lemmas show that no write leaves the screen and the cursor stays on it, that the fast path of
  \<open>io_print\<close> agrees with printing character by character, and which characters the keyboard can give.
\<close>

section \<open>The screen\<close>

record console =
  vga_buffer :: "u32 \<Rightarrow> u16"
  cursor_x :: u32
  cursor_y :: u32
  color :: u8
  port_trace :: "(u16 \<times> u8) list"

definition VGA_WIDTH :: u32 where "VGA_WIDTH = 80"
definition VGA_HEIGHT :: u32 where "VGA_HEIGHT = 25"

definition outb :: "u16 \<Rightarrow> u8 \<Rightarrow> console \<Rightarrow> console" where
  "outb port value c = c\<lparr>port_trace := port_trace c @ [(port, value)]\<rparr>"

definition make_vgaentry :: "u8 \<Rightarrow> u8 \<Rightarrow> u16" where
  "make_vgaentry ch col = ucast ch OR push_bit 8 (ucast col)"

definition set_color :: "u8 \<Rightarrow> u8 \<Rightarrow> console \<Rightarrow> console" where
  "set_color fg bg c = c\<lparr>color := fg OR push_bit 4 bg\<rparr>"

primrec fill_cells :: "(u32 \<Rightarrow> u16) \<Rightarrow> u32 \<Rightarrow> u16 \<Rightarrow> nat \<Rightarrow> (u32 \<Rightarrow> u16)" where
  "fill_cells v i x 0 = v"
| "fill_cells v i x (Suc n) = fill_cells (v(i := x)) (i + 1) x n"

definition clear_screen :: "console \<Rightarrow> console" where
  "clear_screen c =
     c\<lparr>vga_buffer := fill_cells (vga_buffer c) 0 (make_vgaentry 32 (color c)) (unat (VGA_WIDTH * VGA_HEIGHT)),
       cursor_x := 0, cursor_y := 0\<rparr>"

definition update_hw_cursor :: "console \<Rightarrow> console" where
  "update_hw_cursor c =
     (let pos = ucast (cursor_y c * VGA_WIDTH + cursor_x c) :: u16
      in outb 0x3D5 (ucast (drop_bit 8 pos AND 0xFF))
        (outb 0x3D4 0x0E (outb 0x3D5 (ucast (pos AND 0xFF)) (outb 0x3D4 0x0F c))))"

definition vga_clear :: "console \<Rightarrow> console" where
  "vga_clear c = update_hw_cursor (clear_screen c)"

primrec rep_movsl :: "(u32 \<Rightarrow> u16) \<Rightarrow> u32 \<Rightarrow> u32 \<Rightarrow> nat \<Rightarrow> (u32 \<Rightarrow> u16)" where
  "rep_movsl v dst src 0 = v"
| "rep_movsl v dst src (Suc n) = rep_movsl (v(dst := v src, dst + 1 := v (src + 1))) (dst + 2) (src + 2) n"

primrec rep_stosl :: "(u32 \<Rightarrow> u16) \<Rightarrow> u32 \<Rightarrow> u32 \<Rightarrow> nat \<Rightarrow> (u32 \<Rightarrow> u16)" where
  "rep_stosl v dst x 0 = v"
| "rep_stosl v dst x (Suc n) = rep_stosl (v(dst := ucast x, dst + 1 := ucast (drop_bit 16 x))) (dst + 2) x n"

definition scroll :: "console \<Rightarrow> console" where
  "scroll c =
     (if VGA_HEIGHT \<le> cursor_y c
      then let v = rep_movsl (vga_buffer c) 0 VGA_WIDTH (unat (VGA_WIDTH * (VGA_HEIGHT - 1) div 2));
               blank = make_vgaentry 32 (color c);
               blank32 = ucast blank OR push_bit 16 (ucast blank);
               v = rep_stosl v ((VGA_HEIGHT - 1) * VGA_WIDTH) blank32 (unat (VGA_WIDTH div 2))
           in c\<lparr>vga_buffer := v, cursor_y := VGA_HEIGHT - 1\<rparr>
      else c)"

definition put_char_at :: "u8 \<Rightarrow> u32 \<Rightarrow> u32 \<Rightarrow> console \<Rightarrow> console" where
  "put_char_at ch x y c = c\<lparr>vga_buffer := (vga_buffer c)(y * VGA_WIDTH + x := make_vgaentry ch (color c))\<rparr>"

definition wrap_column :: "console \<Rightarrow> console" where
  "wrap_column c = (if VGA_WIDTH \<le> cursor_x c then c\<lparr>cursor_x := 0, cursor_y := cursor_y c + 1\<rparr> else c)"

definition io_putchar_nocursor :: "u8 \<Rightarrow> console \<Rightarrow> console" where
  "io_putchar_nocursor ch c =
     scroll
      (if ch = 10 then c\<lparr>cursor_x := 0, cursor_y := cursor_y c + 1\<rparr>
       else if ch = 13 then c\<lparr>cursor_x := 0\<rparr>
       else if ch = 9 then wrap_column (c\<lparr>cursor_x := (cursor_x c + 8) AND NOT 7\<rparr>)
       else if ch = 8 then
         (if 0 < cursor_x c
          then put_char_at 32 (cursor_x c - 1) (cursor_y c) (c\<lparr>cursor_x := cursor_x c - 1\<rparr>)
          else if 0 < cursor_y c
          then put_char_at 32 (VGA_WIDTH - 1) (cursor_y c - 1) (c\<lparr>cursor_y := cursor_y c - 1, cursor_x := VGA_WIDTH - 1\<rparr>)
          else c)
       else wrap_column ((put_char_at ch (cursor_x c) (cursor_y c) c)\<lparr>cursor_x := cursor_x c + 1\<rparr>))"

definition io_putchar :: "u8 \<Rightarrow> console \<Rightarrow> console" where
  "io_putchar ch c = update_hw_cursor (io_putchar_nocursor ch c)"

fun print_loop :: "u8 list \<Rightarrow> console \<Rightarrow> console" where
  "print_loop [] c = c"
| "print_loop (ch # s) c =
     (if 32 \<le> ch \<and> ch < 127 \<and> cursor_x c < VGA_WIDTH - 1
      then print_loop s ((put_char_at ch (cursor_x c) (cursor_y c) c)\<lparr>cursor_x := cursor_x c + 1\<rparr>)
      else print_loop s (io_putchar_nocursor ch c))"

definition io_print :: "u8 list option \<Rightarrow> console \<Rightarrow> console" where
  "io_print str c = (case str of None \<Rightarrow> c | Some s \<Rightarrow> update_hw_cursor (print_loop s c))"

definition io_print_n :: "u8 list option \<Rightarrow> console \<Rightarrow> console" where
  "io_print_n str c = (case str of None \<Rightarrow> c | Some s \<Rightarrow> update_hw_cursor (fold io_putchar_nocursor s c))"

definition io_println :: "u8 list option \<Rightarrow> console \<Rightarrow> console" where
  "io_println str c = io_putchar 10 (io_print str c)"

definition io_init :: "u8 \<Rightarrow> u8 \<Rightarrow> console \<Rightarrow> console" where
  "io_init start_line end_line c =
     (let c = clear_screen (set_color 7 0 c);
          c = outb 0x3D5 ((start_line AND 0xC0) OR 0) (outb 0x3D4 0x0A c)
      in outb 0x3D5 ((end_line AND 0xE0) OR 15) (outb 0x3D4 0x0B c))"

section \<open>The keyboard\<close>

record keyboard =
  shift_pressed :: bool
  caps_lock :: bool
  extended :: bool

definition KEY_UP :: u8 where "KEY_UP = 1"
definition KEY_DOWN :: u8 where "KEY_DOWN = 2"
definition KEY_LEFT :: u8 where "KEY_LEFT = 3"
definition KEY_RIGHT :: u8 where "KEY_RIGHT = 4"

definition keymap :: "bool \<Rightarrow> bool \<Rightarrow> u8 \<Rightarrow> u8" where
  "keymap shift caps code =
     (let letter = (\<lambda>ch :: u8. if shift \<noteq> caps then ch - 32 else ch)
      in if code = 0x2 then (if shift then 33 else 49)
      else if code = 0x3 then (if shift then 64 else 50)
      else if code = 0x4 then (if shift then 35 else 51)
      else if code = 0x5 then (if shift then 36 else 52)
      else if code = 0x6 then (if shift then 37 else 53)
      else if code = 0x7 then (if shift then 94 else 54)
      else if code = 0x8 then (if shift then 38 else 55)
      else if code = 0x9 then (if shift then 42 else 56)
      else if code = 0xA then (if shift then 40 else 57)
      else if code = 0xB then (if shift then 41 else 48)
      else if code = 0xC then (if shift then 95 else 45)
      else if code = 0xD then (if shift then 43 else 61)
      else if code = 0xE then 8
      else if code = 0xF then 9
      else if code = 0x10 then letter 113
      else if code = 0x11 then letter 119
      else if code = 0x12 then letter 101
      else if code = 0x13 then letter 114
      else if code = 0x14 then letter 116
      else if code = 0x15 then letter 121
      else if code = 0x16 then letter 117
      else if code = 0x17 then letter 105
      else if code = 0x18 then letter 111
      else if code = 0x19 then letter 112
      else if code = 0x1A then (if shift then 123 else 91)
      else if code = 0x1B then (if shift then 125 else 93)
      else if code = 0x1C then 10
      else if code = 0x1E then letter 97
      else if code = 0x1F then letter 115
      else if code = 0x20 then letter 100
      else if code = 0x21 then letter 102
      else if code = 0x22 then letter 103
      else if code = 0x23 then letter 104
      else if code = 0x24 then letter 106
      else if code = 0x25 then letter 107
      else if code = 0x26 then letter 108
      else if code = 0x27 then (if shift then 58 else 59)
      else if code = 0x28 then (if shift then 34 else 39)
      else if code = 0x29 then (if shift then 126 else 96)
      else if code = 0x2B then (if shift then 124 else 92)
      else if code = 0x2C then letter 122
      else if code = 0x2D then letter 120
      else if code = 0x2E then letter 99
      else if code = 0x2F then letter 118
      else if code = 0x30 then letter 98
      else if code = 0x31 then letter 110
      else if code = 0x32 then letter 109
      else if code = 0x33 then (if shift then 60 else 44)
      else if code = 0x34 then (if shift then 62 else 46)
      else if code = 0x35 then (if shift then 63 else 47)
      else if code = 0x37 then 42
      else if code = 0x39 then 32
      else 0)"

definition io_getchar :: "u8 \<Rightarrow> u8 \<Rightarrow> keyboard \<Rightarrow> u8 \<times> keyboard" where
  "io_getchar status scancode k =
     (if status AND 1 = 0 then (0, k)
      else if scancode = 0xE0 then (0, k\<lparr>extended := True\<rparr>)
      else let is_release = (scancode AND 0x80 \<noteq> 0); code = scancode AND 0x7F
      in if is_release
         then (0, (if \<not> extended k \<and> (code = 0x2A \<or> code = 0x36) then k\<lparr>shift_pressed := False\<rparr> else k)\<lparr>extended := False\<rparr>)
      else if \<not> extended k then
        (if code = 0x2A \<or> code = 0x36 then (0, k\<lparr>shift_pressed := True\<rparr>)
         else if code = 0x3A then (0, k\<lparr>caps_lock := \<not> caps_lock k\<rparr>)
         else (keymap (shift_pressed k) (caps_lock k) code, k\<lparr>extended := False\<rparr>))
      else if code = 0x48 then (KEY_UP, k\<lparr>extended := False\<rparr>)
      else if code = 0x50 then (KEY_DOWN, k\<lparr>extended := False\<rparr>)
      else if code = 0x4B then (KEY_LEFT, k\<lparr>extended := False\<rparr>)
      else if code = 0x4D then (KEY_RIGHT, k\<lparr>extended := False\<rparr>)
      else (0, k\<lparr>extended := False\<rparr>))"

text \<open>The bytes of a string literal.\<close>

definition ascii :: "string \<Rightarrow> u8 list" where
  "ascii s = map of_char s"

section \<open>Nothing is written outside the screen\<close>

definition on_screen :: "console \<Rightarrow> bool" where
  "on_screen c \<longleftrightarrow> cursor_x c < 80 \<and> cursor_y c < 25"

definition same_outside :: "(u32 \<Rightarrow> u16) \<Rightarrow> (u32 \<Rightarrow> u16) \<Rightarrow> bool" where
  "same_outside v w \<longleftrightarrow> (\<forall>i\<ge>2000. v i = w i)"

lemma fill_cells_at:
  "unat i + n \<le> 4294967295 \<Longrightarrow> fill_cells v i x n j = (if i \<le> j \<and> unat j < unat i + n then x else v j)"
proof (induction n arbitrary: v i)
  case (Suc n)
  have "unat (i + 1) = unat i + 1" using Suc.prems by (simp add: unat_add_no_wrap)
  then show ?case using Suc by (auto simp: word_le_nat_alt word_unat_eq_iff)
qed (auto simp: word_le_nat_alt)

lemma rep_movsl_at:
  assumes "d < s" "s + 2 * n \<le> 4294967295" "j < 4294967296"
  shows "rep_movsl v (of_nat d) (of_nat s) n (of_nat j) =
    (if d \<le> j \<and> j < d + 2 * n then v (of_nat (j + (s - d))) else v (of_nat j))"
  using assms
proof (induction n arbitrary: v d s)
  case (Suc n)
  define V where "V k = v (of_nat k)" for k :: nat
  define w where "w = v(of_nat d := v (of_nat s), of_nat d + 1 := v (of_nat s + 1))"
  have w: "w (of_nat k) = (if k = d then V s else if k = d + 1 then V (s + 1) else V k)" if "k < 4294967296" for k
    using Suc.prems that of_nat_32_eq_iff [of k "d + 1"] of_nat_32_eq_iff [of k d] by (auto simp: V_def w_def add.commute)
  have k: "s + 2 - (d + 2) = s - d" by simp
  have "rep_movsl v (of_nat d) (of_nat s) (Suc n) (of_nat j) = rep_movsl w (of_nat (d + 2)) (of_nat (s + 2)) n (of_nat j)"
    by (simp add: w_def add.commute)
  also have "\<dots> = (if d + 2 \<le> j \<and> j < d + 2 + 2 * n then w (of_nat (j + (s - d))) else w (of_nat j))"
    unfolding k [symmetric] by (rule Suc.IH) (use Suc.prems in simp_all)
  also have "\<dots> = (if d \<le> j \<and> j < d + 2 * Suc n then V (j + (s - d)) else V j)"
  proof (cases "d + 2 \<le> j \<and> j < d + 2 + 2 * n")
    case True
    then have "j + (s - d) < 4294967296" using Suc.prems by auto
    from True w [OF this] show ?thesis using Suc.prems(1) by (auto simp del: of_nat_add of_nat_diff)
  next
    case False
    then show ?thesis unfolding if_not_P [OF False] w [OF Suc.prems(3)] using Suc.prems(1) by auto
  qed
  also have "\<dots> = (if d \<le> j \<and> j < d + 2 * Suc n then v (of_nat (j + (s - d))) else v (of_nat j))"
    by (simp add: V_def)
  finally show ?case .
qed simp

lemma rep_stosl_at:
  "unat i + 2 * n \<le> 4294967295 \<Longrightarrow> \<not> (i \<le> j \<and> unat j < unat i + 2 * n) \<Longrightarrow> rep_stosl v i x n j = v j"
proof (induction n arbitrary: v i)
  case (Suc n)
  have i: "unat (i + 1) = unat i + 1" "unat (i + 2) = unat i + 2" using Suc.prems(1) by (simp_all add: unat_add_no_wrap)
  then have "\<not> (i + 2 \<le> j \<and> unat j < unat (i + 2) + 2 * n)" "unat (i + 2) + 2 * n \<le> 4294967295"
    using Suc.prems by (auto simp: word_le_nat_alt)
  then show ?case using Suc.IH [of "i + 2"] Suc.prems(2) i by (auto simp: word_le_nat_alt word_unat_eq_iff)
qed simp

lemma scroll_outside: "same_outside (vga_buffer (scroll c)) (vga_buffer c)"
proof -
  have "rep_movsl v 0 80 960 i = v i" if "2000 \<le> i" for v i
    using rep_movsl_at [of 0 80 960 "unat i" v] that by (simp add: word_le_nat_alt less_imp_le)
  moreover have "rep_stosl v 1920 x 40 i = v i" if "2000 \<le> i" for v x i
    using that by (intro rep_stosl_at) (simp_all add: word_le_nat_alt)
  ultimately show ?thesis by (simp add: same_outside_def scroll_def VGA_WIDTH_def VGA_HEIGHT_def Let_def)
qed

lemma scroll_on_screen: "cursor_x c < 80 \<Longrightarrow> on_screen (scroll c)"
  by (auto simp: on_screen_def scroll_def VGA_HEIGHT_def Let_def)

lemma put_outside:
  assumes "x < 80" "y < 25"
  shows "same_outside (vga_buffer (put_char_at ch x y c)) (vga_buffer c)"
proof -
  have "unat (y * 80 + x) < 2000"
    using assms by (simp add: word_less_nat_alt unat_word_ariths)
  then show ?thesis by (auto simp: same_outside_def put_char_at_def VGA_WIDTH_def word_le_nat_alt)
qed

lemma same_outside_refl: "same_outside v v"
  by (simp add: same_outside_def)

lemma same_outside_trans: "same_outside u v \<Longrightarrow> same_outside v w \<Longrightarrow> same_outside u w"
  by (simp add: same_outside_def)

lemma word_cases_80: "(x :: u32) < 80 \<Longrightarrow> x + 1 < 80 \<or> x + 1 = 80"
  by (auto simp: word_less_nat_alt unat_word_ariths word_unat_eq_iff)

lemma wrap_x: "cursor_x (wrap_column c) < 80"
  by (auto simp: wrap_column_def VGA_WIDTH_def)

lemma wrap_buffer: "vga_buffer (wrap_column c) = vga_buffer c"
  by (simp add: wrap_column_def)

lemma put_cursor [simp]: "cursor_x (put_char_at ch x y c) = cursor_x c" "cursor_y (put_char_at ch x y c) = cursor_y c"
  by (simp_all add: put_char_at_def)

lemma pred_less: "0 < w \<Longrightarrow> w < n \<Longrightarrow> w - 1 < (n :: u32)"
  using unat_minus_one_32 [of w] by (auto simp: word_less_nat_alt word_unat_eq_iff)

lemma putchar_on_screen:
  assumes "on_screen c"
  shows "on_screen (io_putchar_nocursor ch c)"
proof -
  have "cursor_x c - 1 < 80" if "0 < cursor_x c"
    using assms that by (simp add: on_screen_def pred_less)
  then show ?thesis
    using assms unfolding io_putchar_nocursor_def
    by (intro scroll_on_screen) (auto simp: wrap_x on_screen_def VGA_WIDTH_def)
qed

lemma putchar_outside:
  assumes "on_screen c"
  shows "same_outside (vga_buffer (io_putchar_nocursor ch c)) (vga_buffer c)"
proof -
  have x: "cursor_x c - 1 < 80" if "0 < cursor_x c"
    using assms that by (simp add: on_screen_def pred_less)
  have y: "cursor_y c - 1 < 25" if "0 < cursor_y c"
    using assms that by (simp add: on_screen_def pred_less)
  show ?thesis
    using assms put_outside x y unfolding io_putchar_nocursor_def
    by (intro same_outside_trans [OF scroll_outside])
      (auto simp: wrap_buffer same_outside_refl on_screen_def VGA_WIDTH_def intro: put_outside [THEN same_outside_trans])
qed

section \<open>The fast path of printing\<close>

lemma hw_cursor_simps [simp]:
  "on_screen (update_hw_cursor c) = on_screen c" "vga_buffer (update_hw_cursor c) = vga_buffer c"
  by (simp_all add: on_screen_def update_hw_cursor_def outb_def Let_def)

lemma fast_path:
  assumes "on_screen c" "32 \<le> ch" "cursor_x c < 79"
  shows "(put_char_at ch (cursor_x c) (cursor_y c) c)\<lparr>cursor_x := cursor_x c + 1\<rparr> = io_putchar_nocursor ch c"
proof -
  have "ch \<noteq> 10 \<and> ch \<noteq> 13 \<and> ch \<noteq> 9 \<and> ch \<noteq> 8" using assms(2) by auto
  moreover have "\<not> 80 \<le> cursor_x c + 1"
    using assms(3) by (simp add: word_less_nat_alt word_le_nat_alt unat_word_ariths)
  moreover have "\<not> 25 \<le> cursor_y c" using assms(1) by (auto simp: on_screen_def)
  ultimately show ?thesis
    by (simp add: io_putchar_nocursor_def wrap_column_def scroll_def VGA_WIDTH_def VGA_HEIGHT_def)
qed

lemma print_loop_eq: "on_screen c \<Longrightarrow> print_loop s c = fold io_putchar_nocursor s c"
  by (induction s arbitrary: c) (simp_all add: VGA_WIDTH_def fast_path putchar_on_screen)

lemma fold_safe:
  "on_screen c \<Longrightarrow> on_screen (fold io_putchar_nocursor s c) \<and> same_outside (vga_buffer (fold io_putchar_nocursor s c)) (vga_buffer c)"
proof (induction s arbitrary: c)
  case (Cons a s)
  then show ?case using Cons.IH [OF putchar_on_screen] putchar_outside same_outside_trans by fastforce
qed (simp add: same_outside_refl)

text \<open>C24. The buffered \<open>io_print\<close> with its fast path for printable characters leaves the console in the
  same state as printing the string character by character through \<open>io_putchar_nocursor\<close> and moving
  the hardware cursor once, which is what \<open>io_print_n\<close> does.\<close>

theorem io_print_equiv:
  assumes "on_screen c"
  shows "io_print (Some s) c = io_print_n (Some s) c"
  using assms by (simp add: io_print_def io_print_n_def print_loop_eq)

section \<open>Reachable consoles\<close>

inductive console_reach :: "(u32 \<Rightarrow> u16) \<Rightarrow> console \<Rightarrow> bool" for v where
  do_init: "vga_buffer c = v \<Longrightarrow> console_reach v (io_init a b c)"
| do_clear: "console_reach v c \<Longrightarrow> console_reach v (vga_clear c)"
| do_putchar: "console_reach v c \<Longrightarrow> console_reach v (io_putchar ch c)"
| do_print: "console_reach v c \<Longrightarrow> console_reach v (io_print s c)"
| do_print_n: "console_reach v c \<Longrightarrow> console_reach v (io_print_n s c)"
| do_println: "console_reach v c \<Longrightarrow> console_reach v (io_println s c)"

definition console_safe :: "(u32 \<Rightarrow> u16) \<Rightarrow> console \<Rightarrow> bool" where
  "console_safe v c \<longleftrightarrow> on_screen c \<and> same_outside (vga_buffer c) v"

lemma clear_safe: "same_outside (vga_buffer c) v \<Longrightarrow> console_safe v (clear_screen c)"
  by (auto simp: console_safe_def clear_screen_def on_screen_def same_outside_def fill_cells_at VGA_WIDTH_def VGA_HEIGHT_def
      word_le_nat_alt)

lemma safe_hw [simp]: "console_safe v (update_hw_cursor c) = console_safe v c"
  by (simp add: console_safe_def)

lemma putchar_safe: "console_safe v c \<Longrightarrow> console_safe v (io_putchar ch c)"
  by (auto simp: io_putchar_def console_safe_def putchar_on_screen intro: same_outside_trans putchar_outside)

lemma print_n_safe: "console_safe v c \<Longrightarrow> console_safe v (io_print_n s c)"
  using fold_safe by (auto simp: io_print_n_def console_safe_def intro: same_outside_trans split: option.split)

lemma print_safe: "console_safe v c \<Longrightarrow> console_safe v (io_print s c)"
  using print_n_safe [of v c s] by (cases s) (simp_all add: io_print_def io_print_n_def print_loop_eq console_safe_def)

text \<open>C23. Whatever is printed after \<open>io_init\<close>, control characters, tabs, backspaces and scrolling
  included, the cursor stays within the 80 by 25 cells of the screen and no cell of memory behind the
  screen is ever written.\<close>

theorem console_stays_on_screen:
  assumes "console_reach v c"
  shows "cursor_x c < 80 \<and> cursor_y c < 25 \<and> (\<forall>i\<ge>2000. vga_buffer c i = v i)"
proof -
  have "console_safe v c"
    using assms
  proof induction
    case (do_init c a b)
    have "console_safe v (clear_screen (set_color 7 0 c))"
      using do_init by (intro clear_safe) (simp add: set_color_def same_outside_refl)
    then show ?case by (simp add: io_init_def outb_def console_safe_def on_screen_def Let_def)
  next
    case (do_clear c)
    then show ?case by (simp add: vga_clear_def clear_safe console_safe_def [of v c])
  qed (simp_all add: io_println_def print_safe print_n_safe putchar_safe)
  then show ?thesis by (simp add: console_safe_def on_screen_def same_outside_def)
qed

definition demo_console :: console where
  "demo_console = io_init 0 0 \<lparr>vga_buffer = \<lambda>_. 0, cursor_x = 0, cursor_y = 0, color = 0, port_trace = []\<rparr>"

lemma demo_console_reach: "console_reach (\<lambda>_. 0) demo_console"
  unfolding demo_console_def by (rule do_init) simp

theorem io_print_equiv_witness: "io_print (Some [104, 105, 10, 9, 8]) demo_console = io_print_n (Some [104, 105, 10, 9, 8]) demo_console"
  by (rule io_print_equiv)
    (simp add: demo_console_def io_init_def outb_def clear_screen_def set_color_def on_screen_def Let_def)

theorem console_stays_on_screen_witness:
  "cursor_y (io_putchar 8 (io_print (Some (replicate 3000 97)) demo_console)) < 25 \<and>
   vga_buffer (io_putchar 8 (io_print (Some (replicate 3000 97)) demo_console)) 2000 = 0"
  using console_stays_on_screen [OF do_putchar [OF do_print [OF demo_console_reach]]] by simp

section \<open>What the keyboard can give\<close>

text \<open>For every status, scan code and keyboard state, \<open>io_getchar\<close> returns 0, one of the four cursor
  keys, backspace, tab, newline or a printable character: no control character can be typed.\<close>

lemma getchar_range:
  "fst (io_getchar status scancode k) \<in> {0, KEY_UP, KEY_DOWN, KEY_LEFT, KEY_RIGHT, 8, 9, 10} \<union> {32..126}"
proof -
  have "keymap sh caps code \<in> {0, 8, 9, 10} \<union> {32..126}" for sh caps code
    unfolding keymap_def Let_def by simp
  then show ?thesis by (auto simp: io_getchar_def Let_def)
qed

end
