(* ===== verification/Editor.thy ===== *)
theory Editor
  imports Vfs Console
begin

text \<open>
  The text editor of \<open>src/editor.c\<close>, on top of the console and the virtual file system.
  \<^item> The record \<open>editor_state\<close> is the struct of that name: 256 line buffers of 256 bytes, the cursor,
    the scroll position and the flags. The int fields never become negative, so they are naturals and
    the guards against negative values are vacuous.
  \<^item> The text of a line buffer is what \<open>ed_strlen\<close> sees, the bytes before the first NUL (\<open>line_text\<close>).
  \<^item> \<open>editor_run\<close> is a fold of \<open>editor_key\<close>, one pass of its loop, over the keys that \<open>io_getchar\<close>
    returns; \<open>Running True\<close> is the state in which it waits for the second Ctrl+Q.
  \<^item> The buffers that \<open>editor_load\<close> and \<open>editor_save\<close> have on the stack are at an address argument.
  The lemmas show that the buffers stay NUL-terminated with the cursor inside the text, that editing
  acts on the text as on a string with a cursor, that loading a saved text gives it back, and that the
  loop can neither save nor return with the keys the keyboard has.
\<close>

section \<open>State\<close>

record editor_state =
  lines :: "u8 list list"
  line_count :: nat
  cur_x :: nat
  cur_y :: nat
  scroll_y :: nat
  scroll_x :: nat
  filename :: "u8 list"
  modified :: bool
  show_line_numbers :: bool

definition EDITOR_MAX_LINES :: nat where "EDITOR_MAX_LINES = 256"
definition EDITOR_MAX_COLS :: nat where "EDITOR_MAX_COLS = 256"
definition EDITOR_MAX_FILE :: nat where "EDITOR_MAX_FILE = 4096"
definition EDITOR_VIEW_ROWS :: nat where "EDITOR_VIEW_ROWS = 20"
definition EDITOR_VIEW_COLS :: nat where "EDITOR_VIEW_COLS = 76"
definition CTRL_S :: u8 where "CTRL_S = 0x13"
definition CTRL_Q :: u8 where "CTRL_Q = 0x11"

definition line_text :: "u8 list \<Rightarrow> u8 list" where
  "line_text b = takeWhile (\<lambda>c. c \<noteq> 0) b"

definition ed_strlen :: "u8 list \<Rightarrow> nat" where
  "ed_strlen b = length (line_text b)"

definition ed_strcpy :: "u8 list \<Rightarrow> u8 list \<Rightarrow> u8 list" where
  "ed_strcpy d s = line_text s @ [0] @ drop (ed_strlen s + 1) d"

definition editor_init :: "u8 list option \<Rightarrow> editor_state" where
  "editor_init name =
     \<lparr>lines = replicate EDITOR_MAX_LINES (replicate EDITOR_MAX_COLS 0), line_count = 1, cur_x = 0, cur_y = 0,
      scroll_y = 0, scroll_x = 0, filename = (case name of None \<Rightarrow> [] | Some s \<Rightarrow> take 255 s),
      modified = False, show_line_numbers = True\<rparr>"

section \<open>Loading and saving\<close>

definition set_byte :: "u8 list list \<Rightarrow> nat \<Rightarrow> nat \<Rightarrow> u8 \<Rightarrow> u8 list list" where
  "set_byte ls line col c = ls[line := (ls ! line)[col := c]]"

fun load_loop :: "u8 list \<Rightarrow> u8 list list \<Rightarrow> nat \<Rightarrow> nat \<Rightarrow> u8 list list \<times> nat \<times> nat" where
  "load_loop [] ls line col = (ls, line, col)"
| "load_loop (c # cs) ls line col =
     (if c = 13 then load_loop cs ls line col
      else if c = 10
      then let ls = set_byte ls line col 0
           in if EDITOR_MAX_LINES \<le> line + 1 then (ls, line + 1, 0) else load_loop cs ls (line + 1) 0
      else if col < EDITOR_MAX_COLS - 1 then load_loop cs (set_byte ls line col c) line (col + 1)
      else load_loop cs ls line col)"

definition load_text :: "u8 list \<Rightarrow> editor_state \<Rightarrow> editor_state" where
  "load_text cs ed =
     (let (ls, line, col) = load_loop cs (lines ed) 0 0;
          (ls, count) =
            (if cs = []
             then if line = 0 \<and> col = 0 then (set_byte ls 0 0 0, 1) else (set_byte ls line col 0, line + 1)
             else let count = (if (0 < col \<or> line = 0) \<and> line < EDITOR_MAX_LINES then line + 1 else 0)
                  in if count = 0 then (set_byte ls line col 0, line + 1) else (ls, count));
          (ls, count) = (if count = 0 then (set_byte ls 0 0 0, 1) else (ls, count));
          count = (if EDITOR_MAX_LINES < count then EDITOR_MAX_LINES else count)
      in ed\<lparr>lines := ls, line_count := count, cur_x := 0, cur_y := 0, scroll_y := 0, modified := False\<rparr>)"

definition editor_load :: "u32 \<Rightarrow> u8 list option \<Rightarrow> editor_state \<Rightarrow> vfs \<Rightarrow> (editor_state \<times> vfs) option" where
  "editor_load buf path ed s =
     (case vfs_open path 1 s of
        None \<Rightarrow> None
      | Some (fd, s) \<Rightarrow>
          if fd < 0 then Some (ed\<lparr>line_count := 1, lines := set_byte (lines ed) 0 0 0\<rparr>, s)
          else let (n, s) = vfs_read fd buf (of_nat (EDITOR_MAX_FILE - 1)) s;
                   s = snd (vfs_close fd s);
                   n = (if n < 0 then 0 else n);
                   n = (if int (EDITOR_MAX_FILE - 1) < n then int (EDITOR_MAX_FILE - 1) else n)
               in Some (load_text (map (\<lambda>i. disk s (buf + of_nat i)) [0..<nat n]) ed, s))"

fun save_loop :: "u8 list list \<Rightarrow> u8 list \<Rightarrow> u8 list" where
  "save_loop [] out = out"
| "save_loop (t # ts) out =
     (if EDITOR_MAX_FILE \<le> length out + length t + 1 then out
      else let out = out @ t
      in if ts = [] then out
      else if EDITOR_MAX_FILE \<le> length out + 1 then out
      else save_loop ts (out @ [10]))"

definition editor_text :: "editor_state \<Rightarrow> u8 list list" where
  "editor_text ed = map line_text (take (line_count ed) (lines ed))"

fun store_bytes :: "mem \<Rightarrow> u32 \<Rightarrow> u8 list \<Rightarrow> mem" where
  "store_bytes m a [] = m"
| "store_bytes m a (c # cs) = store_bytes (m(a := c)) (a + 1) cs"

definition editor_save :: "u32 \<Rightarrow> editor_state \<Rightarrow> vfs \<Rightarrow> console \<Rightarrow> (int \<times> editor_state \<times> vfs \<times> console) option" where
  "editor_save buf ed s con =
     (if filename ed = [] then Some (- 1, ed, s, con)
      else let out = save_loop (editor_text ed) [];
               s = s\<lparr>disk := store_bytes (disk s) buf out\<rparr>
      in case vfs_open (Some (filename ed)) 3 s of
           None \<Rightarrow> None
         | Some (fd, s) \<Rightarrow>
             if fd < 0
             then Some (- 1, ed, s, io_println (Some (filename ed)) (io_print (Some (ascii ''editor: cannot open '')) con))
             else (case vfs_lseek fd 0 0 s of
                     None \<Rightarrow> None
                   | Some (r, s) \<Rightarrow>
                       let (w, s) = vfs_write fd buf (of_nat (length out)) s;
                           s = snd (vfs_close fd s)
                       in if w < 0 then Some (- 1, ed, s, con) else Some (0, ed\<lparr>modified := False\<rparr>, s, con)))"

section \<open>Drawing\<close>

fun digits_rev :: "nat \<Rightarrow> u8 list" where
  "digits_rev n = (if n = 0 then [] else of_nat (48 + n mod 10) # digits_rev (n div 10))"

declare digits_rev.simps [simp del]

definition decimal :: "nat \<Rightarrow> u8 list" where
  "decimal n = (if n = 0 then [48] else rev (digits_rev n))"

definition draw_line :: "editor_state \<Rightarrow> nat \<Rightarrow> console \<Rightarrow> console" where
  "draw_line ed i con =
     (let con = (if show_line_numbers ed
                 then let ln = i + 1;
                          con = (if ln < 10 then io_print (Some (ascii ''  '')) con
                                 else if ln < 100 then io_print (Some (ascii '' '')) con else con)
                      in io_print (Some (ascii ''| '')) (io_print (Some (decimal ln)) con)
                 else con);
          line = line_text (lines ed ! i);
          sx = (if length line < scroll_x ed then length line else scroll_x ed)
      in io_putchar 10 (fold io_putchar (take EDITOR_VIEW_COLS (drop sx line)) con))"

definition editor_draw :: "editor_state \<Rightarrow> console \<Rightarrow> console" where
  "editor_draw ed con =
     (let con = vga_clear con;
          con = io_println (Some (ascii ''=== Tinx Editor (Ctrl+S save, Ctrl+Q quit) ==='')) con;
          con = io_print (Some (ascii ''File: '')) con;
          con = io_print (Some (if filename ed \<noteq> [] then filename ed else ascii ''[No Name]'')) con;
          con = (if modified ed then io_print (Some (ascii '' *'')) con else con);
          con = fold io_putchar (decimal (cur_y ed + 1)) (io_print (Some (ascii ''  Line '')) con);
          con = fold io_putchar (decimal (line_count ed)) (io_print (Some (ascii ''/'')) con);
          con = io_println (Some []) con;
          con = io_println (Some (ascii ''----------------------------------------'')) con;
          start = scroll_y ed;
          stop = (if line_count ed < start + EDITOR_VIEW_ROWS then line_count ed else start + EDITOR_VIEW_ROWS);
          con = fold (draw_line ed) [start..<stop] con;
          con = fold (\<lambda>_. io_putchar 10) [stop - start..<EDITOR_VIEW_ROWS] con;
          con = io_println (Some (ascii ''----------------------------------------'')) con;
          con = fold io_putchar (decimal (cur_y ed + 1)) (io_print (Some (ascii ''Row '')) con);
          con = fold io_putchar (decimal (cur_x ed + 1)) (io_print (Some (ascii '' Col '')) con);
          con = (if modified ed then io_print (Some (ascii '' [modified]'')) con else con)
      in io_println (Some []) con)"

definition editor_ensure_scroll :: "editor_state \<Rightarrow> editor_state" where
  "editor_ensure_scroll ed =
     (let ed = (if cur_y ed < scroll_y ed then ed\<lparr>scroll_y := cur_y ed\<rparr> else ed);
          ed = (if scroll_y ed + EDITOR_VIEW_ROWS \<le> cur_y ed then ed\<lparr>scroll_y := cur_y ed - EDITOR_VIEW_ROWS + 1\<rparr> else ed);
          ed = (if cur_x ed < scroll_x ed then ed\<lparr>scroll_x := cur_x ed\<rparr> else ed)
      in if scroll_x ed + EDITOR_VIEW_COLS \<le> cur_x ed then ed\<lparr>scroll_x := cur_x ed - EDITOR_VIEW_COLS + 1\<rparr> else ed)"

section \<open>Editing\<close>

fun shift_right :: "u8 list \<Rightarrow> nat \<Rightarrow> nat \<Rightarrow> u8 list" where
  "shift_right line i x =
     (if i < x then line
      else let line = line[i + 1 := line ! i]
      in if i = x then line else shift_right line (i - 1) x)"

declare shift_right.simps [simp del]

definition editor_insert_char :: "u8 \<Rightarrow> editor_state \<Rightarrow> editor_state" where
  "editor_insert_char c ed =
     (if line_count ed \<le> cur_y ed then ed
      else let line = lines ed ! cur_y ed; len = ed_strlen line
      in if EDITOR_MAX_COLS - 1 \<le> len then ed
      else let line = (shift_right line len (cur_x ed))[cur_x ed := c]
      in ed\<lparr>lines := (lines ed)[cur_y ed := line], cur_x := cur_x ed + 1, modified := True\<rparr>)"

definition shift_left :: "u8 list \<Rightarrow> nat \<Rightarrow> nat \<Rightarrow> u8 list" where
  "shift_left line x len = fold (\<lambda>i l. l[i := l ! (i + 1)]) [x..<len] line"

definition append_line :: "u8 list \<Rightarrow> u8 list \<Rightarrow> nat \<Rightarrow> nat \<Rightarrow> u8 list" where
  "append_line prev cur plen clen = fold (\<lambda>i l. l[plen + i := cur ! i]) [0..<clen + 1] prev"

definition editor_backspace :: "editor_state \<Rightarrow> editor_state" where
  "editor_backspace ed =
     (if 0 < cur_x ed
      then let line = lines ed ! cur_y ed; len = ed_strlen line
           in ed\<lparr>lines := (lines ed)[cur_y ed := shift_left line (cur_x ed - 1) len], cur_x := cur_x ed - 1, modified := True\<rparr>
      else if 0 < cur_y ed
      then let prev = lines ed ! (cur_y ed - 1); cur = lines ed ! cur_y ed;
               plen = ed_strlen prev; clen = ed_strlen cur
           in if plen + clen < EDITOR_MAX_COLS - 1
              then let ls = (lines ed)[cur_y ed - 1 := append_line prev cur plen clen];
                       ls = fold (\<lambda>i ls. ls[i := ed_strcpy (ls ! i) (ls ! (i + 1))]) [cur_y ed..<line_count ed - 1] ls
                   in ed\<lparr>lines := ls, line_count := line_count ed - 1, cur_y := cur_y ed - 1, cur_x := plen, modified := True\<rparr>
              else ed
      else ed)"

definition editor_newline :: "editor_state \<Rightarrow> editor_state" where
  "editor_newline ed =
     (if EDITOR_MAX_LINES - 1 \<le> line_count ed then ed
      else let cur = lines ed ! cur_y ed; len = ed_strlen cur;
               (new_line, cur) = (if cur_x ed < len then (drop (cur_x ed) (line_text cur), cur[cur_x ed := 0]) else ([], cur));
               ls = (lines ed)[cur_y ed := cur];
               ls = fold (\<lambda>i ls. ls[i := ed_strcpy (ls ! i) (ls ! (i - 1))]) (rev [cur_y ed + 2..<line_count ed + 1]) ls;
               ls = ls[cur_y ed + 1 := ed_strcpy (ls ! (cur_y ed + 1)) (new_line @ [0])]
      in ed\<lparr>lines := ls, line_count := line_count ed + 1, cur_y := cur_y ed + 1, cur_x := 0, modified := True\<rparr>)"

section \<open>The key loop\<close>

definition clamp_x :: "editor_state \<Rightarrow> editor_state" where
  "clamp_x ed = (let len = ed_strlen (lines ed ! cur_y ed) in if len < cur_x ed then ed\<lparr>cur_x := len\<rparr> else ed)"

definition key_up :: "editor_state \<Rightarrow> editor_state" where
  "key_up ed = (if 0 < cur_y ed then editor_ensure_scroll (clamp_x (ed\<lparr>cur_y := cur_y ed - 1\<rparr>)) else ed)"

definition key_down :: "editor_state \<Rightarrow> editor_state" where
  "key_down ed = (if cur_y ed < line_count ed - 1 then editor_ensure_scroll (clamp_x (ed\<lparr>cur_y := cur_y ed + 1\<rparr>)) else ed)"

definition key_left :: "editor_state \<Rightarrow> editor_state" where
  "key_left ed =
     editor_ensure_scroll
      (if 0 < cur_x ed then ed\<lparr>cur_x := cur_x ed - 1\<rparr>
       else if 0 < cur_y ed then ed\<lparr>cur_y := cur_y ed - 1, cur_x := ed_strlen (lines ed ! (cur_y ed - 1))\<rparr>
       else ed)"

definition key_right :: "editor_state \<Rightarrow> editor_state" where
  "key_right ed =
     editor_ensure_scroll
      (if cur_x ed < ed_strlen (lines ed ! cur_y ed) then ed\<lparr>cur_x := cur_x ed + 1\<rparr>
       else if cur_y ed < line_count ed - 1 then ed\<lparr>cur_y := cur_y ed + 1, cur_x := 0\<rparr>
       else ed)"

definition edit_key :: "u8 \<Rightarrow> editor_state \<Rightarrow> editor_state" where
  "edit_key c ed =
     (if c = KEY_UP then key_up ed
      else if c = KEY_DOWN then key_down ed
      else if c = KEY_LEFT then key_left ed
      else if c = KEY_RIGHT then key_right ed
      else if c = 8 then editor_ensure_scroll (editor_backspace ed)
      else if c = 10 \<or> c = 13 then editor_ensure_scroll (editor_newline ed)
      else if 32 \<le> c \<and> c < 127 then editor_ensure_scroll (editor_insert_char c ed)
      else if c = 9 then editor_ensure_scroll ((editor_insert_char 32 ^^ 4) ed)
      else ed)"

datatype editor_outcome =
    Running bool editor_state vfs console
  | Returned editor_state vfs console
  | Crashed

definition editor_key :: "u32 \<Rightarrow> u8 \<Rightarrow> editor_outcome \<Rightarrow> editor_outcome" where
  "editor_key buf c w =
     (case w of
        Running False ed s con \<Rightarrow>
          if c = 0 then w
          else if c = CTRL_S then
            (case editor_save buf ed s con of
               None \<Rightarrow> Crashed
             | Some (r, ed, s, con) \<Rightarrow>
                 Running False ed s (editor_draw ed (io_println (Some (ascii (if r = 0 then ''Saved.'' else ''Save failed.''))) con)))
          else if c = CTRL_Q then
            (if modified ed
             then Running True ed s (io_println (Some (ascii
               ''Unsaved changes! Press Ctrl+Q again to quit without save, or Ctrl+S to save.'')) con)
             else Returned ed s (vga_clear con))
          else let ed' = edit_key c ed
               in Running False ed' s
                    (if c \<in> {KEY_LEFT, KEY_RIGHT, 8, 10, 13, 9} \<or> 32 \<le> c \<and> c < 127 \<or>
                        c = KEY_UP \<and> 0 < cur_y ed \<or> c = KEY_DOWN \<and> cur_y ed < line_count ed - 1
                     then editor_draw ed' con else con)
      | Running True ed s con \<Rightarrow>
          if c = 0 then w
          else if c = CTRL_Q then Returned ed s (vga_clear con)
          else if c = CTRL_S then
            (case editor_save buf ed s con of
               None \<Rightarrow> Crashed
             | Some (r, ed, s, con) \<Rightarrow> Returned ed s (vga_clear con))
          else Running False ed s (editor_draw ed con)
      | _ \<Rightarrow> w)"

definition editor_run :: "u32 \<Rightarrow> u8 list \<Rightarrow> editor_state \<Rightarrow> vfs \<Rightarrow> console \<Rightarrow> editor_outcome" where
  "editor_run buf keys ed s con = fold (editor_key buf) keys (Running False ed s (editor_draw ed con))"

definition editor_open :: "u32 \<Rightarrow> u8 list \<Rightarrow> u8 list option \<Rightarrow> vfs \<Rightarrow> console \<Rightarrow> editor_outcome" where
  "editor_open buf keys path s con =
     (let ed = editor_init path
      in if path \<noteq> None \<and> path \<noteq> Some []
         then (case editor_load buf path ed s of
                 None \<Rightarrow> Crashed
               | Some (ed, s) \<Rightarrow> editor_run buf keys ed s con)
         else editor_run buf keys ed s con)"

section \<open>Shifting lists by one\<close>

lemma fold_shift_left:
  "x \<le> n \<Longrightarrow> n < length l \<Longrightarrow>
    fold (\<lambda>i l. l[i := l ! (i + 1)]) [x..<n] l = take x l @ take (n - x) (drop (x + 1) l) @ drop n l"
proof (induction "n - x" arbitrary: x l)
  case (Suc k)
  let ?l = "l[x := l ! (x + 1)]"
  have "fold (\<lambda>i l. l[i := l ! (i + 1)]) [x..<n] l = fold (\<lambda>i l. l[i := l ! (i + 1)]) [x + 1..<n] ?l"
    using Suc by (simp add: upt_conv_Cons)
  also have "\<dots> = take (x + 1) ?l @ take (n - (x + 1)) (drop (x + 2) ?l) @ drop n ?l"
    using Suc(1) [of "x + 1" ?l] Suc(2-4) by simp
  also have "\<dots> = take x l @ take (n - x) (drop (x + 1) l) @ drop n l"
  proof -
    have "take (n - x) (drop (x + 1) l) = l ! (x + 1) # take (n - (x + 1)) (drop (x + 2) l)"
      using Suc(2-4) by (simp add: Cons_nth_drop_Suc [symmetric] take_Cons')
    moreover have "take (x + 1) ?l = take x l @ [l ! (x + 1)]" using Suc(2-4) by (simp add: take_Suc_conv_app_nth)
    ultimately show ?thesis using Suc(2-4) by simp
  qed
  finally show ?case .
qed simp

lemma fold_shift_right:
  "x \<le> n \<Longrightarrow> n < length l \<Longrightarrow>
    fold (\<lambda>i l. l[i := l ! (i - 1)]) (rev [x + 1..<n + 1]) l = take (x + 1) l @ drop x (take n l) @ drop (n + 1) l"
proof (induction "n - x" arbitrary: n l)
  case (Suc k)
  let ?l = "l[n := l ! (n - 1)]"
  have "fold (\<lambda>i l. l[i := l ! (i - 1)]) (rev [x + 1..<n + 1]) l = fold (\<lambda>i l. l[i := l ! (i - 1)]) (rev [x + 1..<n]) ?l"
  proof -
    have "x + 1 \<le> n" using Suc(2) by simp
    then show ?thesis by simp
  qed
  also have "\<dots> = take (x + 1) ?l @ drop x (take (n - 1) ?l) @ drop n ?l"
    using Suc(1) [of "n - 1" ?l] Suc(2-4) by simp
  also have "\<dots> = take (x + 1) l @ drop x (take n l) @ drop (n + 1) l"
  proof -
    have "drop n ?l = l ! (n - 1) # drop (n + 1) l" using Suc(2-4) by (simp add: Cons_nth_drop_Suc [symmetric])
    moreover have "drop x (take n l) = drop x (take (n - 1) l) @ [l ! (n - 1)]"
      using Suc(2-4) take_Suc_conv_app_nth [of "n - 1" l] by simp
    ultimately show ?thesis using Suc(2-4) by simp
  qed
  finally show ?case .
qed (simp add: Cons_nth_drop_Suc)

lemma shift_right_fold: "x \<le> i \<Longrightarrow> shift_right l i x = fold (\<lambda>i l. l[i := l ! (i - 1)]) (rev [x + 1..<i + 2]) l"
proof (induction l i x rule: shift_right.induct)
  case (1 l i x)
  show ?case
  proof (cases "i = x")
    case False
    then have "shift_right l i x = shift_right (l[i + 1 := l ! i]) (i - 1) x"
      using 1(2) by (subst shift_right.simps) simp
    also have "\<dots> = fold (\<lambda>i l. l[i := l ! (i - 1)]) (rev [x + 1..<i + 1]) (l[i + 1 := l ! i])"
      using 1 False by simp
    also have "\<dots> = fold (\<lambda>i l. l[i := l ! (i - 1)]) (rev [x + 1..<i + 2]) l" using 1(2) by simp
    finally show ?thesis .
  qed (simp add: shift_right.simps)
qed

section \<open>Line buffers\<close>

definition buf_ok :: "u8 list \<Rightarrow> bool" where
  "buf_ok b \<longleftrightarrow> length b = 256 \<and> 0 \<in> set b"

lemma line_text_append: "0 \<notin> set t \<Longrightarrow> line_text (t @ 0 # r) = t"
  unfolding line_text_def by (subst takeWhile_append2) auto

lemma buf_cases:
  assumes "buf_ok b"
  obtains t r where "b = t @ 0 # r" "0 \<notin> set t" "length t + length r = 255" "line_text b = t" "ed_strlen b = length t"
proof -
  have "dropWhile (\<lambda>c. c \<noteq> 0) b \<noteq> []" using assms by (auto simp: buf_ok_def dropWhile_eq_Nil_conv)
  then obtain c r where "dropWhile (\<lambda>c. c \<noteq> 0) b = c # r" by (cases "dropWhile (\<lambda>c. c \<noteq> 0) b") auto
  then obtain t where t: "t = takeWhile (\<lambda>c. c \<noteq> 0) b" "b = t @ 0 # r" unfolding dropWhile_eq_Cons_conv by blast
  have "0 \<notin> set t" unfolding t(1) by (auto dest: set_takeWhileD)
  moreover have "length t + length r = 255" using assms unfolding t(2) by (simp add: buf_ok_def)
  ultimately show thesis using that [OF t(2)] by (simp add: t(2) ed_strlen_def line_text_append)
qed

lemma bufI: "0 \<notin> set t \<Longrightarrow> length t + length r = 255 \<Longrightarrow> buf_ok (t @ 0 # r) \<and> line_text (t @ 0 # r) = t"
  by (simp add: buf_ok_def line_text_append)

lemma buf_len: "buf_ok b \<Longrightarrow> ed_strlen b \<le> 255"
  by (erule buf_cases) simp

lemma text_nonzero: "0 \<notin> set (line_text b)"
  by (auto simp: line_text_def dest: set_takeWhileD)

lemma shift_left_buf:
  assumes "buf_ok b" "x < ed_strlen b"
  shows "buf_ok (shift_left b x (ed_strlen b)) \<and>
    line_text (shift_left b x (ed_strlen b)) = take x (line_text b) @ drop (x + 1) (line_text b)"
proof -
  obtain t r where b: "b = t @ 0 # r" "0 \<notin> set t" "length t + length r = 255" and t: "line_text b = t" "ed_strlen b = length t"
    by (rule buf_cases [OF assms(1)])
  have "shift_left b x (length t) = take x b @ take (length t - x) (drop (x + 1) b) @ drop (length t) b"
    unfolding shift_left_def using assms(2) b t by (intro fold_shift_left) simp_all
  also have "\<dots> = (take x t @ drop (x + 1) t) @ 0 # 0 # r"
  proof -
    have "x < length t" using assms(2) t(2) by simp
    then have "length t - (x + (length t - Suc x)) = 1" "x - length t = 0" "Suc x - length t = 0" by simp_all
    then show ?thesis by (simp add: b(1))
  qed
  finally show ?thesis
    using bufI [of "take x t @ drop (x + 1) t" "0 # r"] assms(2) b t by (auto dest: in_set_takeD in_set_dropD)
qed

lemma insert_buf:
  assumes "buf_ok b" "x \<le> ed_strlen b" "ed_strlen b < 255" "c \<noteq> 0"
  shows "buf_ok ((shift_right b (ed_strlen b) x)[x := c]) \<and>
    line_text ((shift_right b (ed_strlen b) x)[x := c]) = take x (line_text b) @ c # drop x (line_text b)"
proof -
  obtain t r where b: "b = t @ 0 # r" "0 \<notin> set t" "length t + length r = 255" and t: "line_text b = t" "ed_strlen b = length t"
    by (rule buf_cases [OF assms(1)])
  let ?n = "length t"
  have "shift_right b ?n x = take (x + 1) b @ drop x (take (?n + 1) b) @ drop (?n + 2) b"
    using fold_shift_right [of x "?n + 1" b] assms(2,3) b t by (simp add: shift_right_fold)
  also have "\<dots> = take x t @ (b ! x # drop x t) @ 0 # tl r"
  proof -
    have "x < length b" "take x b = take x t" using assms(2) t(2) b(1) by simp_all
    then have "take (x + 1) b = take x t @ [b ! x]" by (simp add: take_Suc_conv_app_nth)
    moreover have "drop x (take (?n + 1) b) = drop x t @ [0]" using assms(2) t(2) b(1) by simp
    moreover have "drop (?n + 2) b = tl r" using b(1) by (simp add: drop_Suc)
    ultimately show ?thesis by simp
  qed
  finally have "(shift_right b ?n x)[x := c] = (take x t @ c # drop x t) @ 0 # tl r"
    using assms(2) t by (simp add: list_update_append)
  then show ?thesis
    using bufI [of "take x t @ c # drop x t" "tl r"] assms b t by (auto dest: in_set_takeD in_set_dropD)
qed

lemma strcpy_buf:
  assumes "buf_ok d" "0 \<in> set s" "ed_strlen s \<le> 255"
  shows "buf_ok (ed_strcpy d s) \<and> line_text (ed_strcpy d s) = line_text s"
  using bufI [OF text_nonzero, of s "drop (ed_strlen s + 1) d"] assms by (simp add: ed_strcpy_def ed_strlen_def buf_ok_def)

lemma fold_write:
  "p + n \<le> length l \<Longrightarrow> n \<le> length m \<Longrightarrow> fold (\<lambda>i l. l[p + i := m ! i]) [0..<n] l = take p l @ take n m @ drop (p + n) l"
proof (induction n)
  case (Suc n)
  have "drop (p + n) l = l ! (p + n) # drop (p + Suc n) l" using Suc.prems by (simp add: Cons_nth_drop_Suc)
  then show ?case using Suc by (simp add: list_update_append take_Suc_conv_app_nth)
qed simp

lemma append_buf:
  assumes "buf_ok b" "buf_ok b'" "ed_strlen b + ed_strlen b' < 255"
  shows "buf_ok (append_line b b' (ed_strlen b) (ed_strlen b')) \<and>
    line_text (append_line b b' (ed_strlen b) (ed_strlen b')) = line_text b @ line_text b'"
proof -
  obtain t r where b: "b = t @ 0 # r" "0 \<notin> set t" "length t + length r = 255" and t: "line_text b = t" "ed_strlen b = length t"
    by (rule buf_cases [OF assms(1)])
  obtain t' r' where b': "b' = t' @ 0 # r'" "0 \<notin> set t'" "length t' + length r' = 255" and t': "line_text b' = t'" "ed_strlen b' = length t'"
    by (rule buf_cases [OF assms(2)])
  have "append_line b b' (length t) (length t') = take (length t) b @ take (length t' + 1) b' @ drop (length t + (length t' + 1)) b"
    unfolding append_line_def using assms(3) b b' t t' by (intro fold_write) simp_all
  also have "\<dots> = (t @ t') @ 0 # drop (length t') r" by (simp add: b b')
  finally show ?thesis using bufI [of "t @ t'" "drop (length t') r"] assms(3) b b' t t' by simp
qed

lemma truncate_buf:
  assumes "buf_ok b" "x < ed_strlen b"
  shows "buf_ok (b[x := 0]) \<and> line_text (b[x := 0]) = take x (line_text b)"
proof -
  obtain t r where b: "b = t @ 0 # r" "0 \<notin> set t" "length t + length r = 255" and t: "line_text b = t" "ed_strlen b = length t"
    by (rule buf_cases [OF assms(1)])
  have "b[x := 0] = take x t @ 0 # drop (x + 1) t @ 0 # r"
    using assms(2) b t by (simp add: list_update_append upd_conv_take_nth_drop)
  then show ?thesis
    using bufI [of "take x t" "drop (x + 1) t @ 0 # r"] assms(2) b t by (auto dest: in_set_takeD)
qed

section \<open>The text of the editor\<close>

definition ed_ok :: "editor_state \<Rightarrow> bool" where
  "ed_ok ed \<longleftrightarrow> length (lines ed) = 256 \<and> list_all buf_ok (lines ed) \<and> 1 \<le> line_count ed \<and> line_count ed \<le> 256 \<and>
     cur_y ed < line_count ed \<and> cur_x ed \<le> ed_strlen (lines ed ! cur_y ed)"

lemma ed_okD:
  assumes "ed_ok ed"
  shows "length (lines ed) = 256" "\<And>i. i < 256 \<Longrightarrow> buf_ok (lines ed ! i)" "1 \<le> line_count ed" "line_count ed \<le> 256"
    "cur_y ed < line_count ed" "cur_x ed \<le> ed_strlen (lines ed ! cur_y ed)" "cur_y ed < 256" "list_all buf_ok (lines ed)"
  using assms by (auto simp: ed_ok_def list_all_length)

lemma text_nth: "ed_ok ed \<Longrightarrow> i < line_count ed \<Longrightarrow> editor_text ed ! i = line_text (lines ed ! i)"
  by (simp add: editor_text_def ed_ok_def)

lemma text_length: "ed_ok ed \<Longrightarrow> length (editor_text ed) = line_count ed"
  by (simp add: editor_text_def ed_ok_def)

lemma fold_strcpy:
  assumes "list_all buf_ok ls" "\<forall>i\<in>set js. i < length ls \<and> g i < length ls"
  defines "ls' \<equiv> fold (\<lambda>i ls. ls[i := ed_strcpy (ls ! i) (ls ! g i)]) js ls"
  shows "list_all buf_ok ls' \<and> length ls' = length ls \<and> map line_text ls' = fold (\<lambda>i l. l[i := l ! g i]) js (map line_text ls)"
  using assms(1,2) unfolding ls'_def
proof (induction js arbitrary: ls)
  case (Cons j js)
  let ?ls = "ls[j := ed_strcpy (ls ! j) (ls ! g j)]"
  have j: "j < length ls" "g j < length ls" using Cons.prems(2) by simp_all
  then have "buf_ok (ls ! j)" "buf_ok (ls ! g j)" using Cons.prems(1) by (simp_all add: list_all_length)
  then have c: "buf_ok (ed_strcpy (ls ! j) (ls ! g j)) \<and> line_text (ed_strcpy (ls ! j) (ls ! g j)) = line_text (ls ! g j)"
    using buf_len by (intro strcpy_buf) (auto simp: buf_ok_def)
  then have "list_all buf_ok ?ls" using Cons.prems(1) by (simp add: list_all_update)
  from Cons.IH [OF this] Cons.prems(2) c j show ?case by (simp add: map_update)
qed simp

lemma insert_text:
  assumes ok: "ed_ok ed" and l: "ed_strlen (lines ed ! cur_y ed) < 255" and c: "c \<noteq> 0"
  shows "ed_ok (editor_insert_char c ed) \<and> cur_y (editor_insert_char c ed) = cur_y ed \<and> cur_x (editor_insert_char c ed) = cur_x ed + 1 \<and>
    editor_text (editor_insert_char c ed) = (editor_text ed)[cur_y ed := take (cur_x ed) (editor_text ed ! cur_y ed) @ c # drop (cur_x ed) (editor_text ed ! cur_y ed)]"
proof -
  note d = ed_okD [OF ok]
  let ?b = "lines ed ! cur_y ed"
  note i = insert_buf [OF d(2) [OF d(7)] d(6) l c]
  then have "ed_strlen ((shift_right ?b (ed_strlen ?b) (cur_x ed))[cur_x ed := c]) = ed_strlen ?b + 1"
    using d(6) by (simp add: ed_strlen_def)
  then show ?thesis
    using i d l text_nth [OF ok d(5)]
    by (auto simp: editor_insert_char_def EDITOR_MAX_COLS_def Let_def ed_ok_def editor_text_def list_all_update take_update_swap map_update)
qed

lemma insert_full: "255 \<le> ed_strlen (lines ed ! cur_y ed) \<Longrightarrow> editor_insert_char c ed = ed"
  by (simp add: editor_insert_char_def EDITOR_MAX_COLS_def Let_def)

lemma split_line:
  assumes "buf_ok b" "x \<le> ed_strlen b"
  obtains new cur where "(if x < ed_strlen b then (drop x (line_text b), b[x := 0]) else ([], b)) = (new, cur)"
    "new = drop x (line_text b)" "buf_ok cur" "line_text cur = take x (line_text b)"
proof (cases "x < ed_strlen b")
  case True
  then show thesis using that truncate_buf [OF assms(1) True] by simp
next
  case False
  then show thesis using that [of "[]" b] assms by (simp add: ed_strlen_def)
qed

lemma insert_line:
  assumes "y < n" "n < length l"
  shows "take (n + 1) ((fold (\<lambda>i l. l[i := l ! (i - 1)]) (rev [y + 2..<n + 1]) (l[y := a]))[y + 1 := b]) =
    take y l @ [a, b] @ drop (y + 1) (take n l)"
proof -
  let ?l = "l[y := a]"
  have "fold (\<lambda>i l. l[i := l ! (i - 1)]) (rev [y + 2..<n + 1]) ?l = take (y + 2) ?l @ drop (y + 1) (take n ?l) @ drop (n + 1) ?l"
    using fold_shift_right [of "y + 1" n ?l] assms by simp
  moreover have "take (y + 2) ?l = take y l @ [a, l ! (y + 1)]"
    using assms by (simp add: take_Suc_conv_app_nth)
  moreover have "drop (y + 1) (take n ?l) = drop (y + 1) (take n l)" using assms by (simp add: drop_take)
  ultimately have "(fold (\<lambda>i l. l[i := l ! (i - 1)]) (rev [y + 2..<n + 1]) ?l)[y + 1 := b] =
      (take y l @ [a, b] @ drop (y + 1) (take n l)) @ drop (n + 1) ?l"
    using assms by (simp only:) (simp add: list_update_append)
  moreover have "length (take y l @ [a, b] @ drop (y + 1) (take n l)) = n + 1" using assms by simp
  ultimately show ?thesis by (metis append_eq_conv_conj)
qed

lemma newline_text:
  assumes ok: "ed_ok ed" and l: "line_count ed < 255"
  shows "ed_ok (editor_newline ed) \<and> cur_y (editor_newline ed) = cur_y ed + 1 \<and> cur_x (editor_newline ed) = 0 \<and>
    editor_text (editor_newline ed) = take (cur_y ed) (editor_text ed) @
      [take (cur_x ed) (editor_text ed ! cur_y ed), drop (cur_x ed) (editor_text ed ! cur_y ed)] @ drop (cur_y ed + 1) (editor_text ed)"
proof -
  note d = ed_okD [OF ok]
  let ?y = "cur_y ed" and ?n = "line_count ed"
  obtain new cur where s: "(if cur_x ed < ed_strlen (lines ed ! ?y) then (drop (cur_x ed) (line_text (lines ed ! ?y)), (lines ed ! ?y)[cur_x ed := 0])
      else ([], lines ed ! ?y)) = (new, cur)"
    and new: "new = drop (cur_x ed) (line_text (lines ed ! ?y))" and cur: "buf_ok cur" "line_text cur = take (cur_x ed) (line_text (lines ed ! ?y))"
    by (rule split_line [OF d(2) [OF d(7)] d(6)])
  let ?l0 = "(lines ed)[?y := cur]"
  define js where "js = rev [?y + 2..<?n + 1]"
  let ?l1 = "fold (\<lambda>i ls. ls[i := ed_strcpy (ls ! i) (ls ! (i - 1))]) js ?l0"
  let ?l2 = "?l1[?y + 1 := ed_strcpy (?l1 ! (?y + 1)) (new @ [0])]"
  have l1: "list_all buf_ok ?l1 \<and> length ?l1 = 256 \<and>
      map line_text ?l1 = fold (\<lambda>i l. l[i := l ! (i - 1)]) js ((map line_text (lines ed))[?y := line_text cur])"
  proof -
    have "\<forall>i\<in>set js. i < length ?l0 \<and> i - 1 < length ?l0" using d(1) l by (auto simp: js_def)
    from fold_strcpy [of ?l0 js "\<lambda>i. i - 1", OF _ this] show ?thesis
      using d cur(1) by (simp add: list_all_update map_update)
  qed
  have n0: "0 \<notin> set new" using text_nonzero by (auto simp: new dest: in_set_dropD)
  have "length new \<le> 255" using buf_len [OF d(2) [OF d(7)]] by (simp add: new ed_strlen_def)
  then have c: "buf_ok (ed_strcpy (?l1 ! (?y + 1)) (new @ [0])) \<and> line_text (ed_strcpy (?l1 ! (?y + 1)) (new @ [0])) = new"
    using strcpy_buf [of "?l1 ! (?y + 1)" "new @ [0]"] line_text_append [OF n0, of "[]"] l1 d l
    by (simp add: list_all_length ed_strlen_def)
  have e: "editor_newline ed = ed\<lparr>lines := ?l2, line_count := ?n + 1, cur_y := ?y + 1, cur_x := 0, modified := True\<rparr>"
    using l s by (simp add: editor_newline_def EDITOR_MAX_LINES_def Let_def js_def del: upt_Suc)
  have "map line_text (take (?n + 1) ?l2) = take ?y (map line_text (lines ed)) @ [line_text cur, new] @ drop (?y + 1) (take ?n (map line_text (lines ed)))"
    using insert_line [of ?y ?n "map line_text (lines ed)" "line_text cur" new, folded js_def] d l l1 c
    by (simp add: take_map [symmetric] map_update)
  then have "editor_text (editor_newline ed) = take ?y (editor_text ed) @ [take (cur_x ed) (editor_text ed ! ?y), drop (cur_x ed) (editor_text ed ! ?y)] @
      drop (?y + 1) (editor_text ed)"
    using text_nth [OF ok d(5)] d(5) by (simp add: e editor_text_def cur(2) new take_map)
  moreover have "ed_ok (editor_newline ed)"
    using l1 c d l by (simp add: e ed_ok_def list_all_update)
  ultimately show ?thesis by (simp add: e)
qed

lemma newline_full: "255 \<le> line_count ed \<Longrightarrow> editor_newline ed = ed"
  by (simp add: editor_newline_def EDITOR_MAX_LINES_def)

lemma delete_text:
  assumes ok: "ed_ok ed" and x: "0 < cur_x ed"
  shows "ed_ok (editor_backspace ed) \<and> cur_y (editor_backspace ed) = cur_y ed \<and> cur_x (editor_backspace ed) = cur_x ed - 1 \<and>
    editor_text (editor_backspace ed) = (editor_text ed)[cur_y ed :=
      take (cur_x ed - 1) (editor_text ed ! cur_y ed) @ drop (cur_x ed) (editor_text ed ! cur_y ed)]"
proof -
  note d = ed_okD [OF ok]
  let ?b = "lines ed ! cur_y ed"
  have "cur_x ed - 1 < ed_strlen ?b" using d(6) x by simp
  note i = shift_left_buf [OF d(2) [OF d(7)] this]
  then have "ed_strlen (shift_left ?b (cur_x ed - 1) (ed_strlen ?b)) = ed_strlen ?b - 1"
    using d(6) x by (simp add: ed_strlen_def)
  then show ?thesis
    using i d x text_nth [OF ok d(5)]
    by (auto simp: editor_backspace_def Let_def ed_ok_def editor_text_def list_all_update take_update_swap map_update)
qed

lemma join_lines:
  assumes "0 < y" "y < n" "n \<le> length l"
  shows "take (n - 1) (fold (\<lambda>i l. l[i := l ! (i + 1)]) [y..<n - 1] (l[y - 1 := a])) = take (y - 1) l @ [a] @ drop (y + 1) (take n l)"
proof -
  let ?l = "l[y - 1 := a]"
  have "fold (\<lambda>i l. l[i := l ! (i + 1)]) [y..<n - 1] ?l = take y ?l @ take (n - 1 - y) (drop (y + 1) ?l) @ drop (n - 1) ?l"
    using assms by (intro fold_shift_left) simp_all
  moreover have "take y ?l = take (y - 1) l @ [a]"
    using assms take_Suc_conv_app_nth [of "y - 1" ?l] by simp
  moreover have "take (n - 1 - y) (drop (y + 1) ?l) = drop (y + 1) (take n l)" using assms by (simp add: drop_take)
  ultimately have "fold (\<lambda>i l. l[i := l ! (i + 1)]) [y..<n - 1] ?l = (take (y - 1) l @ [a] @ drop (y + 1) (take n l)) @ drop (n - 1) ?l"
    by simp
  moreover have "length (take (y - 1) l @ [a] @ drop (y + 1) (take n l)) = n - 1" using assms by simp
  ultimately show ?thesis by (metis append_eq_conv_conj)
qed

lemma join_text:
  assumes ok: "ed_ok ed" and x: "cur_x ed = 0" and y: "0 < cur_y ed"
    and l: "length (editor_text ed ! (cur_y ed - 1)) + length (editor_text ed ! cur_y ed) < 255"
  shows "ed_ok (editor_backspace ed) \<and> cur_y (editor_backspace ed) = cur_y ed - 1 \<and>
    cur_x (editor_backspace ed) = length (editor_text ed ! (cur_y ed - 1)) \<and>
    editor_text (editor_backspace ed) = take (cur_y ed - 1) (editor_text ed) @
      [editor_text ed ! (cur_y ed - 1) @ editor_text ed ! cur_y ed] @ drop (cur_y ed + 1) (editor_text ed)"
proof -
  note d = ed_okD [OF ok]
  let ?y = "cur_y ed" and ?n = "line_count ed"
  let ?p = "lines ed ! (?y - 1)" and ?c = "lines ed ! ?y"
  have t: "editor_text ed ! (?y - 1) = line_text ?p" "editor_text ed ! ?y = line_text ?c"
    using d(5) by (simp_all add: text_nth [OF ok])
  have fits: "ed_strlen ?p + ed_strlen ?c < 255" using l unfolding t ed_strlen_def .
  define a where "a = append_line ?p ?c (ed_strlen ?p) (ed_strlen ?c)"
  have a: "buf_ok a \<and> line_text a = line_text ?p @ line_text ?c"
    unfolding a_def using d(2,7) fits by (intro append_buf) simp_all
  define js where "js = [?y..<?n - 1]"
  let ?l0 = "(lines ed)[?y - 1 := a]"
  let ?l1 = "fold (\<lambda>i ls. ls[i := ed_strcpy (ls ! i) (ls ! (i + 1))]) js ?l0"
  have l1: "list_all buf_ok ?l1 \<and> length ?l1 = 256 \<and>
      map line_text ?l1 = fold (\<lambda>i l. l[i := l ! (i + 1)]) js ((map line_text (lines ed))[?y - 1 := line_text a])"
  proof -
    have "\<forall>i\<in>set js. i < length ?l0 \<and> i + 1 < length ?l0" using d(1,4) by (auto simp: js_def)
    from fold_strcpy [of ?l0 js "\<lambda>i. i + 1", OF _ this] show ?thesis
      using d a by (simp add: list_all_update map_update)
  qed
  have e: "editor_backspace ed = ed\<lparr>lines := ?l1, line_count := ?n - 1, cur_y := ?y - 1, cur_x := ed_strlen ?p, modified := True\<rparr>"
    using x y fits by (simp add: editor_backspace_def EDITOR_MAX_COLS_def Let_def a_def js_def)
  have "map line_text (take (?n - 1) ?l1) = take (?y - 1) (map line_text (lines ed)) @ [line_text a] @ drop (?y + 1) (take ?n (map line_text (lines ed)))"
    using join_lines [of ?y ?n "map line_text (lines ed)" "line_text a", folded js_def] d l1 y by (simp add: take_map [symmetric])
  then have tx: "editor_text (editor_backspace ed) = take (?y - 1) (editor_text ed) @ [editor_text ed ! (?y - 1) @ editor_text ed ! ?y] @
      drop (?y + 1) (editor_text ed)"
    unfolding t using d(5) a by (simp add: e editor_text_def take_map)
  have "editor_text (editor_backspace ed) ! (?y - 1) = line_text ?p @ line_text ?c"
    unfolding tx t using d(5) y by (simp add: nth_append text_length [OF ok])
  then have "line_text (?l1 ! (?y - 1)) = line_text ?p @ line_text ?c" using d(4,5) y l1 by (simp add: e editor_text_def)
  then have "ed_ok (editor_backspace ed)"
    using l1 d y by (simp add: e ed_ok_def ed_strlen_def) linarith
  then show ?thesis unfolding tx unfolding t by (simp add: e ed_strlen_def)
qed

lemma backspace_stuck:
  assumes "ed_ok ed" "cur_x ed = 0"
    and "cur_y ed = 0 \<or> 255 \<le> length (editor_text ed ! (cur_y ed - 1)) + length (editor_text ed ! cur_y ed)"
  shows "editor_backspace ed = ed"
  using assms ed_okD(5) [OF assms(1)] by (auto simp: editor_backspace_def EDITOR_MAX_COLS_def Let_def text_nth ed_strlen_def)

section \<open>Every key keeps the editor well-formed\<close>

lemma scroll_keeps [simp]:
  "ed_ok (editor_ensure_scroll ed) = ed_ok ed" "editor_text (editor_ensure_scroll ed) = editor_text ed"
  "cur_x (editor_ensure_scroll ed) = cur_x ed" "cur_y (editor_ensure_scroll ed) = cur_y ed"
  by (simp_all add: editor_ensure_scroll_def Let_def ed_ok_def editor_text_def)

lemma insert_ok: "ed_ok ed \<Longrightarrow> c \<noteq> 0 \<Longrightarrow> ed_ok (editor_insert_char c ed)"
  using insert_text [of ed c] insert_full [of ed c] by (cases "ed_strlen (lines ed ! cur_y ed) < 255") auto

lemma newline_ok: "ed_ok ed \<Longrightarrow> ed_ok (editor_newline ed)"
  using newline_text [of ed] newline_full [of ed] by (cases "line_count ed < 255") auto

lemma backspace_ok:
  assumes "ed_ok ed"
  shows "ed_ok (editor_backspace ed)"
proof (cases "0 < cur_x ed")
  case True
  then show ?thesis using delete_text [OF assms] by blast
next
  case False
  then show ?thesis using join_text [OF assms] backspace_stuck [OF assms] assms by (metis gr0I leI)
qed

lemma clamp_ok: "ed_ok ed \<Longrightarrow> y < line_count ed \<Longrightarrow> ed_ok (clamp_x (ed\<lparr>cur_y := y\<rparr>))"
  by (auto simp: clamp_x_def Let_def ed_ok_def)

lemma move_ok:
  "ed_ok ed \<Longrightarrow> x \<le> ed_strlen (lines ed ! cur_y ed) \<Longrightarrow> ed_ok (ed\<lparr>cur_x := x\<rparr>)"
  "ed_ok ed \<Longrightarrow> y < line_count ed \<Longrightarrow> x \<le> ed_strlen (lines ed ! y) \<Longrightarrow> ed_ok (ed\<lparr>cur_y := y, cur_x := x\<rparr>)"
  by (simp_all add: ed_ok_def)

lemma edit_key_ok:
  assumes "ed_ok ed"
  shows "ed_ok (edit_key c ed)"
proof -
  note d = ed_okD(3,5,6) [OF assms]
  have "ed_ok (key_up ed)" "ed_ok (key_down ed)" "ed_ok (key_left ed)" "ed_ok (key_right ed)"
    using assms d by (auto simp: key_up_def key_down_def key_left_def key_right_def clamp_ok move_ok)
  moreover have "ed_ok ((editor_insert_char 32 ^^ n) ed)" for n
    by (induction n) (simp_all add: assms insert_ok)
  moreover have "c \<noteq> 0" if "32 \<le> c" using that by auto
  ultimately show ?thesis
    using assms by (simp add: edit_key_def insert_ok newline_ok backspace_ok)
qed

section \<open>Loading\<close>

definition pad :: "u8 list \<Rightarrow> u8 list" where
  "pad t = t @ replicate (256 - length t) 0"

definition canon :: "u8 list list \<Rightarrow> u8 list \<Rightarrow> u8 list list" where
  "canon ts p = map pad (ts @ p # replicate (255 - length ts) [])"

lemma pad_ok: "length t \<le> 255 \<Longrightarrow> buf_ok (pad t)"
  by (simp add: pad_def buf_ok_def)

lemma pad_text: "length t \<le> 255 \<Longrightarrow> 0 \<notin> set t \<Longrightarrow> line_text (pad t) = t"
proof -
  assume a: "length t \<le> 255" "0 \<notin> set t"
  then have "256 - length t = Suc (255 - length t)" by simp
  then have "pad t = t @ 0 # replicate (255 - length t) 0" by (simp only: pad_def replicate_Suc)
  then show ?thesis using a(2) by (simp add: line_text_append)
qed

lemma canon_set:
  assumes "length p < 256"
  shows "set_byte (canon ts p) (length ts) (length p) c = canon ts (p @ [c])" 
proof -
  have "256 - length p = Suc (255 - length p)" using assms by simp
  then have "(pad p)[length p := c] = pad (p @ [c])" by (simp add: pad_def)
  then show ?thesis by (simp add: set_byte_def canon_def list_update_append nth_append)
qed

lemma canon_zero: "length p < 256 \<Longrightarrow> set_byte (canon ts p) (length ts) (length p) 0 = canon ts p"
  by (simp add: set_byte_def canon_def nth_append list_update_append pad_def list_update_same_conv)

lemma canon_next: "length ts < 255 \<Longrightarrow> canon ts p = canon (ts @ [p]) []"
proof -
  assume "length ts < 255"
  then have "replicate (255 - length ts) [] = [] # replicate (255 - length (ts @ [p])) ([] :: u8 list)"
    by (simp add: Suc_diff_Suc flip: replicate_Suc)
  then show ?thesis by (simp add: canon_def)
qed

lemma canon_newline: "length p < 256 \<Longrightarrow> length ts < 255 \<Longrightarrow> set_byte (canon ts p) (length ts) (length p) 0 = canon (ts @ [p]) []"
  using canon_zero [of p ts] canon_next [of ts p] by simp

lemma canon_ok: "\<forall>t\<in>set ts. length t \<le> 255 \<Longrightarrow> length p \<le> 255 \<Longrightarrow> length ts \<le> 255 \<Longrightarrow> length (canon ts p) = 256 \<and> list_all buf_ok (canon ts p)"
  by (auto simp: canon_def pad_ok list.pred_set)

lemma load_loop_ok:
  assumes "\<forall>t\<in>set ts. length t \<le> 255" "length p \<le> 255" "length ts \<le> 255"
    "load_loop cs (canon ts p) (length ts) (length p) = (ls, line, col)"
  shows "length ls = 256 \<and> list_all buf_ok ls \<and> line \<le> 256 \<and> col \<le> 255"
  using assms
proof (induction cs arbitrary: ts p)
  case Nil
  then show ?case using canon_ok by auto
next
  case (Cons c cs)
  show ?case
  proof (cases "c = 10")
    case True
    show ?thesis
    proof (cases "length ts = 255")
      case True
      then show ?thesis using Cons.prems \<open>c = 10\<close> canon_ok [OF Cons.prems(1-3)] canon_zero [of p ts]
        by (simp add: EDITOR_MAX_LINES_def Let_def)
    next
      case False
      then show ?thesis using Cons.prems \<open>c = 10\<close> Cons.IH [of "ts @ [p]" "[]"]
        by (simp add: EDITOR_MAX_LINES_def canon_newline Let_def)
    qed
  next
    case False
    then show ?thesis using Cons.prems Cons.IH [of ts p] Cons.IH [of ts "p @ [c]"]
      by (simp add: EDITOR_MAX_COLS_def canon_set split: if_splits)
  qed
qed

lemma init_lines: "lines (editor_init name) = canon [] []"
  by (simp add: editor_init_def canon_def pad_def EDITOR_MAX_LINES_def EDITOR_MAX_COLS_def numeral_eq_Suc)

lemma set_zero_ok: "length ls = 256 \<Longrightarrow> list_all buf_ok ls \<Longrightarrow> col < 256 \<Longrightarrow>
    length (set_byte ls line col 0) = 256 \<and> list_all buf_ok (set_byte ls line col 0)"
proof (cases "line < length ls")
  assume a: "length ls = 256" "list_all buf_ok ls" "col < 256" "line < length ls"
  then have "buf_ok ((ls ! line)[col := 0])" by (simp add: buf_ok_def list_all_length set_update_memI)
  then show ?thesis using a by (simp add: set_byte_def list_all_update)
qed (simp add: set_byte_def list_update_beyond)

lemma ed_okI: "length ls = 256 \<Longrightarrow> list_all buf_ok ls \<Longrightarrow> 1 \<le> n \<Longrightarrow> n \<le> 256 \<Longrightarrow>
    ed_ok (ed\<lparr>lines := ls, line_count := n, cur_x := 0, cur_y := 0, scroll_y := a, modified := b\<rparr>)"
  by (simp add: ed_ok_def)

lemma load_text_ok: "ed_ok (load_text cs (editor_init name))"
proof -
  obtain ls line col where l: "load_loop cs (lines (editor_init name)) 0 0 = (ls, line, col)" by (metis prod_cases3)
  have o: "length ls = 256" "list_all buf_ok ls" "line \<le> 256" "col < 256"
    using load_loop_ok [of "[]" "[]" cs] l by (simp_all add: init_lines less_Suc_eq_le)
  note z = set_zero_ok [OF o(1,2)]
  show ?thesis
    unfolding load_text_def l Let_def using o z [OF o(4)] z [of 0] by (auto simp: EDITOR_MAX_LINES_def intro!: ed_okI)
qed

lemma init_ok: "ed_ok (editor_init name)"
  using canon_ok [of "[]" "[]"] by (simp add: ed_ok_def init_lines) (simp add: editor_init_def)

lemma load_ok: "editor_load buf path (editor_init name) s = Some (ed, s') \<Longrightarrow> ed_ok ed"
proof -
  have "ed_ok ((editor_init name)\<lparr>line_count := 1, lines := set_byte (lines (editor_init name)) 0 0 0\<rparr>)"
    using set_zero_ok [of "canon [] []" 0 0] canon_ok [of "[]" "[]"] by (simp add: ed_ok_def init_lines) (simp add: editor_init_def)
  then show "editor_load buf path (editor_init name) s = Some (ed, s') \<Longrightarrow> ed_ok ed"
    by (auto simp: editor_load_def Let_def load_text_ok split: option.splits prod.splits if_splits)
qed

lemma save_ok: "editor_save buf ed s con = Some (r, ed', s', con') \<Longrightarrow> ed_ok ed \<Longrightarrow> ed_ok ed'"
  by (auto simp: editor_save_def Let_def ed_ok_def split: option.splits prod.splits if_splits)

definition outcome_ok :: "editor_outcome \<Rightarrow> bool" where
  "outcome_ok w \<longleftrightarrow> (case w of Running q ed s con \<Rightarrow> ed_ok ed | Returned ed s con \<Rightarrow> ed_ok ed | Crashed \<Rightarrow> True)"

lemma editor_key_ok: "outcome_ok w \<Longrightarrow> outcome_ok (editor_key buf c w)"
  by (auto simp: outcome_ok_def editor_key_def Let_def edit_key_ok save_ok split: editor_outcome.splits bool.splits option.splits prod.splits)

lemma run_ok: "outcome_ok w \<Longrightarrow> outcome_ok (fold (editor_key buf) keys w)"
  by (induction keys arbitrary: w) (simp_all add: editor_key_ok)

text \<open>C26. Whatever file is opened and whatever keys are typed, every line buffer of the editor stays
  NUL-terminated within its 256 bytes, the text has between 1 and 256 lines, and the cursor is on a line
  of the text and not behind the end of that line.\<close>

theorem editor_wellformed:
  "case editor_open buf keys path s con of
     Running q ed s' con' \<Rightarrow> ed_ok ed | Returned ed s' con' \<Rightarrow> ed_ok ed | Crashed \<Rightarrow> True"
proof -
  have "outcome_ok (editor_open buf keys path s con)"
    by (auto simp: editor_open_def editor_run_def Let_def outcome_ok_def [of Crashed] init_ok load_ok
        intro!: run_ok simp: outcome_ok_def [of "Running _ _ _ _"] split: option.splits)
  then show ?thesis by (simp add: outcome_ok_def)
qed

section \<open>Editing is editing a string\<close>

definition doc :: "u8 list list \<Rightarrow> u8 list" where
  "doc ts = concat (map (\<lambda>t. t @ [10]) ts)"

definition doc_of :: "editor_state \<Rightarrow> u8 list" where
  "doc_of ed = doc (editor_text ed)"

definition pos_of :: "editor_state \<Rightarrow> nat" where
  "pos_of ed = length (doc (take (cur_y ed) (editor_text ed))) + cur_x ed"

lemma doc_simps [simp]: "doc [] = []" "doc (t # ts) = t @ 10 # doc ts" "doc (ts @ us) = doc ts @ doc us"
  by (simp_all add: doc_def)

lemma text_split:
  assumes "ed_ok ed"
  obtains us t vs where "editor_text ed = us @ t # vs" "length us = cur_y ed" "cur_x ed \<le> length t" "editor_text ed ! cur_y ed = t"
    "ed_strlen (lines ed ! cur_y ed) = length t" "pos_of ed = length (doc us) + cur_x ed" "line_count ed = length us + 1 + length vs"
proof -
  note d = ed_okD(5,6) [OF assms]
  let ?y = "cur_y ed" and ?L = "editor_text ed"
  have l: "?y < length ?L" using d(1) text_length [OF assms] by simp
  define us t vs where "us = take ?y ?L" and "t = ?L ! ?y" and "vs = drop (?y + 1) ?L"
  have e: "?L = us @ t # vs" using id_take_nth_drop [OF l] by (simp add: us_def t_def vs_def)
  have u: "length us = ?y" using l by (simp add: us_def)
  have t: "?L ! ?y = t" "ed_strlen (lines ed ! ?y) = length t" using text_nth [OF assms d(1)] by (simp_all add: t_def ed_strlen_def)
  have "line_count ed = length us + 1 + length vs" using l u text_length [OF assms] by (simp add: vs_def)
  moreover have "pos_of ed = length (doc us) + cur_x ed" by (simp add: pos_of_def us_def)
  ultimately show thesis using d(2) t by (intro that [OF e u]) simp_all
qed

lemma insert_doc:
  assumes ok: "ed_ok ed" and c: "c \<noteq> 0" and l: "length (editor_text ed ! cur_y ed) < 255"
  shows "doc_of (editor_insert_char c ed) = take (pos_of ed) (doc_of ed) @ c # drop (pos_of ed) (doc_of ed)"
    "pos_of (editor_insert_char c ed) = pos_of ed + 1"
proof -
  obtain us t vs where s: "editor_text ed = us @ t # vs" "length us = cur_y ed" "cur_x ed \<le> length t" "editor_text ed ! cur_y ed = t"
    "ed_strlen (lines ed ! cur_y ed) = length t" "pos_of ed = length (doc us) + cur_x ed"
    by (rule text_split [OF ok])
  have i: "editor_text (editor_insert_char c ed) = us @ (take (cur_x ed) t @ c # drop (cur_x ed) t) # vs"
    "cur_y (editor_insert_char c ed) = length us" "cur_x (editor_insert_char c ed) = cur_x ed + 1"
    using insert_text [OF ok _ c] s l by (simp_all add: list_update_append nth_append)
  show "doc_of (editor_insert_char c ed) = take (pos_of ed) (doc_of ed) @ c # drop (pos_of ed) (doc_of ed)"
    using s(3) by (simp add: doc_of_def i s(1,6))
  show "pos_of (editor_insert_char c ed) = pos_of ed + 1" unfolding pos_of_def i s(1) using s(2) by simp
qed

lemma newline_doc:
  assumes ok: "ed_ok ed" and l: "line_count ed < 255"
  shows "doc_of (editor_newline ed) = take (pos_of ed) (doc_of ed) @ 10 # drop (pos_of ed) (doc_of ed)"
    "pos_of (editor_newline ed) = pos_of ed + 1"
proof -
  obtain us t vs where s: "editor_text ed = us @ t # vs" "length us = cur_y ed" "cur_x ed \<le> length t" "editor_text ed ! cur_y ed = t"
    "pos_of ed = length (doc us) + cur_x ed"
    by (rule text_split [OF ok])
  have i: "editor_text (editor_newline ed) = us @ take (cur_x ed) t # drop (cur_x ed) t # vs"
    "cur_y (editor_newline ed) = length us + 1" "cur_x (editor_newline ed) = 0"
    using newline_text [OF ok l] s(1,4) s(2) [symmetric] by simp_all
  show "doc_of (editor_newline ed) = take (pos_of ed) (doc_of ed) @ 10 # drop (pos_of ed) (doc_of ed)"
    using s(3) by (simp add: doc_of_def i s(1,5))
  show "pos_of (editor_newline ed) = pos_of ed + 1" unfolding pos_of_def i s(1) using s(2,3) by simp
qed

lemma delete_doc:
  assumes ok: "ed_ok ed" and x: "0 < cur_x ed"
  shows "doc_of (editor_backspace ed) = take (pos_of ed - 1) (doc_of ed) @ drop (pos_of ed) (doc_of ed)"
    "pos_of (editor_backspace ed) = pos_of ed - 1"
proof -
  obtain us t vs where s: "editor_text ed = us @ t # vs" "length us = cur_y ed" "cur_x ed \<le> length t" "editor_text ed ! cur_y ed = t"
    "pos_of ed = length (doc us) + cur_x ed"
    by (rule text_split [OF ok])
  have i: "editor_text (editor_backspace ed) = us @ (take (cur_x ed - 1) t @ drop (cur_x ed) t) # vs"
    "cur_y (editor_backspace ed) = length us" "cur_x (editor_backspace ed) = cur_x ed - 1"
    using delete_text [OF ok x] s by (simp_all add: list_update_append nth_append)
  show "doc_of (editor_backspace ed) = take (pos_of ed - 1) (doc_of ed) @ drop (pos_of ed) (doc_of ed)"
    using s(3) x by (simp add: doc_of_def i s(1,5))
  show "pos_of (editor_backspace ed) = pos_of ed - 1" unfolding pos_of_def i s(1) using s(2) x by simp
qed

lemma join_doc:
  assumes ok: "ed_ok ed" and x: "cur_x ed = 0" and y: "0 < cur_y ed"
    and l: "length (editor_text ed ! (cur_y ed - 1)) + length (editor_text ed ! cur_y ed) < 255"
  shows "doc_of (editor_backspace ed) = take (pos_of ed - 1) (doc_of ed) @ drop (pos_of ed) (doc_of ed)"
    "pos_of (editor_backspace ed) = pos_of ed - 1"
proof -
  obtain us t vs where s: "editor_text ed = us @ t # vs" "length us = cur_y ed" "editor_text ed ! cur_y ed = t" "pos_of ed = length (doc us) + cur_x ed"
    by (rule text_split [OF ok])
  have "us \<noteq> []" using s(2) y by auto
  then obtain ws p where us: "us = ws @ [p]" by (metis append_butlast_last_id)
  have k: "cur_y ed - 1 = length ws" "editor_text ed ! length ws = p" using s(2) us s(1) by (auto simp: nth_append)
  have i: "editor_text (editor_backspace ed) = ws @ (p @ t) # vs"
    "cur_y (editor_backspace ed) = length ws" "cur_x (editor_backspace ed) = length p"
    using join_text [OF ok x y l] unfolding k s(3) unfolding s(1) us s(2) [symmetric] by simp_all
  show "doc_of (editor_backspace ed) = take (pos_of ed - 1) (doc_of ed) @ drop (pos_of ed) (doc_of ed)"
    unfolding doc_of_def i s(4) s(1) us x by simp
  have "pos_of (editor_backspace ed) = length (doc ws) + length p" unfolding pos_of_def i by simp
  then show "pos_of (editor_backspace ed) = pos_of ed - 1" using s(4) us x by simp
qed

definition string_key :: "u8 \<Rightarrow> u8 list \<times> nat \<Rightarrow> u8 list \<times> nat" where
  "string_key c = (\<lambda>(d, p).
     if c = KEY_LEFT then (d, p - 1)
     else if c = KEY_RIGHT then (d, if p + 1 < length d then p + 1 else p)
     else if c = 8 then (if 0 < p then (take (p - 1) d @ drop p d, p - 1) else (d, p))
     else (take p d @ c # drop p d, p + 1))"

definition has_room :: "u8 \<Rightarrow> editor_state \<Rightarrow> bool" where
  "has_room c ed \<longleftrightarrow>
     (if c = KEY_LEFT \<or> c = KEY_RIGHT then True
      else if c = 8 then cur_x ed = 0 \<longrightarrow> 0 < cur_y ed \<longrightarrow>
        length (editor_text ed ! (cur_y ed - 1)) + length (editor_text ed ! cur_y ed) < 255
      else if c = 10 then line_count ed < 255
      else length (editor_text ed ! cur_y ed) < 255)"

lemma scroll_doc [simp]: "doc_of (editor_ensure_scroll ed) = doc_of ed" "pos_of (editor_ensure_scroll ed) = pos_of ed"
  by (simp_all add: doc_of_def pos_of_def)

lemma move_doc [simp]:
  "editor_text (ed\<lparr>cur_x := x\<rparr>) = editor_text ed" "editor_text (ed\<lparr>cur_y := y\<rparr>) = editor_text ed"
  "doc_of (ed\<lparr>cur_x := x\<rparr>) = doc_of ed" "doc_of (ed\<lparr>cur_y := y\<rparr>) = doc_of ed"
  by (simp_all add: doc_of_def editor_text_def)

lemma key_left_pos:
  assumes ok: "ed_ok ed"
  shows "doc_of (key_left ed) = doc_of ed \<and> pos_of (key_left ed) = pos_of ed - 1"
proof -
  obtain us t vs where s: "editor_text ed = us @ t # vs" "length us = cur_y ed" "pos_of ed = length (doc us) + cur_x ed"
    by (rule text_split [OF ok])
  consider "0 < cur_x ed" | "cur_x ed = 0" "cur_y ed = 0" | "cur_x ed = 0" "0 < cur_y ed" by fastforce
  then show ?thesis
  proof cases
    case 1
    then show ?thesis by (simp add: key_left_def pos_of_def)
  next
    case 2
    then show ?thesis by (simp add: key_left_def s(3)) (use s(2) 2 in simp)
  next
    case 3
    have "us \<noteq> []" using s(2) 3 by auto
    then obtain ws p where us: "us = ws @ [p]" by (metis append_butlast_last_id)
    have k: "cur_y ed - 1 = length ws" using s(2) us by simp
    have "editor_text ed ! length ws = p" by (simp add: s(1) us nth_append)
    then have "ed_strlen (lines ed ! length ws) = length p"
      using text_nth [OF ok, of "length ws"] s(2) us ed_okD(5) [OF ok] by (simp add: ed_strlen_def)
    then have "pos_of (key_left ed) = length (doc (take (length ws) (editor_text ed))) + length p"
      using 3 k by (simp add: key_left_def pos_of_def)
    then show ?thesis using 3 s(3) by (simp add: key_left_def s(1) us)
  qed
qed

lemma key_right_pos:
  assumes ok: "ed_ok ed"
  shows "doc_of (key_right ed) = doc_of ed \<and> pos_of (key_right ed) = (if pos_of ed + 1 < length (doc_of ed) then pos_of ed + 1 else pos_of ed)"
proof -
  obtain us t vs where s: "editor_text ed = us @ t # vs" "length us = cur_y ed" "cur_x ed \<le> length t"
    "ed_strlen (lines ed ! cur_y ed) = length t" "pos_of ed = length (doc us) + cur_x ed" "line_count ed = length us + 1 + length vs"
    by (rule text_split [OF ok])
  have d: "doc_of ed = doc us @ t @ 10 # doc vs" by (simp add: doc_of_def s(1))
  consider "cur_x ed < length t" | "cur_x ed = length t" "vs = []" | "cur_x ed = length t" "vs \<noteq> []" using s(3) by fastforce
  then show ?thesis
  proof cases
    case 1
    then show ?thesis using s(4,5) d by (simp add: key_right_def pos_of_def)
  next
    case 2
    then show ?thesis using s d by (simp add: key_right_def)
  next
    case 3
    then have "pos_of (key_right ed) = length (doc (take (cur_y ed + 1) (editor_text ed)))"
      using s(2,4,6) by (simp add: key_right_def pos_of_def)
    then have "pos_of (key_right ed) = length (doc us) + length t + 1" using s(2) by (simp add: s(1))
    then show ?thesis using 3 s(2,4-6) d by (cases vs) (simp_all add: key_right_def)
  qed
qed

lemma room_key:
  assumes ok: "ed_ok ed" and r: "has_room c ed" and c: "c \<in> {KEY_LEFT, KEY_RIGHT, 8, 10} \<union> {32..126}"
  shows "doc_of (edit_key c ed) = fst (string_key c (doc_of ed, pos_of ed)) \<and> pos_of (edit_key c ed) = snd (string_key c (doc_of ed, pos_of ed))"
proof -
  have k: "KEY_UP = 1" "KEY_DOWN = 2" "KEY_LEFT = 3" "KEY_RIGHT = 4"
    by (simp_all add: KEY_UP_def KEY_DOWN_def KEY_LEFT_def KEY_RIGHT_def)
  consider (left) "c = 3" | (right) "c = 4" | (bksp) "c = 8" | (line) "c = 10" | (char) "32 \<le> c" "c \<le> 126" using c k by auto
  then show ?thesis
  proof cases
    case left
    then show ?thesis using key_left_pos [OF ok] by (simp add: edit_key_def string_key_def k)
  next
    case right
    then show ?thesis using key_right_pos [OF ok] by (simp add: edit_key_def string_key_def k)
  next
    case bksp
    have z: "pos_of ed = 0 \<longleftrightarrow> cur_x ed = 0 \<and> cur_y ed = 0"
      by (rule text_split [OF ok]) (auto simp: doc_def)
    show ?thesis
      using r bksp z delete_doc [OF ok] join_doc [OF ok] backspace_stuck [OF ok]
      by (cases "cur_x ed = 0"; cases "cur_y ed = 0") (simp_all add: edit_key_def string_key_def k has_room_def)
  next
    case line
    then show ?thesis using r newline_doc [OF ok] by (simp add: edit_key_def string_key_def k has_room_def)
  next
    case char
    then have n: "c \<noteq> 0 \<and> c \<noteq> 1 \<and> c \<noteq> 2 \<and> c \<noteq> 3 \<and> c \<noteq> 4 \<and> c \<noteq> 8 \<and> c \<noteq> 10 \<and> c \<noteq> 13" by (auto simp: word_le_nat_alt)
    moreover have "c < 127" using char(2) by (simp add: word_less_nat_alt word_le_nat_alt)
    ultimately show ?thesis
      using char r insert_doc [OF ok, of c] by (simp add: edit_key_def string_key_def k has_room_def)
  qed
qed

lemma full_key:
  assumes ok: "ed_ok ed" and r: "\<not> has_room c ed" and c: "c \<in> {KEY_LEFT, KEY_RIGHT, 8, 10} \<union> {32..126}"
  shows "doc_of (edit_key c ed) = doc_of ed \<and> pos_of (edit_key c ed) = pos_of ed"
proof -
  have k: "KEY_UP = 1" "KEY_DOWN = 2" "KEY_LEFT = 3" "KEY_RIGHT = 4"
    by (simp_all add: KEY_UP_def KEY_DOWN_def KEY_LEFT_def KEY_RIGHT_def)
  consider (bksp) "c = 8" | (line) "c = 10" | (char) "32 \<le> c" "c \<le> 126" using c k r by (auto simp: has_room_def)
  then show ?thesis
  proof cases
    case bksp
    then show ?thesis using r backspace_stuck [OF ok] by (simp add: edit_key_def k has_room_def)
  next
    case line
    then show ?thesis using r newline_full [of ed] by (simp add: edit_key_def k has_room_def)
  next
    case char
    then have n: "c \<noteq> 0 \<and> c \<noteq> 1 \<and> c \<noteq> 2 \<and> c \<noteq> 3 \<and> c \<noteq> 4 \<and> c \<noteq> 8 \<and> c \<noteq> 10 \<and> c \<noteq> 13" by (auto simp: word_le_nat_alt)
    then have "editor_insert_char c ed = ed"
      using r insert_full [of ed c] text_nth [OF ok ed_okD(5) [OF ok]] by (simp add: k has_room_def ed_strlen_def)
    then show ?thesis using n char by (simp add: edit_key_def k)
  qed
qed

text \<open>C25. Editing refines editing a string with a cursor: read as one string with a newline after every
  line, typing a printable character or Enter inserts it at the position of the cursor, backspace
  removes the character before it (a newline when two lines are joined), and left and right move by
  one character. A key for which the line or the table of lines is full changes nothing.\<close>

theorem editing_refines_string:
  assumes "ed_ok ed" "c \<in> {KEY_LEFT, KEY_RIGHT, 8, 10} \<union> {32..126}"
  shows "(doc_of (edit_key c ed), pos_of (edit_key c ed)) =
    (if has_room c ed then string_key c (doc_of ed, pos_of ed) else (doc_of ed, pos_of ed))"
  using room_key [OF assms(1) _ assms(2)] full_key [OF assms(1) _ assms(2)] by (simp add: prod_eq_iff)

theorem editing_refines_string_witness:
  "(doc_of (edit_key 97 (editor_init None)), pos_of (edit_key 97 (editor_init None))) = ([97, 10], 1)"
proof -
  have "editor_text (editor_init None) = [[]]"
    by (simp add: editor_text_def editor_init_def line_text_def EDITOR_MAX_LINES_def EDITOR_MAX_COLS_def numeral_eq_Suc)
  then show ?thesis
    using editing_refines_string [OF init_ok, of 97 None]
    by (simp add: has_room_def string_key_def doc_of_def pos_of_def KEY_LEFT_def KEY_RIGHT_def) (simp add: editor_init_def)
qed

section \<open>Saving and loading\<close>

fun join :: "u8 list list \<Rightarrow> u8 list" where
  "join [] = []"
| "join [t] = t"
| "join (t # ts) = t @ 10 # join ts"

lemma save_loop_join: "length out + length (join ts) + 1 < 4096 \<Longrightarrow> save_loop ts out = out @ join ts"
proof (induction ts arbitrary: out rule: join.induct)
  case (3 t u us)
  have "save_loop (t # u # us) out = save_loop (u # us) (out @ t @ [10])"
    using 3(2) by (subst save_loop.simps(2)) (simp add: EDITOR_MAX_FILE_def Let_def del: save_loop.simps)
  then show ?case using 3(1) [of "out @ t @ [10]"] 3(2) by (simp del: save_loop.simps)
qed (simp_all add: EDITOR_MAX_FILE_def Let_def)

lemma load_line:
  assumes "10 \<notin> set t" "13 \<notin> set t" "length p + length t \<le> 255"
  shows "load_loop (t @ cs) (canon ts p) (length ts) (length p) = load_loop cs (canon ts (p @ t)) (length ts) (length (p @ t))"
  using assms
proof (induction t arbitrary: p)
  case (Cons c t)
  then show ?case using Cons.IH [of "p @ [c]"] by (simp add: EDITOR_MAX_COLS_def canon_set)
qed simp

lemma load_join:
  assumes "\<forall>t\<in>set us. 10 \<notin> set t \<and> 13 \<notin> set t \<and> length t \<le> 255" "us \<noteq> []" "length ts + length us \<le> 256"
  shows "load_loop (join us) (canon ts []) (length ts) 0 =
    (canon (ts @ butlast us) (last us), length ts + length us - 1, length (last us))"
  using assms
proof (induction us arbitrary: ts rule: join.induct)
  case (2 t)
  then show ?case using load_line [of t "[]" "[]" ts] by simp
next
  case (3 t u us)
  have "load_loop (t @ 10 # join (u # us)) (canon ts []) (length ts) 0 = load_loop (10 # join (u # us)) (canon ts t) (length ts) (length t)"
    using load_line [of t "[]" "10 # join (u # us)" ts] 3(2) by simp
  also have "\<dots> = load_loop (join (u # us)) (canon (ts @ [t]) []) (length (ts @ [t])) 0"
    using 3(2,4) by (simp add: EDITOR_MAX_LINES_def canon_newline Let_def)
  finally show ?case using 3(1) [of "ts @ [t]"] 3(2-4) by simp
qed simp

lemma join_empty: "us \<noteq> [] \<Longrightarrow> join us = [] \<longleftrightarrow> us = [[]]"
  by (induction us rule: join.induct) simp_all

lemma canon_text:
  assumes "\<forall>t\<in>set (ws @ [p]). length t \<le> 255 \<and> 0 \<notin> set t"
  shows "map line_text (take (length ws + 1) (canon ws p)) = ws @ [p]"
  using assms by (simp add: canon_def pad_text map_idI)

lemma load_join_text:
  assumes "us \<noteq> []" "length us \<le> 256" "\<forall>t\<in>set us. 10 \<notin> set t \<and> 13 \<notin> set t \<and> 0 \<notin> set t \<and> length t \<le> 255"
  shows "editor_text (load_text (join us) (editor_init name)) = us"
proof -
  obtain ws p where us: "us = ws @ [p]" using assms(1) by (metis append_butlast_last_id)
  have p: "length p < 256" and n: "length ws < 256" using assms(2,3) us by auto
  have l: "load_loop (join us) (lines (editor_init name)) 0 0 = (canon ws p, length ws, length p)"
    using load_join [of us "[]"] assms by (simp add: init_lines us)
  have z: "set_byte (canon ws p) (length ws) (length p) 0 = canon ws p" by (rule canon_zero [OF p])
  have e: "join us = [] \<longleftrightarrow> ws = [] \<and> p = []" using join_empty [OF assms(1)] us by (cases ws) auto
  have "load_text (join us) (editor_init name) = (editor_init name)\<lparr>lines := canon ws p, line_count := length ws + 1,
      cur_x := 0, cur_y := 0, scroll_y := 0, modified := False\<rparr>"
    unfolding load_text_def l Let_def using e z n by (auto simp: EDITOR_MAX_LINES_def)
  then show ?thesis using canon_text [of ws p] assms(3) us by (simp add: editor_text_def)
qed

text \<open>C27. Loading what saving wrote gives the text back: for every well-formed editor whose text fits
  the 4096 byte buffer of \<open>editor_save\<close> and has no carriage return or newline inside a line, the lines
  that \<open>editor_load\<close> parses out of the bytes that \<open>editor_save\<close> builds are the lines of the editor.\<close>

theorem save_load_roundtrip:
  assumes ok: "ed_ok ed" and "\<forall>t\<in>set (editor_text ed). 10 \<notin> set t \<and> 13 \<notin> set t"
    and "length (join (editor_text ed)) + 1 < 4096"
  shows "editor_text (load_text (save_loop (editor_text ed) []) (editor_init name)) = editor_text ed"
proof -
  have l: "length (editor_text ed) = line_count ed" by (rule text_length [OF ok])
  have "0 \<notin> set t \<and> length t \<le> 255" if m: "t \<in> set (editor_text ed)" for t
  proof -
    obtain i where "i < length (editor_text ed)" and t: "editor_text ed ! i = t" using m unfolding in_set_conv_nth by blast
    then have i: "i < line_count ed" by (simp add: l)
    then have "i < 256" using ed_okD(4) [OF ok] by simp
    then show ?thesis using text_nth [OF ok i] text_nonzero buf_len [OF ed_okD(2) [OF ok]] t by (auto simp: ed_strlen_def)
  qed
  then have "editor_text (load_text (join (editor_text ed)) (editor_init name)) = editor_text ed"
    using assms(2) ed_okD(3,4) [OF ok] l by (intro load_join_text) auto
  then show ?thesis using save_loop_join [of "[]" "editor_text ed"] assms(3) by simp
qed

lemma init_text: "editor_text (editor_init name) = [[]]"
  by (simp add: editor_text_def editor_init_def line_text_def EDITOR_MAX_LINES_def EDITOR_MAX_COLS_def numeral_eq_Suc)

theorem save_load_roundtrip_witness:
  "editor_text (load_text (save_loop (editor_text (editor_newline (editor_insert_char 97 (editor_init None)))) []) (editor_init None)) = [[97], []]"
proof -
  have i: "ed_ok (editor_insert_char 97 (editor_init None))" "editor_text (editor_insert_char 97 (editor_init None)) = [[97]]"
    "cur_y (editor_insert_char 97 (editor_init None)) = 0" "cur_x (editor_insert_char 97 (editor_init None)) = 1"
    using insert_text [OF init_ok, of None 97] by (simp_all add: init_text ed_strlen_def) (simp_all add: editor_init_def line_text_def EDITOR_MAX_LINES_def EDITOR_MAX_COLS_def)
  have "line_count (editor_insert_char 97 (editor_init None)) = 1" using text_length [OF i(1)] i(2) by simp
  then have n: "ed_ok (editor_newline (editor_insert_char 97 (editor_init None)))"
    "editor_text (editor_newline (editor_insert_char 97 (editor_init None))) = [[97], []]"
    using newline_text [OF i(1)] by (simp_all add: i)
  show ?thesis using save_load_roundtrip [OF n(1), of None] by (simp add: n(2))
qed

section \<open>The editor cannot be left\<close>

fun typed :: "(u8 \<times> u8) list \<Rightarrow> keyboard \<Rightarrow> u8 list" where
  "typed [] k = []"
| "typed ((status, code) # xs) k = (let (c, k) = io_getchar status code k in c # typed xs k)"

lemma typed_range: "c \<in> set (typed xs k) \<Longrightarrow> c \<noteq> CTRL_S \<and> c \<noteq> CTRL_Q"
proof (induction xs k rule: typed.induct)
  case (2 status code xs k)
  obtain c' k' where g: "io_getchar status code k = (c', k')" by fastforce
  then have "c' \<noteq> 0x13 \<and> c' \<noteq> 0x11"
    using getchar_range [of status code k]
    by (auto simp: KEY_UP_def KEY_DOWN_def KEY_LEFT_def KEY_RIGHT_def word_le_nat_alt)
  then show ?case using 2 g by (auto simp: CTRL_S_def CTRL_Q_def)
qed simp

lemma run_stays:
  "\<forall>c\<in>set keys. c \<noteq> CTRL_S \<and> c \<noteq> CTRL_Q \<Longrightarrow>
    \<exists>ed' con'. fold (editor_key buf) keys (Running False ed s con) = Running False ed' s con'"
proof (induction keys arbitrary: ed con)
  case (Cons c keys)
  have "c \<noteq> CTRL_S" "c \<noteq> CTRL_Q" using Cons.prems by simp_all
  then have "\<exists>ed' con'. editor_key buf c (Running False ed s con) = Running False ed' s con'"
    by (simp add: editor_key_def Let_def)
  then obtain ed' con' where "editor_key buf c (Running False ed s con) = Running False ed' s con'" by blast
  then show ?case using Cons by simp
qed simp

text \<open>C40. The editor can neither save nor quit: whatever the keyboard controller delivers, no key that
  \<open>io_getchar\<close> returns is Ctrl+S or Ctrl+Q, so the loop of \<open>editor_run\<close> never returns and the file
  system is never touched.\<close>

theorem editor_cannot_quit:
  "\<exists>ed' con'. editor_run buf (typed inputs k) ed s con = Running False ed' s con'"
  unfolding editor_run_def using typed_range by (intro run_stays) blast

end
