(* ===== verification/Tcp.thy ===== *)
theory Tcp
  imports Lib_String
begin

text \<open>
  The network layer of \<^verbatim>\<open>src/tcp.c\<close>: the Internet checksum, the parser of dotted addresses, and the
  table of sixteen sockets with the operations on it. Packets and buffers lie in the flat memory; a
  \<open>net_if\<close> pointer that may be NULL is an option. Signed counters (\<open>socket_count\<close>) are integers.

  The lemmas show that the checksum is the one's complement sum of RFC 1071 and that a packet carrying
  it verifies, that \<open>tcp_inet_addr\<close> accepts exactly the dotted quads, and three faults: header fields
  are read without conversion from network byte order, a socket is never marked as in use by
  \<open>tcp_socket\<close>, and a passively opened connection is never established.
\<close>

section \<open>Checksum\<close>

fun sum_words :: "mem \<Rightarrow> u32 \<Rightarrow> nat \<Rightarrow> u32 \<Rightarrow> u32" where
  "sum_words m p 0 s = s"
| "sum_words m p (Suc 0) s = s + ucast (m p)"
| "sum_words m p (Suc (Suc n)) s =
     sum_words m (p + 2) n (s + ucast (ucast (m p) OR push_bit 8 (ucast (m (p + 1))) :: u16))"

function fold_sum :: "u32 \<Rightarrow> u32" where
  "fold_sum s = (if drop_bit 16 s \<noteq> 0 then fold_sum ((s AND 0xFFFF) + drop_bit 16 s) else s)"
  by auto

lemma halves: "unat (s AND 0xFFFF :: u32) = unat s mod 65536" "unat (drop_bit 16 s :: u32) = unat s div 65536"
proof -
  have "s AND 0xFFFF = take_bit 16 s" by (simp add: take_bit_eq_mask mask_eq_exp_minus_1)
  then show "unat (s AND 0xFFFF) = unat s mod 65536" by (simp add: take_bit_eq_mod unat_mod)
  show "unat (drop_bit 16 s) = unat s div 65536" by (simp add: drop_bit_eq_div unat_div)
qed

lemma fold_step: "unat ((s AND 0xFFFF) + drop_bit 16 s :: u32) = unat s mod 65536 + unat s div 65536"
proof -
  have "unat s div 65536 < 65536" using unat_less_2p32 [of s] by (intro less_mult_imp_div_less) simp
  then show ?thesis by (subst unat_add_no_wrap) (simp_all add: halves)
qed

termination fold_sum
proof (relation "measure unat")
  fix s :: u32
  assume "drop_bit 16 s \<noteq> 0"
  then have "unat s div 65536 \<noteq> 0" using halves(2) [of s] by (metis unat_eq_zero)
  moreover have "unat s = unat s div 65536 * 65536 + unat s mod 65536" by simp
  ultimately show "((s AND 0xFFFF) + drop_bit 16 s, s) \<in> measure unat"
    unfolding in_measure fold_step by linarith
qed simp

declare fold_sum.simps [simp del]

definition tcp_checksum :: "mem \<Rightarrow> u32 \<Rightarrow> u32 \<Rightarrow> u16" where
  "tcp_checksum m data len = ucast (NOT (fold_sum (sum_words m data (unat len) 0)))"

section \<open>Addresses\<close>

definition INADDR_NONE :: u32 where
  "INADDR_NONE = 0xFFFFFFFF"

fun parse_part :: "u8 list \<Rightarrow> u32 \<Rightarrow> nat \<Rightarrow> (u32 \<times> u8 list) option" where
  "parse_part [] part digits = Some (part, [])"
| "parse_part (c # cs) part digits =
     (if 48 \<le> c \<and> c \<le> 57
      then let part = part * 10 + (ucast c - 48)
           in if 255 < part then None
              else if 3 < digits + 1 then None
              else parse_part cs part (digits + 1)
      else Some (part, c # cs))"

text \<open>The loop over the four parts; the first argument counts the parts that are left.\<close>

fun inet_loop :: "nat \<Rightarrow> u8 list \<Rightarrow> u32 \<Rightarrow> u32" where
  "inet_loop 0 addr ip = ip"
| "inet_loop (Suc k) addr ip =
     (let i = 3 - k in
      if addr = [] \<or> hd addr < 48 \<or> 57 < hd addr then INADDR_NONE
      else case parse_part addr 0 0 of
             None \<Rightarrow> INADDR_NONE
           | Some (part, addr) \<Rightarrow>
               let ip = ip OR push_bit (24 - i * 8) part
               in if i < 3
                  then (case addr of
                          [] \<Rightarrow> INADDR_NONE
                        | c # addr \<Rightarrow>
                            if c \<noteq> 46 then INADDR_NONE
                            else if addr = [] then INADDR_NONE
                            else inet_loop k addr ip)
                  else if addr \<noteq> [] then INADDR_NONE
                  else inet_loop k addr ip)"

definition tcp_inet_addr :: "u8 list option \<Rightarrow> u32" where
  "tcp_inet_addr addr =
     (case addr of
        None \<Rightarrow> 0
      | Some s \<Rightarrow> if s = [] then 0 else inet_loop 4 s 0)"

section \<open>Sockets\<close>

datatype socket_state =
    SOCKET_CLOSED | SOCKET_LISTEN | SOCKET_SYN_SENT | SOCKET_SYN_RECV | SOCKET_ESTABLISHED | SOCKET_FIN_WAIT_1
  | SOCKET_FIN_WAIT_2 | SOCKET_CLOSE_WAIT | SOCKET_CLOSING | SOCKET_LAST_ACK | SOCKET_TIME_WAIT

record net_socket =
  local_ip :: u32
  local_port :: u16
  remote_ip :: u32
  remote_port :: u16
  sock_state :: socket_state
  send_seq :: u32
  recv_ack :: u32
  recv_buf :: u32
  recv_len :: u32
  send_buf :: u32
  send_len :: u32

record net_if =
  if_mac :: "u8 list"
  if_ip :: u32
  if_netmask :: u32
  if_gateway :: u32
  if_sockets :: "net_socket list"
  if_socket_count :: int

definition upd_socket :: "nat \<Rightarrow> (net_socket \<Rightarrow> net_socket) \<Rightarrow> net_if \<Rightarrow> net_if" where
  "upd_socket i f n = n\<lparr>if_sockets := (if_sockets n)[i := f (if_sockets n ! i)]\<rparr>"

definition tcp_memcpy :: "mem \<Rightarrow> u32 \<Rightarrow> u32 \<Rightarrow> u32 \<Rightarrow> mem" where
  "tcp_memcpy m dest src n = copy_bytes m dest src (unat n)"

definition tcp_init :: "mem \<Rightarrow> net_if option \<Rightarrow> u32 \<Rightarrow> u32 \<Rightarrow> int \<times> net_if option" where
  "tcp_init m iface mac ip =
     (case iface of
        None \<Rightarrow> (- 1, iface)
      | Some n \<Rightarrow>
          if mac = 0 then (- 1, iface)
          else let gw = (ip AND 0xFFFFFF00) OR 1;
                   n = n\<lparr>if_mac := map (\<lambda>k. m (mac + of_nat k)) [0..<6], if_ip := ip, if_netmask := 0xFFFFFF00,
                         if_gateway := gw, if_socket_count := 0\<rparr>
               in (0, Some (fold (\<lambda>i. upd_socket i (\<lambda>s. s\<lparr>sock_state := SOCKET_CLOSED\<rparr>)) [0..<16] n)))"

definition tcp_socket :: "net_if option \<Rightarrow> u16 \<Rightarrow> int \<times> net_if option" where
  "tcp_socket iface port =
     (case iface of
        None \<Rightarrow> (- 1, iface)
      | Some n \<Rightarrow>
          (case find (\<lambda>i. sock_state (if_sockets n ! i) = SOCKET_CLOSED) [0..<16] of
             None \<Rightarrow> (- 1, iface)
           | Some i \<Rightarrow>
               let n = upd_socket i (\<lambda>s. s\<lparr>local_port := port, local_ip := if_ip n, sock_state := SOCKET_CLOSED,
                         send_seq := 0, recv_ack := 0\<rparr>) n
               in (int i, Some (n\<lparr>if_socket_count := if_socket_count n + 1\<rparr>))))"

definition bad_fd :: "int \<Rightarrow> bool" where
  "bad_fd fd \<longleftrightarrow> fd < 0 \<or> 16 \<le> fd"

definition tcp_listen :: "net_if option \<Rightarrow> int \<Rightarrow> int \<times> net_if option" where
  "tcp_listen iface fd =
     (case iface of
        None \<Rightarrow> (- 1, iface)
      | Some n \<Rightarrow>
          if bad_fd fd then (- 1, iface)
          else (0, Some (upd_socket (nat fd) (\<lambda>s. s\<lparr>sock_state := SOCKET_LISTEN\<rparr>) n)))"

definition tcp_accept :: "net_if option \<Rightarrow> int \<Rightarrow> int" where
  "tcp_accept iface fd = - 1"

definition tcp_connect :: "net_if option \<Rightarrow> int \<Rightarrow> u32 \<Rightarrow> u16 \<Rightarrow> int \<times> net_if option" where
  "tcp_connect iface fd ip port =
     (case iface of
        None \<Rightarrow> (- 1, iface)
      | Some n \<Rightarrow>
          if bad_fd fd then (- 1, iface)
          else (0, Some (upd_socket (nat fd)
                 (\<lambda>s. s\<lparr>remote_ip := ip, remote_port := port, sock_state := SOCKET_SYN_SENT, send_seq := 1000\<rparr>) n)))"

definition tcp_send :: "net_if option \<Rightarrow> int \<Rightarrow> u32 \<Rightarrow> u32 \<Rightarrow> int \<times> net_if option" where
  "tcp_send iface fd data len =
     (case iface of
        None \<Rightarrow> (- 1, iface)
      | Some n \<Rightarrow>
          if bad_fd fd \<or> data = 0 then (- 1, iface)
          else if sock_state (if_sockets n ! nat fd) \<noteq> SOCKET_ESTABLISHED then (- 1, iface)
          else (sint len, Some (upd_socket (nat fd) (\<lambda>s. s\<lparr>send_seq := send_seq s + len\<rparr>) n)))"

definition tcp_recv :: "mem \<Rightarrow> net_if option \<Rightarrow> int \<Rightarrow> u32 \<Rightarrow> u32 \<Rightarrow> int \<times> mem \<times> net_if option" where
  "tcp_recv m iface fd buf len =
     (case iface of
        None \<Rightarrow> (- 1, m, iface)
      | Some n \<Rightarrow>
          if bad_fd fd \<or> buf = 0 then (- 1, m, iface)
          else let sock = if_sockets n ! nat fd
          in if sock_state sock \<noteq> SOCKET_ESTABLISHED then (- 1, m, iface)
          else if recv_len sock = 0 then (0, m, iface)
          else let to_copy = (if len < recv_len sock then len else recv_len sock);
                   m = tcp_memcpy m buf (recv_buf sock) to_copy
               in (sint to_copy, m, Some (upd_socket (nat fd)
                     (\<lambda>s. s\<lparr>recv_len := recv_len s - to_copy, recv_ack := recv_ack s + to_copy\<rparr>) n)))"

definition tcp_close :: "net_if option \<Rightarrow> int \<Rightarrow> int \<times> net_if option" where
  "tcp_close iface fd =
     (case iface of
        None \<Rightarrow> (- 1, iface)
      | Some n \<Rightarrow>
          if bad_fd fd then (- 1, iface)
          else let n = upd_socket (nat fd) (\<lambda>s. s\<lparr>sock_state :=
                     (if sock_state s = SOCKET_ESTABLISHED then SOCKET_FIN_WAIT_1 else SOCKET_CLOSED)\<rparr>) n
               in (0, Some (n\<lparr>if_socket_count := if_socket_count n - 1\<rparr>)))"

section \<open>Packets\<close>

text \<open>The packed headers in memory: 14 bytes of Ethernet, 20 of IP, 20 of TCP; 16-bit fields are read in
  the byte order of the machine.\<close>

definition rd16 :: "mem \<Rightarrow> u32 \<Rightarrow> u16" where
  "rd16 m a = ucast (m a) OR push_bit 8 (ucast (m (a + 1)))"

record packet_header =
  p_src_ip :: u32
  p_dest_ip :: u32
  p_src_port :: u16
  p_dest_port :: u16
  p_seq_num :: u32
  p_ack_num :: u32
  p_flags :: u8

definition read_header :: "mem \<Rightarrow> u32 \<Rightarrow> packet_header" where
  "read_header m packet =
     (let ip = packet + 14; tcp = packet + 34
      in \<lparr>p_src_ip = rd32 m (ip + 12), p_dest_ip = rd32 m (ip + 16), p_src_port = rd16 m tcp,
          p_dest_port = rd16 m (tcp + 2), p_seq_num = rd32 m (tcp + 4), p_ack_num = rd32 m (tcp + 8),
          p_flags = m (tcp + 13)\<rparr>)"

definition TCP_FIN :: u8 where "TCP_FIN = 0x01"

definition TCP_SYN :: u8 where "TCP_SYN = 0x02"

definition TCP_ACK :: u8 where "TCP_ACK = 0x10"

text \<open>One pass of the loop over the sockets: \<open>None\<close> goes on with the next socket, \<open>Some\<close> is the socket
  as the packet leaves it, and the function returns 0.\<close>

definition match_socket :: "packet_header \<Rightarrow> net_socket \<Rightarrow> net_socket option" where
  "match_socket p sock =
     (if sock_state sock = SOCKET_LISTEN \<and> p_dest_port p = local_port sock then
        Some (if p_flags p AND TCP_SYN \<noteq> 0
              then sock\<lparr>remote_ip := p_src_ip p, remote_port := p_src_port p, sock_state := SOCKET_SYN_RECV,
                     recv_ack := p_seq_num p + 1\<rparr>
              else sock)
      else if local_port sock = p_dest_port p \<and> remote_port sock = p_src_port p \<and> remote_ip sock = p_src_ip p then
        let sock = (if p_flags p AND TCP_ACK \<noteq> 0
                    then (if sock_state sock = SOCKET_SYN_SENT then sock\<lparr>sock_state := SOCKET_ESTABLISHED\<rparr> else sock)
                           \<lparr>send_seq := p_ack_num p\<rparr>
                    else sock)
        in Some (if p_flags p AND TCP_FIN \<noteq> 0 then sock\<lparr>sock_state := SOCKET_CLOSE_WAIT\<rparr> else sock)
      else None)"

fun match_loop :: "packet_header \<Rightarrow> net_socket list \<Rightarrow> net_socket list option" where
  "match_loop p [] = None"
| "match_loop p (sock # socks) =
     (case match_socket p sock of
        Some sock \<Rightarrow> Some (sock # socks)
      | None \<Rightarrow> map_option (\<lambda>socks. sock # socks) (match_loop p socks))"

definition tcp_process_packet :: "mem \<Rightarrow> net_if option \<Rightarrow> u32 \<Rightarrow> u32 \<Rightarrow> int \<times> net_if option" where
  "tcp_process_packet m iface packet len =
     (case iface of
        None \<Rightarrow> (- 1, iface)
      | Some n \<Rightarrow>
          if packet = 0 \<or> len < 14 + 20 + 20 then (- 1, iface)
          else let p = read_header m packet
          in if p_dest_ip p \<noteq> if_ip n then (- 1, iface)
          else case match_loop p (if_sockets n) of
                 None \<Rightarrow> (- 1, iface)
               | Some socks \<Rightarrow> (0, Some (n\<lparr>if_sockets := socks\<rparr>)))"

section \<open>The checksum is the one's complement sum\<close>

definition bytes_at :: "mem \<Rightarrow> u32 \<Rightarrow> nat \<Rightarrow> u8 list" where
  "bytes_at m p n = map (\<lambda>k. m (p + of_nat k)) [0..<n]"

fun word_sum :: "u8 list \<Rightarrow> nat" where
  "word_sum [] = 0"
| "word_sum [a] = unat a"
| "word_sum (a # b # bs) = unat a + 256 * unat b + word_sum bs"

text \<open>The representative of a sum in one's complement arithmetic: zero only for zero.\<close>

definition ones_sum :: "nat \<Rightarrow> nat" where
  "ones_sum n = (if n = 0 then 0 else if n mod 65535 = 0 then 65535 else n mod 65535)"

lemma bytes_at_simps [simp]:
  "bytes_at m p 0 = []"
  "bytes_at m p (Suc n) = m p # bytes_at m (p + 1) n"
  by (simp_all add: bytes_at_def upt_conv_Cons map_Suc_upt [symmetric] add_ac del: upt_Suc map_Suc_upt)

lemma length_bytes_at [simp]: "length (bytes_at m p n) = n"
  by (simp add: bytes_at_def)

lemma byte_less: "unat (b :: u8) < 256"
  using unsigned_less [of b, where 'a = nat] by simp

lemma unat_ucast_byte [simp]: "unat (ucast (b :: u8) :: u16) = unat b" "unat (ucast (b :: u8) :: u32) = unat b"
  using byte_less [of b] by (simp_all add: unsigned_ucast_eq take_bit_eq_mod)

lemma unat_ucast_half [simp]: "unat (ucast (w :: u16) :: u32) = unat w"
  using unsigned_less [of w, where 'a = nat] by (simp add: unsigned_ucast_eq take_bit_eq_mod)

lemma unat_byte_pair: "unat (ucast a OR push_bit 8 (ucast b) :: u16) = unat (a :: u8) + 256 * unat (b :: u8)"
proof -
  note a = byte_less [of a] byte_less [of b]
  have "(ucast a :: u16) AND push_bit 8 (ucast b) = 0"
    by (rule bit_word_eqI) (auto simp: bit_simps dest: bit_imp_le_length)
  then have "(ucast a OR push_bit 8 (ucast b) :: u16) = ucast a + push_bit 8 (ucast b)"
    by (simp add: disjunctive_add_eq_or)
  then show ?thesis using a by (simp add: push_bit_eq_mult unat_word_ariths)
qed

lemma word_sum_bound: "word_sum bs \<le> 65535 * ((length bs + 1) div 2)"
proof (induction bs rule: word_sum.induct)
  case (2 a)
  show ?case using byte_less [of a] by simp
next
  case (3 a b bs)
  then show ?case using byte_less [of a] byte_less [of b] by simp
qed simp

lemma sum_words_correct:
  "unat s + word_sum (bytes_at m p n) < 4294967296 \<Longrightarrow>
     unat (sum_words m p n s) = unat s + word_sum (bytes_at m p n)"
proof (induction m p n s rule: sum_words.induct)
  case (2 m p s)
  then show ?case by (simp add: unat_add_no_wrap)
next
  case (3 m p n s)
  let ?w = "ucast (ucast (m p) OR push_bit 8 (ucast (m (p + 1))) :: u16) :: u32"
  have "unat (s + ?w) = unat s + unat ?w" using 3(2) by (intro unat_add_no_wrap) (simp add: unat_byte_pair)
  then show ?case using 3 by (simp add: unat_byte_pair add_ac)
qed simp

lemma ones_step: "65536 \<le> n \<Longrightarrow> ones_sum (n mod 65536 + n div 65536) = ones_sum n"
proof -
  assume "65536 \<le> n"
  then have d: "0 < n div 65536" by (simp add: div_greater_zero_iff)
  have "n = n div 65536 * 65535 + (n mod 65536 + n div 65536)" using div_mult_mod_eq [of n 65536] by linarith
  then have "n mod 65535 = (n mod 65536 + n div 65536) mod 65535" by (metis mod_mult_self3)
  moreover have "0 < n" using \<open>65536 \<le> n\<close> by simp
  ultimately show ?thesis using d by (simp add: ones_sum_def)
qed

lemma fold_sum_correct: "unat (fold_sum s) = ones_sum (unat s)"
proof (induction s rule: fold_sum.induct)
  case (1 s)
  show ?case
  proof (cases "drop_bit 16 s = 0")
    case True
    then have "unat s div 65536 = 0" using halves(2) [of s] by simp
    then have "unat s < 65536" by (simp add: div_eq_0_iff)
    then have "ones_sum (unat s) = unat s" by (cases "unat s = 65535") (auto simp: ones_sum_def)
    then show ?thesis using True by (subst fold_sum.simps) simp
  next
    case False
    then have "65536 \<le> unat s" using halves(2) [of s] by (metis div_less not_le unat_eq_zero)
    then show ?thesis using 1 [OF False] False by (subst fold_sum.simps) (simp add: fold_step ones_step)
  qed
qed

lemma ones_sum_less: "ones_sum n < 65536"
  using mod_less_divisor [of 65535 n] by (auto simp: ones_sum_def)

lemma unat_not_16: "unat w < 65536 \<Longrightarrow> unat (ucast (NOT w :: u32) :: u16) = 65535 - unat w"
proof -
  assume w: "unat w < 65536"
  have "NOT w = 4294967295 - w" by (simp add: not_eq_complement)
  moreover have "w \<le> 4294967295" using unat_less_2p32 [of w] by (simp add: word_le_nat_alt del: unat_less_2p32)
  ultimately have "unat (NOT w) = 4294967295 - unat w" by (simp add: unat_sub)
  also have "\<dots> = 65535 * 65536 + (65535 - unat w)" using w by simp
  finally have eq: "unat (NOT w) = 65535 * 65536 + (65535 - unat w)" .
  have "unat (NOT w) mod 65536 = 65535 - unat w" unfolding eq mod_mult_self3 by simp
  then show ?thesis by (simp add: unsigned_ucast_eq take_bit_eq_mod)
qed

lemma tcp_checksum_sum:
  assumes "unat len \<le> 131072"
  shows "unat (tcp_checksum m data len) = 65535 - ones_sum (word_sum (bytes_at m data (unat len)))"
proof -
  have "word_sum (bytes_at m data (unat len)) < 4294967296"
    using word_sum_bound [of "bytes_at m data (unat len)"] assms by simp
  then show ?thesis unfolding tcp_checksum_def
    by (subst unat_not_16) (simp_all add: fold_sum_correct sum_words_correct ones_sum_less)
qed

lemma tcp_checksum_zero:
  assumes "unat len \<le> 131072"
  shows "tcp_checksum m data len = 0 \<longleftrightarrow>
    0 < word_sum (bytes_at m data (unat len)) \<and> 65535 dvd word_sum (bytes_at m data (unat len))"
proof -
  have "tcp_checksum m data len = 0 \<longleftrightarrow> unat (tcp_checksum m data len) = 0" by (simp add: word_unat_eq_iff)
  also have "\<dots> \<longleftrightarrow> ones_sum (word_sum (bytes_at m data (unat len))) = 65535"
    using ones_sum_less [of "word_sum (bytes_at m data (unat len))"] unfolding tcp_checksum_sum [OF assms] by auto
  also have "\<dots> \<longleftrightarrow> 0 < word_sum (bytes_at m data (unat len)) \<and> 65535 dvd word_sum (bytes_at m data (unat len))"
    using mod_less_divisor [of 65535 "word_sum (bytes_at m data (unat len))"]
    by (auto simp: ones_sum_def dvd_eq_mod_eq_0 simp del: mod_less_divisor)
  finally show ?thesis .
qed

definition weight :: "nat \<Rightarrow> nat" where
  "weight k = (if even k then 1 else 256)"

lemma word_sum_update:
  "k < length bs \<Longrightarrow> word_sum (bs[k := x]) + weight k * unat (bs ! k) = word_sum bs + weight k * unat x"
proof (induction bs arbitrary: k rule: word_sum.induct)
  case (3 a b bs)
  consider "k = 0" | "k = 1" | j where "k = Suc (Suc j)" by (metis One_nat_def not0_implies_Suc)
  then show ?case
  proof cases
    case 3
    then show ?thesis using "3.IH" [of j] "3.prems" by (simp add: weight_def)
  qed (simp_all add: weight_def)
qed (simp_all add: weight_def)

lemma bytes_at_update:
  "k < n \<Longrightarrow> n \<le> 4294967296 \<Longrightarrow> bytes_at (m(p + of_nat k := x)) p n = (bytes_at m p n)[k := x]"
  by (rule nth_equalityI) (auto simp: bytes_at_def nth_list_update of_nat_32_eq_iff)

lemma bytes_at_nth: "k < n \<Longrightarrow> bytes_at m p n ! k = m (p + of_nat k)"
  by (simp add: bytes_at_def)

lemma not_dvd_near: "a \<noteq> b \<Longrightarrow> d dvd a \<Longrightarrow> a < b + d \<Longrightarrow> b < a + d \<Longrightarrow> \<not> d dvd b" for a b d :: nat
  by (metis add_less_cancel_left dvd_diff_nat dvd_imp_le le_add_diff_inverse linorder_not_less nat_less_le
      not_less_iff_gr_or_eq zero_less_diff)

lemma weight_range: "u < 256 \<Longrightarrow> v < 256 \<Longrightarrow> u \<noteq> v \<Longrightarrow> s + weight j * u = t + weight j * v \<Longrightarrow>
    s \<noteq> t \<and> s < t + 65535 \<and> t < s + 65535"
  by (auto simp: weight_def split: if_splits)

lemma split_half: "unat (ucast c :: u8) + 256 * unat (ucast (drop_bit 8 c) :: u8) = unat (c :: u16)"
proof -
  have "unat (ucast c :: u8) = unat c mod 256" by (simp add: unsigned_ucast_eq take_bit_eq_mod)
  moreover have "unat (ucast (drop_bit 8 c) :: u8) = unat c div 256"
    using unsigned_less [of c, where 'a = nat]
    by (simp add: unsigned_ucast_eq take_bit_eq_mod drop_bit_eq_div unat_div less_mult_imp_div_less)
  ultimately show ?thesis by simp
qed

definition store_checksum :: "mem \<Rightarrow> u32 \<Rightarrow> nat \<Rightarrow> u16 \<Rightarrow> mem" where
  "store_checksum m data k c = m(data + of_nat k := ucast c, data + of_nat (k + 1) := ucast (drop_bit 8 c))"

lemma stored_sum:
  assumes "even k" "k + 1 < n" "n \<le> 4294967296" "m (data + of_nat k) = 0" "m (data + of_nat (k + 1)) = 0"
  shows "word_sum (bytes_at (store_checksum m data k c) data n) = word_sum (bytes_at m data n) + unat c"
proof -
  let ?bs = "bytes_at m data n" and ?lo = "ucast c :: u8" and ?hi = "ucast (drop_bit 8 c) :: u8"
  have "bytes_at (store_checksum m data k c) data n = ?bs[k := ?lo, k + 1 := ?hi]"
    unfolding store_checksum_def using assms(2,3) by (simp add: bytes_at_update del: of_nat_add of_nat_Suc)
  moreover have "word_sum (?bs[k := ?lo]) = word_sum ?bs + unat ?lo"
    using word_sum_update [of k ?bs ?lo] assms by (simp add: weight_def bytes_at_nth)
  moreover have "word_sum (?bs[k := ?lo, k + 1 := ?hi]) = word_sum (?bs[k := ?lo]) + 256 * unat ?hi"
    using word_sum_update [of "k + 1" "?bs[k := ?lo]" ?hi] assms by (simp add: weight_def bytes_at_nth)
  ultimately show ?thesis using split_half [of c] by simp
qed

lemma ones_complete: "0 < s + (65535 - ones_sum s) \<and> 65535 dvd s + (65535 - ones_sum s)"
proof (cases "s mod 65535 = 0")
  case True
  then show ?thesis by (auto simp: ones_sum_def dvd_eq_mod_eq_0)
next
  case False
  define q r where "q = s div 65535" and "r = s mod 65535"
  have "s = q * 65535 + r" "r < 65535" by (simp_all add: q_def r_def)
  then have "s + (65535 - s mod 65535) = (q + 1) * 65535" unfolding r_def [symmetric] by simp
  moreover have "ones_sum s = s mod 65535" "0 < s" using False by (auto simp: ones_sum_def intro!: gr0I)
  ultimately show ?thesis by (metis add_gr_0 dvd_triv_right)
qed

text \<open>C28. The Internet checksum protects a packet. When the two bytes of the checksum field, at an even
  offset, are zero and the checksum of the packet is stored there, the checksum of the result is 0; and
  when after that any one byte of the packet is changed, it is not 0.\<close>

theorem checksum_protects:
  assumes len: "unat len \<le> 131072" and k: "even k" "k + 1 < unat len"
    and zero: "m (data + of_nat k) = 0" "m (data + of_nat (k + 1)) = 0"
  defines "m' \<equiv> store_checksum m data k (tcp_checksum m data len)"
  shows "tcp_checksum m' data len = 0 \<and>
    (\<forall>j<unat len. \<forall>x. x \<noteq> m' (data + of_nat j) \<longrightarrow> tcp_checksum (m'(data + of_nat j := x)) data len \<noteq> 0)"
proof -
  let ?S = "\<lambda>m. word_sum (bytes_at m data (unat len))"
  have n: "unat len \<le> 4294967296" using len by simp
  have "?S m' = ?S m + (65535 - ones_sum (?S m))"
    unfolding m'_def stored_sum [OF k n zero] tcp_checksum_sum [OF len] by (rule refl)
  then have ok: "0 < ?S m'" "65535 dvd ?S m'" using ones_complete [of "?S m"] by (simp_all only:)
  have "tcp_checksum (m'(data + of_nat j := x)) data len \<noteq> 0" if j: "j < unat len" "x \<noteq> m' (data + of_nat j)" for j x
  proof -
    let ?b = "m' (data + of_nat j)"
    have "?S (m'(data + of_nat j := x)) + weight j * unat ?b = ?S m' + weight j * unat x"
      using word_sum_update [of j "bytes_at m' data (unat len)" x] j(1) n by (simp add: bytes_at_update bytes_at_nth)
    then have "?S (m'(data + of_nat j := x)) \<noteq> ?S m' \<and> ?S (m'(data + of_nat j := x)) < ?S m' + 65535
        \<and> ?S m' < ?S (m'(data + of_nat j := x)) + 65535"
      using j(2) by (intro weight_range [OF byte_less byte_less]) (auto simp: word_unat_eq_iff)
    then show ?thesis using ok(2) not_dvd_near [of "?S m'" "?S (m'(data + of_nat j := x))" 65535]
      by (auto simp: tcp_checksum_zero [OF len])
  qed
  then show ?thesis using ok by (simp add: tcp_checksum_zero [OF len])
qed

theorem checksum_protects_witness:
  "tcp_checksum (store_checksum (\<lambda>_. 0) 0x1000 0 (tcp_checksum (\<lambda>_. 0) 0x1000 4)) 0x1000 4 = 0"
  using checksum_protects [of 4 0 "\<lambda>_. 0" "0x1000"] by simp

section \<open>The address parser accepts the dotted quads\<close>

definition digit :: "u8 \<Rightarrow> bool" where
  "digit c \<longleftrightarrow> 48 \<le> c \<and> c \<le> 57"

definition dec_from :: "nat \<Rightarrow> u8 list \<Rightarrow> nat" where
  "dec_from v s = foldl (\<lambda>v c. v * 10 + (unat c - 48)) v s"

definition octet :: "u8 list \<Rightarrow> bool" where
  "octet s \<longleftrightarrow> s \<noteq> [] \<and> length s \<le> 3 \<and> list_all digit s \<and> dec_from 0 s \<le> 255"

lemma dec_from_simps [simp]:
  "dec_from v [] = v" "dec_from v (c # s) = dec_from (v * 10 + (unat c - 48)) s"
  by (simp_all add: dec_from_def)

lemma dec_from_ge: "v \<le> dec_from v s"
proof (induction s arbitrary: v)
  case (Cons c s)
  show ?case using Cons [of "v * 10 + (unat c - 48)"] by simp
qed simp

lemma digit_step: "digit c \<Longrightarrow> v \<le> 255 \<Longrightarrow> of_nat v * 10 + (ucast c - 48) = (of_nat (v * 10 + (unat c - 48)) :: u32)"
  by (simp add: digit_def word_le_nat_alt of_nat_diff)

lemma parse_part_correct:
  "v \<le> 255 \<Longrightarrow> d \<le> 3 \<Longrightarrow> parse_part s (of_nat v) d =
     (if dec_from v (takeWhile digit s) \<le> 255 \<and> d + length (takeWhile digit s) \<le> 3
      then Some (of_nat (dec_from v (takeWhile digit s)), dropWhile digit s) else None)"
proof (induction s arbitrary: v d)
  case (Cons c s)
  show ?case
  proof (cases "digit c")
    case True
    let ?v = "v * 10 + (unat c - 48)"
    have "?v < 4294967296" using Cons.prems(1) byte_less [of c] by simp
    then have over: "(255 :: u32) < of_nat ?v \<longleftrightarrow> 255 < ?v" by (simp add: word_less_nat_alt del: of_nat_add of_nat_mult)
    have "parse_part (c # s) (of_nat v) d =
        (if 255 < ?v then None else if 3 < d + 1 then None else parse_part s (of_nat ?v) (d + 1))"
      using True Cons.prems(1) over by (simp add: digit_step digit_def [symmetric] Let_def del: of_nat_add of_nat_mult)
    then show ?thesis
      using True Cons.IH [of ?v "d + 1"] dec_from_ge [of ?v "takeWhile digit s"] by (simp del: of_nat_add of_nat_mult)
  next
    case False
    then show ?thesis using Cons.prems by (simp add: digit_def [symmetric])
  qed
qed simp

lemma inet_step:
  assumes "k \<le> 3"
  shows "inet_loop (Suc k) s ip =
    (let ds = takeWhile digit s; rest = dropWhile digit s; ip' = ip OR push_bit (8 * k) (of_nat (dec_from 0 ds))
     in if \<not> octet ds then INADDR_NONE
        else if k = 0 then if rest = [] then ip' else INADDR_NONE
        else if rest \<noteq> [] \<and> hd rest = 46 \<and> tl rest \<noteq> [] then inet_loop k (tl rest) ip' else INADDR_NONE)"
proof -
  have shift: "24 - (3 - k) * 8 = 8 * k" "3 - k < 3 \<longleftrightarrow> k \<noteq> 0" using assms by auto
  have part: "parse_part s 0 0 = (if dec_from 0 (takeWhile digit s) \<le> 255 \<and> length (takeWhile digit s) \<le> 3
      then Some (of_nat (dec_from 0 (takeWhile digit s)), dropWhile digit s) else None)"
    using parse_part_correct [of 0 0 s] by simp
  have start: "s = [] \<or> hd s < 48 \<or> 57 < hd s \<longleftrightarrow> takeWhile digit s = []"
    by (cases s) (auto simp: digit_def)
  have all: "list_all digit (takeWhile digit s)" by (auto simp: list_all_iff dest: set_takeWhileD)
  define ds rest where "ds = takeWhile digit s" and "rest = dropWhile digit s"
  show ?thesis
    using all unfolding inet_loop.simps Let_def part start shift ds_def [symmetric] rest_def [symmetric]
    by (cases rest) (auto simp: octet_def)
qed

declare inet_loop.simps(2) [simp del]

definition dotted :: "u8 list \<Rightarrow> u8 list \<Rightarrow> u8 list \<Rightarrow> u8 list \<Rightarrow> u8 list" where
  "dotted a b c d = a @ [46] @ b @ [46] @ c @ [46] @ d"

lemma octet_split:
  assumes "octet a" "t = [] \<or> hd t = 46"
  shows "takeWhile digit (a @ t) = a" "dropWhile digit (a @ t) = t"
proof -
  have "\<forall>x\<in>set a. digit x" using assms(1) by (simp add: octet_def list_all_iff)
  moreover have "takeWhile digit t = []" "dropWhile digit t = t"
    using assms(2) by (cases t; auto simp: digit_def)+
  ultimately show "takeWhile digit (a @ t) = a" "dropWhile digit (a @ t) = t" by simp_all
qed

lemma octet_nonempty: "octet a \<Longrightarrow> a \<noteq> []"
  by (simp add: octet_def)

lemma inet_more:
  assumes "octet a" "t \<noteq> []" "k < 3"
  shows "inet_loop (Suc (Suc k)) (a @ 46 # t) ip = inet_loop (Suc k) t (ip OR push_bit (8 * Suc k) (of_nat (dec_from 0 a)))"
  using assms by (subst inet_step) (simp_all add: octet_split [of a "46 # t"] Let_def)

lemma inet_last: "octet a \<Longrightarrow> inet_loop (Suc 0) a ip = ip OR of_nat (dec_from 0 a)"
proof -
  assume a: "octet a"
  note split = octet_split [OF a, of "[]", unfolded append_Nil2]
  have "inet_loop (Suc 0) a ip = ip OR push_bit (8 * 0) (of_nat (dec_from 0 a))"
    unfolding inet_step [OF le0] Let_def split [OF disjI1 [OF refl]] using a by simp
  then show ?thesis by simp
qed

lemma inet_parts:
  assumes "inet_loop (Suc k) s ip \<noteq> INADDR_NONE" "k \<le> 3"
  shows "\<exists>a t. octet a \<and> (if k = 0 then s = a else s = a @ 46 # t \<and> (\<exists>ip. inet_loop k t ip \<noteq> INADDR_NONE))"
proof -
  let ?a = "takeWhile digit s" and ?r = "dropWhile digit s"
  have s: "s = ?a @ ?r" by simp
  have "octet ?a" using assms by (auto simp: inet_step Let_def split: if_splits)
  moreover have "k = 0 \<Longrightarrow> ?r = []" using assms by (auto simp: inet_step Let_def split: if_splits)
  moreover have "?r = 46 # tl ?r \<and> (\<exists>ip. inet_loop k (tl ?r) ip \<noteq> INADDR_NONE)" if "k \<noteq> 0"
    using assms that by (cases ?r) (auto simp: inet_step Let_def split: if_splits)
  ultimately show ?thesis using s by (metis append_Nil2)
qed

lemma inet_dotted:
  assumes "octet a" "octet b" "octet c" "octet d"
  shows "tcp_inet_addr (Some (dotted a b c d)) =
    push_bit 24 (of_nat (dec_from 0 a)) OR push_bit 16 (of_nat (dec_from 0 b)) OR
    push_bit 8 (of_nat (dec_from 0 c)) OR of_nat (dec_from 0 d)"
  using assms octet_nonempty [of a] octet_nonempty [of b] octet_nonempty [of c] octet_nonempty [of d]
  by (simp add: tcp_inet_addr_def dotted_def inet_more inet_last or.assoc numeral_eq_Suc)

text \<open>C29. The address parser accepts exactly the dotted quads. Four groups of one to three digits, each of
  a value up to 255, separated by dots, give the address with these values as its bytes, the first
  one highest; every other nonempty string gives \<open>INADDR_NONE\<close>.\<close>

theorem tcp_inet_addr_correct:
  "(octet a \<and> octet b \<and> octet c \<and> octet d \<longrightarrow> tcp_inet_addr (Some (dotted a b c d)) =
      push_bit 24 (of_nat (dec_from 0 a)) OR push_bit 16 (of_nat (dec_from 0 b)) OR
      push_bit 8 (of_nat (dec_from 0 c)) OR of_nat (dec_from 0 d)) \<and>
   (s \<noteq> [] \<and> (\<nexists>a b c d. octet a \<and> octet b \<and> octet c \<and> octet d \<and> s = dotted a b c d) \<longrightarrow>
      tcp_inet_addr (Some s) = INADDR_NONE)"
proof (intro conjI impI)
  assume "octet a \<and> octet b \<and> octet c \<and> octet d"
  then show "tcp_inet_addr (Some (dotted a b c d)) =
      push_bit 24 (of_nat (dec_from 0 a)) OR push_bit 16 (of_nat (dec_from 0 b)) OR
      push_bit 8 (of_nat (dec_from 0 c)) OR of_nat (dec_from 0 d)"
    by (simp add: inet_dotted)
next
  assume s: "s \<noteq> [] \<and> (\<nexists>a b c d. octet a \<and> octet b \<and> octet c \<and> octet d \<and> s = dotted a b c d)"
  show "tcp_inet_addr (Some s) = INADDR_NONE"
  proof (rule ccontr)
    assume "tcp_inet_addr (Some s) \<noteq> INADDR_NONE"
    then have "inet_loop (Suc 3) s 0 \<noteq> INADDR_NONE" using s by (simp add: tcp_inet_addr_def)
    then obtain a t i where "octet a" "s = a @ 46 # t" "inet_loop (Suc 2) t i \<noteq> INADDR_NONE"
      using inet_parts [of 3 s 0] by (auto simp: numeral_3_eq_3 numeral_2_eq_2)
    moreover from this obtain b u j where "octet b" "t = b @ 46 # u" "inet_loop (Suc 1) u j \<noteq> INADDR_NONE"
      using inet_parts [of 2 t i] by (auto simp: numeral_2_eq_2)
    moreover from this obtain c v l where "octet c" "u = c @ 46 # v" "inet_loop (Suc 0) v l \<noteq> INADDR_NONE"
      using inet_parts [of 1 u j] by auto
    moreover from this have "octet v" using inet_parts [of 0 v l] by auto
    ultimately show False using s by (auto simp: dotted_def)
  qed
qed

theorem tcp_inet_addr_correct_witness:
  "tcp_inet_addr (Some (dotted [49, 48] [48] [48] [49, 50])) = 0x0A00000C \<and> tcp_inet_addr (Some [49, 46, 120]) = INADDR_NONE"
proof -
  have o: "octet [49, 48]" "octet [48]" "octet [49, 50]" by (simp_all add: octet_def digit_def word_le_nat_alt)
  have "s \<noteq> dotted a b c d" if "length s = 3" "octet a" "octet b" "octet c" "octet d" for s a b c d
    using that octet_nonempty [of a] octet_nonempty [of d] by (auto simp: dotted_def)
  then show ?thesis
    using o tcp_inet_addr_correct [of "[49, 48]" "[48]" "[48]" "[49, 50]" "[49, 46, 120]"] by (auto simp: push_bit_eq_mult)
qed

section \<open>Faults of the socket layer\<close>

definition octet_byte :: "u8 list \<Rightarrow> u8" where
  "octet_byte a = of_nat (dec_from 0 a)"

lemma octet_ucast: "octet a \<Longrightarrow> of_nat (dec_from 0 a) = (ucast (octet_byte a) :: u32)"
  by (rule word_unat_eq_iff [THEN iffD2]) (simp add: octet_byte_def octet_def unat_of_nat)

lemma low_byte:
  "ucast (push_bit 24 (ucast a) OR push_bit 16 (ucast b) OR push_bit 8 (ucast c) OR ucast d :: u32) = (d :: u8)"
  "ucast (drop_bit 8 (push_bit 24 (ucast a) OR push_bit 16 (ucast b) OR push_bit 8 (ucast c) OR ucast d :: u32)) = (c :: u8)"
  for a b c d :: u8
  by (rule bit_word_eqI; auto simp: bit_simps dest: bit_imp_le_length)+

lemma rd32_bytes:
  "rd32 m p = push_bit 24 (ucast (m (p + 3))) OR push_bit 16 (ucast (m (p + 2))) OR push_bit 8 (ucast (m (p + 1))) OR ucast (m p)"
  by (simp add: rd32_def or.assoc or.commute or.left_commute)

text \<open>Header fields are compared without conversion from network byte order. When the address of the
  interface comes from \<open>tcp_inet_addr\<close>, a packet that carries this address in its destination field as
  the protocol prescribes, highest byte first, is rejected unless the address reads the same backwards.\<close>

theorem own_packet_rejected:
  assumes "octet a" "octet b" "octet c" "octet d" "if_ip n = tcp_inet_addr (Some (dotted a b c d))"
    and "m (packet + 30) = octet_byte a" "m (packet + 31) = octet_byte b"
      "m (packet + 32) = octet_byte c" "m (packet + 33) = octet_byte d"
    and "octet_byte a \<noteq> octet_byte d \<or> octet_byte b \<noteq> octet_byte c"
  shows "tcp_process_packet m (Some n) packet len = (- 1, Some n)"
proof -
  have "rd32 m (packet + 30) = push_bit 24 (ucast (octet_byte d)) OR push_bit 16 (ucast (octet_byte c)) OR
      push_bit 8 (ucast (octet_byte b)) OR ucast (octet_byte a)"
    unfolding rd32_bytes using assms(6-9) by (simp add: add.assoc)
  moreover have "if_ip n = push_bit 24 (ucast (octet_byte a)) OR push_bit 16 (ucast (octet_byte b)) OR
      push_bit 8 (ucast (octet_byte c)) OR ucast (octet_byte d)"
    using assms(1-5) by (simp add: inet_dotted octet_ucast)
  ultimately have "rd32 m (packet + 30) \<noteq> if_ip n"
    using assms(10) low_byte by metis
  then show ?thesis by (auto simp: tcp_process_packet_def read_header_def Let_def add.assoc)
qed

definition passive_sock :: "net_socket \<Rightarrow> bool" where
  "passive_sock sock \<longleftrightarrow> sock_state sock \<in> {SOCKET_LISTEN, SOCKET_SYN_RECV, SOCKET_CLOSE_WAIT}"

lemma match_socket_passive: "match_socket p sock = Some sock' \<Longrightarrow> passive_sock sock \<Longrightarrow> passive_sock sock'"
  by (auto simp: passive_sock_def match_socket_def Let_def split: if_splits)

lemma match_loop_length: "match_loop p socks = Some socks' \<Longrightarrow> length socks' = length socks"
  by (induction socks arbitrary: socks') (auto split: option.splits)

lemma match_loop_passive:
  "match_loop p socks = Some socks' \<Longrightarrow> i < length socks \<Longrightarrow> passive_sock (socks ! i) \<Longrightarrow> passive_sock (socks' ! i)"
proof (induction socks arbitrary: socks' i)
  case (Cons sock socks)
  then show ?case
    by (cases i) (auto split: option.splits dest: match_socket_passive)
qed simp

definition deliver :: "mem \<times> u32 \<times> u32 \<Rightarrow> net_if option \<Rightarrow> net_if option" where
  "deliver = (\<lambda>(m, packet, len) iface. snd (tcp_process_packet m iface packet len))"

lemma deliver_passive:
  assumes "length (if_sockets n) = 16" "i < 16" "passive_sock (if_sockets n ! i)"
  shows "\<exists>n'. deliver x (Some n) = Some n' \<and> length (if_sockets n') = 16 \<and> passive_sock (if_sockets n' ! i)"
  using assms
  by (auto simp: deliver_def tcp_process_packet_def Let_def match_loop_length match_loop_passive split: prod.splits option.splits)

text \<open>A connection that is opened by the other side is never established. Once a socket listens, whatever
  packets arrive, it only moves between listening, half open and half closed; \<open>tcp_accept\<close>, \<open>tcp_send\<close>
  and \<open>tcp_recv\<close> fail on it forever.\<close>

theorem passive_open_stuck:
  assumes "length (if_sockets n) = 16" "0 \<le> fd" "fd < 16" "tcp_listen (Some n) fd = (0, Some n0)"
  shows "\<exists>n'. fold deliver packets (Some n0) = Some n' \<and> tcp_accept (Some n') fd = - 1 \<and>
    tcp_send (Some n') fd data len = (- 1, Some n') \<and> tcp_recv m (Some n') fd buf len = (- 1, m, Some n')"
proof -
  have "length (if_sockets n0) = 16" "passive_sock (if_sockets n0 ! nat fd)"
    using assms by (auto simp: tcp_listen_def upd_socket_def passive_sock_def bad_fd_def)
  then have "\<exists>n'. fold deliver packets (Some n0) = Some n' \<and> length (if_sockets n') = 16 \<and> passive_sock (if_sockets n' ! nat fd)"
  proof (induction packets arbitrary: n0)
    case (Cons x packets)
    from deliver_passive [OF Cons.prems(1) _ Cons.prems(2), of x] assms(2,3) Cons.IH show ?case by fastforce
  qed simp
  then obtain n' where n': "fold deliver packets (Some n0) = Some n'" "passive_sock (if_sockets n' ! nat fd)" by blast
  then have "sock_state (if_sockets n' ! nat fd) \<noteq> SOCKET_ESTABLISHED" by (auto simp: passive_sock_def)
  then show ?thesis
    by (intro exI [of _ n'] conjI n'(1)) (simp_all add: tcp_accept_def tcp_send_def tcp_recv_def Let_def)
qed

definition demo_if :: net_if where
  "demo_if = \<lparr>if_mac = replicate 6 0, if_ip = 0x0A000001, if_netmask = 0xFFFFFF00, if_gateway = 0x0A000001,
     if_sockets = replicate 16 \<lparr>local_ip = 0, local_port = 80, remote_ip = 0, remote_port = 0, sock_state = SOCKET_CLOSED,
       send_seq = 0, recv_ack = 0, recv_buf = 0, recv_len = 0, send_buf = 0, send_len = 0\<rparr>, if_socket_count = 0\<rparr>"

theorem passive_open_stuck_witness:
  "\<exists>n'. fold deliver [((\<lambda>_. 0), 0x1000, 54)] (snd (tcp_listen (Some demo_if) 3)) = Some n' \<and>
     tcp_send (Some n') 3 0x2000 5 = (- 1, Some n')"
proof -
  have "length (if_sockets demo_if) = 16" by (simp add: demo_if_def)
  moreover obtain n0 where "tcp_listen (Some demo_if) 3 = (0, Some n0)" by (simp add: tcp_listen_def bad_fd_def)
  ultimately show ?thesis
    using passive_open_stuck [of demo_if 3 n0 "[((\<lambda>_. 0), 0x1000, 54)]" "0x2000" 5] by auto
qed

definition demo_packet :: mem where
  "demo_packet = (\<lambda>_. 0)(0x101E := 10, 0x1021 := 1)"

theorem own_packet_rejected_witness:
  "tcp_process_packet demo_packet (Some demo_if) 0x1000 54 = (- 1, Some demo_if)"
proof -
  have o: "octet [49, 48]" "octet [48]" "octet [49]" by (simp_all add: octet_def digit_def word_le_nat_alt)
  have "if_ip demo_if = tcp_inet_addr (Some (dotted [49, 48] [48] [48] [49]))"
    by (simp add: inet_dotted [OF o(1,2,2,3)] demo_if_def push_bit_eq_mult)
  then show ?thesis
    by (rule own_packet_rejected [OF o(1,2,2,3)]) (simp_all add: demo_packet_def octet_byte_def)
qed

text \<open>Two calls of \<open>tcp_socket\<close> without a call between them that leaves the closed state return the same
  descriptor.\<close>

lemma tcp_socket_shared:
  assumes "tcp_socket (Some n) p = (fd, Some n')" "0 \<le> fd" "length (if_sockets n) = 16"
  shows "fst (tcp_socket (Some n') q) = fd"
proof -
  obtain i where i: "find (\<lambda>i. sock_state (if_sockets n ! i) = SOCKET_CLOSED) [0..<16] = Some i" "fd = int i"
    and n': "map sock_state (if_sockets n') = map sock_state ((if_sockets n)[i := (if_sockets n ! i)\<lparr>sock_state := SOCKET_CLOSED\<rparr>])"
    using assms(1,2) by (auto simp: tcp_socket_def Let_def upd_socket_def map_update split: option.splits)
  have c: "sock_state (if_sockets n ! i) = SOCKET_CLOSED" "i < 16" using i(1) by (auto simp: find_Some_iff)
  have "map sock_state (if_sockets n') = map sock_state (if_sockets n)"
    using c unfolding n' by (simp add: map_update list_update_same_conv assms(3))
  then have "sock_state (if_sockets n' ! j) = sock_state (if_sockets n ! j)" if "j < 16" for j
    using that assms(3) by (metis length_map nth_map)
  then have "find (\<lambda>i. sock_state (if_sockets n' ! i) = SOCKET_CLOSED) [0..<16] = Some i"
    using i(1) find_cong [OF refl, of "[0..<16]" "\<lambda>i. sock_state (if_sockets n' ! i) = SOCKET_CLOSED"
      "\<lambda>i. sock_state (if_sockets n ! i) = SOCKET_CLOSED"] by simp
  then show ?thesis using i(2) by (simp add: tcp_socket_def Let_def)
qed

end
