(* ===== verification/Serial.thy ===== *)
theory Serial
  imports Console
begin

text \<open>
  The serial debug port of \<^verbatim>\<open>src/serial.c\<close>, with the port instructions of \<^verbatim>\<open>src/io.h\<close> as the other
  drivers use them. The hardware is an argument \<open>dev\<close>: the byte that the \<open>n\<close>-th input of the machine
  gives at a port, after the outputs made so far. The state \<open>machine\<close> counts the inputs and keeps the
  trace of the outputs; drivers with statics of their own extend the record.

  The lemmas show that every byte printed appears once and in order on the debug console and, when the
  transmitter is ready, on COM1, that a dead COM1 delays but never blocks, and that the decimal and
  hexadecimal printers print numerals of the value.
\<close>

section \<open>Port instructions\<close>

record machine =
  io_reads :: nat
  io_trace :: "(u16 \<times> u8) list"
  serial_initialized :: bool

type_synonym device = "nat \<Rightarrow> (u16 \<times> u8) list \<Rightarrow> u16 \<Rightarrow> u8"

definition port_in :: "device \<Rightarrow> u16 \<Rightarrow> 'a machine_scheme \<Rightarrow> u8 \<times> 'a machine_scheme" where
  "port_in dev port s = (dev (io_reads s) (io_trace s) port, s\<lparr>io_reads := io_reads s + 1\<rparr>)"

definition port_out :: "u16 \<Rightarrow> u8 \<Rightarrow> 'a machine_scheme \<Rightarrow> 'a machine_scheme" where
  "port_out port value s = s\<lparr>io_trace := io_trace s @ [(port, value)]\<rparr>"

definition io_wait :: "'a machine_scheme \<Rightarrow> 'a machine_scheme" where
  "io_wait s = port_out 0x80 0 s"

section \<open>The serial port\<close>

definition SERIAL_COM1_BASE :: u16 where "SERIAL_COM1_BASE = 0x3F8"

definition serial_is_transmit_empty :: "device \<Rightarrow> 'a machine_scheme \<Rightarrow> bool \<times> 'a machine_scheme" where
  "serial_is_transmit_empty dev s =
     (let (v, s) = port_in dev (SERIAL_COM1_BASE + 5) s in (v AND 0x20 \<noteq> 0, s))"

text \<open>The wait for the transmitter; the result is the value of \<open>timeout\<close> after the loop.\<close>

fun wait_transmit :: "device \<Rightarrow> nat \<Rightarrow> 'a machine_scheme \<Rightarrow> int \<times> 'a machine_scheme" where
  "wait_transmit dev timeout s =
     (let (e, s) = serial_is_transmit_empty dev s
      in if e then (int timeout, s)
         else case timeout of
                0 \<Rightarrow> (- 1, s)
              | Suc t \<Rightarrow> wait_transmit dev t s)"

definition serial_write_byte :: "device \<Rightarrow> u8 \<Rightarrow> 'a machine_scheme \<Rightarrow> 'a machine_scheme" where
  "serial_write_byte dev byte s =
     (let s = port_out 0xE9 byte s;
          (timeout, s) = wait_transmit dev 10000 s
      in if timeout \<le> 0 then s else port_out SERIAL_COM1_BASE byte s)"

definition serial_write_str :: "device \<Rightarrow> u8 list option \<Rightarrow> 'a machine_scheme \<Rightarrow> 'a machine_scheme" where
  "serial_write_str dev str s =
     (case str of None \<Rightarrow> s | Some cs \<Rightarrow> fold (serial_write_byte dev) cs s)"

definition serial_writeln :: "device \<Rightarrow> u8 list option \<Rightarrow> 'a machine_scheme \<Rightarrow> 'a machine_scheme" where
  "serial_writeln dev str s = serial_write_byte dev 10 (serial_write_byte dev 13 (serial_write_str dev str s))"

definition hex_chars :: "u8 list" where
  "hex_chars = ascii ''0123456789ABCDEF''"

definition serial_write_hex_digit :: "device \<Rightarrow> u8 \<Rightarrow> 'a machine_scheme \<Rightarrow> 'a machine_scheme" where
  "serial_write_hex_digit dev nibble s = serial_write_byte dev (hex_chars ! unat (nibble AND 0xF)) s"

definition serial_write_hex32 :: "device \<Rightarrow> u32 \<Rightarrow> 'a machine_scheme \<Rightarrow> 'a machine_scheme" where
  "serial_write_hex32 dev value s =
     fold (\<lambda>k. serial_write_hex_digit dev (ucast (drop_bit k value AND 0xF))) [28, 24, 20, 16, 12, 8, 4, 0]
       (serial_write_str dev (Some (ascii ''0x'')) s)"

definition serial_write_hex8 :: "device \<Rightarrow> u8 \<Rightarrow> 'a machine_scheme \<Rightarrow> 'a machine_scheme" where
  "serial_write_hex8 dev value s =
     fold (\<lambda>k. serial_write_hex_digit dev (drop_bit k value AND 0xF)) [4, 0]
       (serial_write_str dev (Some (ascii ''0x'')) s)"

text \<open>The digits in the order the code stores them in \<open>buf\<close>, the lowest first.\<close>

function dec_digits :: "u32 \<Rightarrow> u8 list" where
  "dec_digits value = (if 0 < value then (48 + ucast (value mod 10)) # dec_digits (value div 10) else [])"
  by auto

termination dec_digits
proof (relation "measure unat")
  fix v :: u32
  assume "0 < v"
  then have "0 < unat v" by (simp add: word_less_nat_alt)
  then show "(v div 10, v) \<in> measure unat" by (simp add: unat_div)
qed simp

declare dec_digits.simps [simp del]

definition serial_write_dec32 :: "device \<Rightarrow> u32 \<Rightarrow> 'a machine_scheme \<Rightarrow> 'a machine_scheme" where
  "serial_write_dec32 dev value s =
     (if value = 0 then serial_write_byte dev 48 s
      else fold (serial_write_byte dev) (rev (dec_digits value)) s)"

definition serial_init :: "device \<Rightarrow> 'a machine_scheme \<Rightarrow> 'a machine_scheme" where
  "serial_init dev s =
     (let s = port_out (SERIAL_COM1_BASE + 3) 0x80 s;
          s = port_out SERIAL_COM1_BASE 0x03 s;
          s = port_out (SERIAL_COM1_BASE + 1) 0x00 s;
          s = port_out (SERIAL_COM1_BASE + 3) 0x03 s;
          s = port_out (SERIAL_COM1_BASE + 1) 0x00 s;
          s = port_out (SERIAL_COM1_BASE + 2) 0xC7 s;
          s = port_out (SERIAL_COM1_BASE + 4) 0x0B s;
          s = s\<lparr>serial_initialized := True\<rparr>
      in serial_write_str dev (Some ([10] @ ascii ''[Tinx Serial Debug Initialized]'' @ [10])) s)"

section \<open>What reaches the ports\<close>

definition sent :: "u16 \<Rightarrow> 'a machine_scheme \<Rightarrow> u8 list" where
  "sent port s = map snd (filter (\<lambda>(p, _). p = port) (io_trace s))"

definition transmitter_ready :: "device \<Rightarrow> bool" where
  "transmitter_ready dev \<longleftrightarrow> (\<forall>n t. dev n t 0x3FD AND 0x20 \<noteq> 0)"

declare wait_transmit.simps [simp del]

lemma sent_port_out [simp]: "sent p (port_out q b s) = sent p s @ (if p = q then [b] else [])"
  by (simp add: sent_def port_out_def)

lemma reads_port_out [simp]: "io_reads (port_out q b s) = io_reads s"
  by (simp add: port_out_def)

lemma wait_transmit_step:
  "wait_transmit dev t s =
     (let s' = s\<lparr>io_reads := io_reads s + 1\<rparr>
      in if dev (io_reads s) (io_trace s) (SERIAL_COM1_BASE + 5) AND 0x20 \<noteq> 0 then (int t, s')
         else if t = 0 then (- 1, s') else wait_transmit dev (t - 1) s')"
  by (subst wait_transmit.simps) (simp add: serial_is_transmit_empty_def port_in_def Let_def split: nat.split)

lemma wait_transmit_frame: "\<exists>n \<le> io_reads s + t + 1. snd (wait_transmit dev t s) = s\<lparr>io_reads := n\<rparr>"
proof (induction t arbitrary: s)
  case 0
  show ?case by (subst wait_transmit_step) (auto simp: Let_def)
next
  case (Suc t)
  from Suc [of "s\<lparr>io_reads := io_reads s + 1\<rparr>"] show ?case
    by (subst wait_transmit_step) (auto simp: Let_def intro: exI [of _ "Suc (io_reads s)"])
qed

lemma wait_transmit_ready: "transmitter_ready dev \<Longrightarrow> fst (wait_transmit dev t s) = int t"
  by (subst wait_transmit.simps)
    (simp add: serial_is_transmit_empty_def port_in_def transmitter_ready_def SERIAL_COM1_BASE_def)

lemma wait_transmit_io [simp]:
  "sent p (snd (wait_transmit dev t s)) = sent p s"
  "io_reads (snd (wait_transmit dev t s)) \<le> io_reads s + t + 1"
  using wait_transmit_frame [of s t dev] by (auto simp: sent_def)

lemma serial_write_byte_eq:
  "serial_write_byte dev b s =
     (let (t, s) = wait_transmit dev 10000 (port_out 0xE9 b s) in if t \<le> 0 then s else port_out SERIAL_COM1_BASE b s)"
  by (simp add: serial_write_byte_def Let_def)

lemma serial_write_byte_sent:
  "sent 0xE9 (serial_write_byte dev b s) = sent 0xE9 s @ [b]"
  "transmitter_ready dev \<Longrightarrow> sent SERIAL_COM1_BASE (serial_write_byte dev b s) = sent SERIAL_COM1_BASE s @ [b]"
  "sent SERIAL_COM1_BASE (serial_write_byte dev b s) \<in> {sent SERIAL_COM1_BASE s, sent SERIAL_COM1_BASE s @ [b]}"
  "p \<notin> {0xE9, SERIAL_COM1_BASE} \<Longrightarrow> sent p (serial_write_byte dev b s) = sent p s"
  "io_reads (serial_write_byte dev b s) \<le> io_reads s + 10001"
  using wait_transmit_io(2) [of dev 10000 "port_out 0xE9 b s"] wait_transmit_ready [of dev 10000 "port_out 0xE9 b s"]
  by (simp_all add: serial_write_byte_eq SERIAL_COM1_BASE_def case_prod_beta del: wait_transmit_io(2))

definition prints :: "('a machine_scheme \<Rightarrow> 'a machine_scheme) \<Rightarrow> device \<Rightarrow> u8 list \<Rightarrow> bool" where
  "prints f dev cs \<longleftrightarrow> (\<forall>s. sent 0xE9 (f s) = sent 0xE9 s @ cs \<and>
     (transmitter_ready dev \<longrightarrow> sent SERIAL_COM1_BASE (f s) = sent SERIAL_COM1_BASE s @ cs) \<and>
     (\<forall>p. p \<notin> {0xE9, SERIAL_COM1_BASE} \<longrightarrow> sent p (f s) = sent p s) \<and>
     io_reads (f s) \<le> io_reads s + 10001 * length cs)"

lemma prints_byte: "prints (serial_write_byte dev b) dev [b]"
  by (simp add: prints_def serial_write_byte_sent)

lemma prints_comp: "prints f dev cs \<Longrightarrow> prints g dev ds \<Longrightarrow> prints (\<lambda>s. g (f s)) dev (cs @ ds)"
  unfolding prints_def by (auto intro: order.trans)

lemma prints_id: "prints (\<lambda>s. s) dev []"
  by (simp add: prints_def)

lemma prints_fold: "(\<And>x. x \<in> set xs \<Longrightarrow> prints (f x) dev (g x)) \<Longrightarrow> prints (fold f xs) dev (concat (map g xs))"
proof (induction xs)
  case Nil
  show ?case using prints_id by (simp add: id_def)
next
  case (Cons x xs)
  then have "prints (\<lambda>s. fold f xs (f x s)) dev (g x @ concat (map g xs))" by (intro prints_comp) simp_all
  then show ?case by (simp add: comp_def)
qed

lemma prints_bytes: "prints (fold (serial_write_byte dev) cs) dev cs"
  using prints_fold [of cs "serial_write_byte dev" dev "\<lambda>c. [c]"] by (simp add: prints_byte)

lemma prints_str: "prints (serial_write_str dev (Some cs)) dev cs"
  using prints_bytes by (simp add: serial_write_str_def [abs_def])

lemma prints_writeln: "prints (serial_writeln dev (Some cs)) dev (cs @ [13, 10])"
  using prints_comp [OF prints_comp [OF prints_str prints_byte [of dev 13]] prints_byte [of dev 10], of cs]
  by (simp add: serial_writeln_def [abs_def])

section \<open>Numerals\<close>

definition dec_value :: "u8 list \<Rightarrow> nat" where
  "dec_value = foldl (\<lambda>n c. n * 10 + (unat c - 48)) 0"

lemma dec_value_snoc [simp]: "dec_value [] = 0" "dec_value (xs @ [c]) = dec_value xs * 10 + (unat c - 48)"
  by (simp_all add: dec_value_def)

lemma unat_digit: "unat (48 + ucast (v mod 10 :: u32) :: u8) = 48 + unat v mod 10"
proof -
  have "unat v mod 10 < 10" by simp
  moreover have "unat (ucast (v mod 10) :: u8) = unat v mod 10"
    using \<open>unat v mod 10 < 10\<close> by (simp add: unsigned_ucast_eq take_bit_eq_mod unat_mod)
  ultimately show ?thesis by (simp add: unat_word_ariths)
qed

lemma dec_digits_value: "dec_value (rev (dec_digits v)) = unat v"
proof (induction v rule: dec_digits.induct)
  case (1 v)
  then show ?case
    by (subst dec_digits.simps) (simp add: unat_digit unat_div word_less_nat_alt)
qed

lemma dec_digits_digit: "c \<in> set (dec_digits v) \<Longrightarrow> 48 \<le> c \<and> c \<le> 57"
proof (induction v rule: dec_digits.induct)
  case (1 v)
  have "unat v mod 10 \<le> 9" using mod_less_divisor [of 10 "unat v"] by linarith
  then have "48 \<le> (48 + ucast (v mod 10) :: u8) \<and> (48 + ucast (v mod 10) :: u8) \<le> 57"
    by (simp add: word_le_nat_alt unat_digit)
  with 1 show ?case by (subst (asm) (2) dec_digits.simps) (auto split: if_splits)
qed

lemma dec_digits_length: "unat v < 10 ^ n \<Longrightarrow> length (dec_digits v) \<le> n"
proof (induction n arbitrary: v)
  case 0
  then have "v = 0" by (simp add: word_unat_eq_iff)
  then show ?case by (simp add: dec_digits.simps [of 0])
next
  case (Suc n)
  then have "unat (v div 10) < 10 ^ n" by (simp add: unat_div less_mult_imp_div_less mult.commute)
  from Suc.IH [OF this] show ?case by (subst dec_digits.simps) simp
qed

lemma dec_digits_last: "0 < v \<Longrightarrow> dec_digits v \<noteq> [] \<and> last (dec_digits v) \<noteq> 48"
proof (induction v rule: dec_digits.induct)
  case (1 v)
  show ?case
  proof (cases "0 < v div 10")
    case True
    with 1 show ?thesis by (subst (1 2) dec_digits.simps) auto
  next
    case False
    then have small: "unat v < 10" "0 < unat v" using 1(2) by (auto simp: word_less_nat_alt unat_div div_greater_zero_iff)
    have "dec_digits v = [48 + ucast (v mod 10)]"
      using 1(2) False by (subst dec_digits.simps, subst dec_digits.simps) simp
    moreover have "(48 + ucast (v mod 10) :: u8) \<noteq> 48"
    proof
      assume "(48 + ucast (v mod 10) :: u8) = 48"
      then have "unat (48 + ucast (v mod 10) :: u8) = 48" by simp
      then show False using small unfolding unat_digit by simp
    qed
    ultimately show ?thesis by simp
  qed
qed

definition hex_value :: "u8 list \<Rightarrow> nat" where
  "hex_value = foldl (\<lambda>n c. n * 16 + (if c \<le> 57 then unat c - 48 else unat c - 55)) 0"

definition hex32 :: "u32 \<Rightarrow> u8 list" where
  "hex32 v = map (\<lambda>k. hex_chars ! unat (drop_bit k v AND 0xF)) [28, 24, 20, 16, 12, 8, 4, 0]"

lemma nibble: "unat (drop_bit k v AND 0xF :: u32) = unat v div 2 ^ k mod 16"
proof -
  have "drop_bit k v AND 0xF = take_bit 4 (drop_bit k v)" by (simp add: take_bit_eq_mask mask_eq_exp_minus_1)
  then have "unat (drop_bit k v AND 0xF) = take_bit 4 (unat (drop_bit k v))" by (simp only: unsigned_take_bit_eq)
  also have "\<dots> = unat v div 2 ^ k mod 16" unfolding unat_drop_bit_eq unfolding take_bit_eq_mod drop_bit_eq_div by simp
  finally show ?thesis .
qed

lemma nibble_ucast: "unat ((ucast (drop_bit k v AND 0xF :: u32) :: u8) AND 0xF) = unat (drop_bit k v AND 0xF)"
proof -
  have "(ucast (drop_bit k v AND 0xF :: u32) :: u8) AND 0xF = ucast (drop_bit k v AND 0xF)"
    by (rule bit_word_eqI) (auto simp: bit_simps)
  moreover have "unat (drop_bit k v AND 0xF) < 16" by (simp add: nibble)
  ultimately show ?thesis by (simp add: unsigned_ucast_eq take_bit_eq_mod)
qed

lemma hex_char_value: "i < 16 \<Longrightarrow>
    (if hex_chars ! i \<le> 57 then unat (hex_chars ! i) - 48 else unat (hex_chars ! i) - 55) = i"
proof -
  have "\<forall>i\<in>set [0..<16]. (if hex_chars ! i \<le> 57 then unat (hex_chars ! i) - 48 else unat (hex_chars ! i) - 55) = i"
    by code_simp
  then show "i < 16 \<Longrightarrow> (if hex_chars ! i \<le> 57 then unat (hex_chars ! i) - 48 else unat (hex_chars ! i) - 55) = i" by simp
qed

lemma nibbles_fold:
  "foldl (\<lambda>a k. a * 16 + n div 16 ^ k mod 16) (n div 16 ^ j) (rev [0..<j]) = (n :: nat)"
proof (induction j)
  case (Suc j)
  have "n div 16 ^ Suc j * 16 + n div 16 ^ j mod 16 = n div 16 ^ j"
    unfolding power_Suc2 div_mult2_eq by (rule div_mult_mod_eq)
  then show ?case using Suc by simp
qed simp

lemma hex32_value: "hex_value (hex32 v) = unat v"
proof -
  have "[28, 24, 20, 16, 12, 8, 4, 0 :: nat] = map (\<lambda>k. 4 * k) (rev [0..<8])" by (simp add: upt_rec)
  then have "hex_value (hex32 v) = foldl (\<lambda>a k. a * 16 + unat v div 16 ^ k mod 16) 0 (rev [0..<8])"
    unfolding hex_value_def hex32_def by (simp add: foldl_map hex_char_value nibble power_mult)
  moreover have "unat v div 16 ^ 8 = 0" by simp
  ultimately show ?thesis using nibbles_fold [of "unat v" 8] by (simp only:)
qed

lemma prints_hex32: "prints (serial_write_hex32 dev v) dev (ascii ''0x'' @ hex32 v)"
proof -
  let ?ks = "[28, 24, 20, 16, 12, 8, 4, 0] :: nat list"
  let ?f = "\<lambda>k. serial_write_hex_digit dev (ucast (drop_bit k v AND 0xF))"
  have "prints (?f k) dev [hex_chars ! unat (drop_bit k v AND 0xF)]" for k
    by (simp add: serial_write_hex_digit_def [abs_def] nibble_ucast prints_byte)
  then have "prints (fold ?f ?ks) dev (concat (map (\<lambda>k. [hex_chars ! unat (drop_bit k v AND 0xF)]) ?ks))"
    by (intro prints_fold)
  then have "prints (fold ?f ?ks) dev (hex32 v)" by (simp add: hex32_def)
  from prints_comp [OF prints_str this] show ?thesis by (simp add: serial_write_hex32_def [abs_def])
qed

text \<open>Printing a number on the serial port prints a numeral of it. \<open>serial_write_dec32\<close> prints between
  one and ten decimal digits, the first one not 0 unless the number is 0, and \<open>serial_write_hex32\<close>
  prints eight hexadecimal digits after \<open>0x\<close>; read back, they give the number. The digits go to the debug
  console whatever the hardware does, and to COM1 when its transmitter is ready.\<close>

theorem serial_numerals:
  "(\<exists>ds. prints (serial_write_dec32 dev v) dev ds \<and> ds \<noteq> [] \<and> length ds \<le> 10 \<and> (\<forall>c\<in>set ds. 48 \<le> c \<and> c \<le> 57) \<and>
      (hd ds = 48 \<longrightarrow> v = 0) \<and> dec_value ds = unat v) \<and>
   (\<exists>hs. prints (serial_write_hex32 dev v) dev (ascii ''0x'' @ hs) \<and> length hs = 8 \<and> hex_value hs = unat v)"
proof (rule conjI)
  show "\<exists>ds. prints (serial_write_dec32 dev v) dev ds \<and> ds \<noteq> [] \<and> length ds \<le> 10 \<and> (\<forall>c\<in>set ds. 48 \<le> c \<and> c \<le> 57) \<and>
      (hd ds = 48 \<longrightarrow> v = 0) \<and> dec_value ds = unat v"
  proof (cases "v = 0")
    case True
    then show ?thesis
      by (intro exI [of _ "[48]"]) (simp add: serial_write_dec32_def [abs_def] prints_byte dec_value_def word_le_nat_alt)
  next
    case False
    then have "0 < v" by (simp add: word_neq_0_conv)
    moreover have "unat v < 10 ^ 10" using unat_less_2p32 [of v] by (simp del: unat_less_2p32)
    ultimately show ?thesis using False dec_digits_digit [of _ v]
      by (intro exI [of _ "rev (dec_digits v)"])
        (simp add: serial_write_dec32_def [abs_def] prints_bytes dec_digits_value dec_digits_length dec_digits_last hd_rev)
  qed
next
  have "length (hex32 v) = 8" by (simp add: hex32_def)
  then show "\<exists>hs. prints (serial_write_hex32 dev v) dev (ascii ''0x'' @ hs) \<and> length hs = 8 \<and> hex_value hs = unat v"
    using prints_hex32 hex32_value by blast
qed

theorem serial_numerals_witness:
  "\<exists>ds. prints (serial_write_dec32 (\<lambda>_ _ _. 0x20) 1193182 :: machine \<Rightarrow> machine) (\<lambda>_ _ _. 0x20) ds \<and>
     length ds \<le> 10 \<and> dec_value ds = 1193182"
  using serial_numerals [of "\<lambda>_ _ _. 0x20" 1193182, where 'a = unit and 'b = unit] by auto

end
