(* ===== verification/Mouse.thy ===== *)
theory Mouse
  imports Serial
begin

text \<open>
  The PS/2 mouse driver of \<^verbatim>\<open>src/mouse.c\<close> and the legacy wrapper of \<^verbatim>\<open>src/vbox_mouse.c\<close>.
  The record \<open>mouse_driver\<close> extends the machine of the serial port by the statics of both files and by
  the trace of the calls to event handlers, which are client code. A \<open>struct mouse_state *\<close> argument is
  an option: \<open>None\<close> stands for NULL and for the address of the global state, \<open>Some\<close> is a state of the
  caller, which is returned updated. Positions are C integers without overflow.

  The lemmas show that the packet assembler delivers the events of a stream of packets in order and
  resynchronises on the first byte, that a visible pointer stays inside its bounds, and that the sign
  bit of a packet is misread as an overflow bit, so that every motion to the left or downwards has
  the size 128.
\<close>

section \<open>Data\<close>

record mouse_event =
  ev_dx :: int
  ev_dy :: int
  ev_dz :: int
  ev_buttons :: u8
  ev_valid :: bool

datatype mouse_type = MOUSE_TYPE_NONE | MOUSE_TYPE_PS2 | MOUSE_TYPE_IMPS2 | MOUSE_TYPE_SERIAL

record mouse_state =
  ms_x :: int
  ms_y :: int
  ms_buttons :: int
  ms_present :: bool
  ms_type :: mouse_type
  ms_hidden :: bool
  ms_min_x :: int
  ms_max_x :: int
  ms_min_y :: int
  ms_max_y :: int
  ms_handler :: u32

record ps2_mouse =
  pm_initialized :: bool
  pm_enabled :: bool
  pm_x :: int
  pm_y :: int
  pm_z :: int
  pm_left_button :: bool
  pm_right_button :: bool
  pm_middle_button :: bool
  pm_packet :: "u8 list"
  pm_packet_index :: nat
  pm_on_move :: u32
  pm_on_button :: u32

datatype handler_call = Event_Handler u32 mouse_event | On_Move u32 int int | On_Button u32 u8

record mouse_driver = machine +
  g_mouse_global :: mouse_state
  g_ps2_shared_initialized :: bool
  mouse_packet :: "u8 list"
  byte_idx :: nat
  legacy_mouse :: ps2_mouse
  handler_calls :: "handler_call list"

definition MOUSE_OK :: int where "MOUSE_OK = 0"

definition MOUSE_ERR_NO_DEV :: int where "MOUSE_ERR_NO_DEV = - 1"

definition MOUSE_ERR_IO :: int where "MOUSE_ERR_IO = - 3"

text \<open>The state behind a pointer argument, and its update.\<close>

definition mouse_of :: "mouse_state option \<Rightarrow> mouse_driver \<Rightarrow> mouse_state" where
  "mouse_of st d = (case st of None \<Rightarrow> g_mouse_global d | Some m \<Rightarrow> m)"

definition put_mouse :: "mouse_state \<Rightarrow> mouse_state option \<times> mouse_driver \<Rightarrow> mouse_state option \<times> mouse_driver" where
  "put_mouse m = (\<lambda>(st, d). case st of None \<Rightarrow> (None, d\<lparr>g_mouse_global := m\<rparr>) | Some _ \<Rightarrow> (Some m, d))"

section \<open>The controller\<close>

fun ps2_wait :: "device \<Rightarrow> (u8 \<Rightarrow> bool) \<Rightarrow> nat \<Rightarrow> 'a machine_scheme \<Rightarrow> int \<times> 'a machine_scheme" where
  "ps2_wait dev ready 0 s = (- 1, s)"
| "ps2_wait dev ready (Suc t) s =
     (let (status, s) = port_in dev 0x64 s
      in if ready status then (0, s) else ps2_wait dev ready t (io_wait s))"

definition ps2_wait_read :: "device \<Rightarrow> 'a machine_scheme \<Rightarrow> int \<times> 'a machine_scheme" where
  "ps2_wait_read dev s = ps2_wait dev (\<lambda>status. status AND 0x01 \<noteq> 0) 100000 s"

definition ps2_wait_write :: "device \<Rightarrow> 'a machine_scheme \<Rightarrow> int \<times> 'a machine_scheme" where
  "ps2_wait_write dev s = ps2_wait dev (\<lambda>status. status AND 0x02 = 0) 100000 s"

definition ps2_read_data :: "device \<Rightarrow> 'a machine_scheme \<Rightarrow> u8 \<times> 'a machine_scheme" where
  "ps2_read_data dev s =
     (let (r, s) = ps2_wait_read dev s in if r \<noteq> 0 then (0, s) else port_in dev 0x60 s)"

definition ps2_write_data :: "device \<Rightarrow> u8 \<Rightarrow> 'a machine_scheme \<Rightarrow> 'a machine_scheme" where
  "ps2_write_data dev data s = port_out 0x60 data (snd (ps2_wait_write dev s))"

definition ps2_write_command :: "device \<Rightarrow> u8 \<Rightarrow> 'a machine_scheme \<Rightarrow> 'a machine_scheme" where
  "ps2_write_command dev cmd s = port_out 0x64 cmd (snd (ps2_wait_write dev s))"

definition ps2_write_mouse :: "device \<Rightarrow> u8 \<Rightarrow> 'a machine_scheme \<Rightarrow> 'a machine_scheme" where
  "ps2_write_mouse dev data s =
     port_out 0x60 data (snd (ps2_wait_write dev (port_out 0x64 0xD4 (snd (ps2_wait_write dev s)))))"

definition ps2_read_response :: "device \<Rightarrow> 'a machine_scheme \<Rightarrow> int \<times> u8 \<times> 'a machine_scheme" where
  "ps2_read_response dev s =
     (let (response, s) = ps2_read_data dev s in (if response = 0xFA then 0 else - 1, response, s))"

text \<open>The two loops that empty the output buffer; only the first waits after a byte.\<close>

fun ps2_flush :: "device \<Rightarrow> bool \<Rightarrow> nat \<Rightarrow> 'a machine_scheme \<Rightarrow> 'a machine_scheme" where
  "ps2_flush dev wait 0 s = s"
| "ps2_flush dev wait (Suc n) s =
     (let (st, s) = port_in dev 0x64 s
      in if st AND 0x01 \<noteq> 0
         then let s = snd (port_in dev 0x60 s) in ps2_flush dev wait n (if wait then io_wait s else s)
         else s)"

definition ps2_controller_init :: "device \<Rightarrow> mouse_driver \<Rightarrow> int \<times> mouse_driver" where
  "ps2_controller_init dev d =
     (if g_ps2_shared_initialized d then (0, d)
      else let d = serial_writeln dev (Some (ascii ''[PS2] Shared controller init (keyboard+mouse)...'')) d;
               d = ps2_write_command dev 0xAD d;
               d = ps2_write_command dev 0xA7 d;
               d = ps2_flush dev True 5 d;
               d = ps2_write_command dev 0x20 d;
               (config, d) = ps2_read_data dev d;
               d = serial_write_str dev (Some (ascii ''[PS2] Config before: 0x'')) d;
               d = serial_writeln dev (Some []) (serial_write_hex8 dev config d);
               config = (config OR 0x01 OR 0x02) AND NOT 0x10 AND NOT 0x20;
               d = port_out 0x64 0x60 (snd (ps2_wait_write dev d));
               d = port_out 0x60 config (snd (ps2_wait_write dev d));
               d = ps2_write_command dev 0xAE d;
               d = ps2_write_command dev 0xA8 d;
               d = io_wait d;
               d = ps2_flush dev False 5 d;
               d = d\<lparr>g_ps2_shared_initialized := True\<rparr>
           in (0, serial_writeln dev (Some (ascii ''[PS2] Shared controller ready'')) d))"

definition mouse_detect_type :: "device \<Rightarrow> mouse_state \<Rightarrow> mouse_driver \<Rightarrow> mouse_type \<times> mouse_state \<times> mouse_driver" where
  "mouse_detect_type dev m d =
     (let d = serial_writeln dev (Some (ascii ''Mouse: Detecting type...'')) d;
          d = ps2_write_mouse dev 0xF2 d;
          (id, d) = ps2_read_data dev d;
          d = serial_write_str dev (Some (ascii ''Mouse: Device ID = 0x'')) d;
          d = serial_writeln dev (Some []) (serial_write_hex8 dev id d)
      in if id = 0x00 then
           (MOUSE_TYPE_PS2, m\<lparr>ms_type := MOUSE_TYPE_PS2\<rparr>,
            serial_writeln dev (Some (ascii ''Mouse: Standard PS/2 mouse detected'')) d)
         else if id = 0x03 then
           (MOUSE_TYPE_IMPS2, m\<lparr>ms_type := MOUSE_TYPE_IMPS2\<rparr>,
            serial_writeln dev (Some (ascii ''Mouse: IntelliMouse PS/2 detected'')) d)
         else (MOUSE_TYPE_PS2, m\<lparr>ms_type := MOUSE_TYPE_PS2\<rparr>, d))"

section \<open>Packets\<close>

definition clamp_mouse :: "mouse_state \<Rightarrow> mouse_state" where
  "clamp_mouse m =
     (let m = (if ms_x m < ms_min_x m then m\<lparr>ms_x := ms_min_x m\<rparr> else m);
          m = (if ms_max_x m \<le> ms_x m then m\<lparr>ms_x := ms_max_x m - 1\<rparr> else m);
          m = (if ms_y m < ms_min_y m then m\<lparr>ms_y := ms_min_y m\<rparr> else m)
      in if ms_max_y m \<le> ms_y m then m\<lparr>ms_y := ms_max_y m - 1\<rparr> else m)"

definition mouse_parse_packet :: "mouse_state \<Rightarrow> u8 list \<Rightarrow> mouse_event \<Rightarrow> int \<times> mouse_state \<times> mouse_event" where
  "mouse_parse_packet m packet ev =
     (let ev = ev\<lparr>ev_valid := False\<rparr>
      in if packet ! 0 AND 0x08 = 0 then (- 1, m, ev)
      else let ev = ev\<lparr>ev_buttons := packet ! 0 AND 0x07\<rparr>;
               x = sint (packet ! 1);
               x = (if packet ! 0 AND 0x10 \<noteq> 0 then if 0 < x then 127 else - 128 else x);
               ev = ev\<lparr>ev_dx := x\<rparr>;
               y = sint (packet ! 2);
               y = (if packet ! 0 AND 0x20 \<noteq> 0 then if 0 < y then 127 else - 128 else y);
               ev = ev\<lparr>ev_dy := - y, ev_dz := 0\<rparr>;
               ev = (if ms_type m = MOUSE_TYPE_IMPS2 then ev\<lparr>ev_dz := - sint (packet ! 3)\<rparr> else ev);
               m = m\<lparr>ms_x := ms_x m + ev_dx ev, ms_y := ms_y m + ev_dy ev\<rparr>;
               m = (if \<not> ms_hidden m then clamp_mouse m else m)
           in (0, m, ev\<lparr>ev_valid := True\<rparr>))"

definition mouse_read ::
  "device \<Rightarrow> mouse_state option \<Rightarrow> mouse_event \<Rightarrow> mouse_driver
     \<Rightarrow> int \<times> mouse_event \<times> mouse_state option \<times> mouse_driver" where
  "mouse_read dev st ev d =
     (if \<not> ms_present (mouse_of st d) then (MOUSE_ERR_NO_DEV, ev, st, d)
      else let (status, d) = port_in dev 0x64 d
      in if status AND 0x01 = 0 then (MOUSE_OK, ev\<lparr>ev_valid := False\<rparr>, st, d)
      else let (data, d) = port_in dev 0x60 d;
               packet_size = (if ms_type (mouse_of st d) = MOUSE_TYPE_IMPS2 then 4 else 3)
      in if byte_idx d = 0 \<and> data AND 0x08 \<noteq> 0 then
           (MOUSE_OK, ev\<lparr>ev_valid := False\<rparr>, st, d\<lparr>mouse_packet := (mouse_packet d)[0 := data], byte_idx := 1\<rparr>)
         else if 0 < byte_idx d \<and> byte_idx d < packet_size then
           let d = d\<lparr>mouse_packet := (mouse_packet d)[byte_idx d := data], byte_idx := byte_idx d + 1\<rparr>
           in if packet_size \<le> byte_idx d then
                let (r, m, ev) = mouse_parse_packet (mouse_of st d) (mouse_packet d) ev;
                    (st, d) = put_mouse m (st, d);
                    d = d\<lparr>byte_idx := 0\<rparr>
                in if r = 0 then
                     let d = (if st \<noteq> None
                              then d\<lparr>g_mouse_global := (g_mouse_global d)\<lparr>ms_x := ms_x m, ms_y := ms_y m\<rparr>\<rparr> else d);
                         d = (if ms_handler m \<noteq> 0 \<and> ev_valid ev
                              then d\<lparr>handler_calls := handler_calls d @ [Event_Handler (ms_handler m) ev]\<rparr> else d)
                     in (MOUSE_OK, ev, st, d)
                   else (MOUSE_OK, ev\<lparr>ev_valid := False\<rparr>, st, d)
              else (MOUSE_OK, ev\<lparr>ev_valid := False\<rparr>, st, d)
         else let d = d\<lparr>byte_idx := 0\<rparr>;
                  d = (if data AND 0x08 \<noteq> 0
                       then d\<lparr>mouse_packet := (mouse_packet d)[0 := data], byte_idx := 1\<rparr> else d)
              in (MOUSE_OK, ev\<lparr>ev_valid := False\<rparr>, st, d))"

section \<open>Operations\<close>

definition mouse_init ::
  "device \<Rightarrow> mouse_state option \<Rightarrow> mouse_driver \<Rightarrow> int \<times> mouse_state option \<times> mouse_driver" where
  "mouse_init dev st d =
     (let d = serial_writeln dev (Some (ascii ''Mouse: Initializing (unified driver)...'')) d;
          d = snd (ps2_controller_init dev d);
          m = (mouse_of st d)\<lparr>ms_x := 40, ms_y := 12, ms_buttons := 0, ms_present := False, ms_type := MOUSE_TYPE_NONE,
                ms_hidden := False, ms_min_x := 0, ms_max_x := 80, ms_min_y := 0, ms_max_y := 25, ms_handler := 0\<rparr>;
          (st, d) = put_mouse m (st, d);
          (status, d) = port_in dev 0x64 d;
          d = (if status = 0xFF \<or> status = 0x00
               then serial_writeln dev (Some (ascii ''Mouse: Warning status unusual, continuing'')) d else d);
          d = ps2_write_command dev 0xA8 d;
          d = (io_wait ^^ 10000) (io_wait d);
          d = serial_writeln dev (Some (ascii ''Mouse: Sending reset command...'')) d;
          d = ps2_write_mouse dev 0xFF d;
          (r, response, d) = ps2_read_response dev d;
          d = (if r \<noteq> 0 then serial_writeln dev (Some (ascii ''Mouse: No ACK from reset (continuing)'')) d else d);
          (response, d) = ps2_read_data dev d;
          d = serial_write_str dev (Some (ascii ''Mouse: BAT response = 0x'')) d;
          d = serial_writeln dev (Some []) (serial_write_hex8 dev response d);
          d = snd (snd (ps2_read_response dev (ps2_write_mouse dev 0xF6 d)));
          d = snd (snd (ps2_read_response dev (ps2_write_mouse dev 0xF3 d)));
          d = snd (snd (ps2_read_response dev (ps2_write_mouse dev 100 d)));
          (r, response, d) = ps2_read_response dev (ps2_write_mouse dev 0xF4 d)
      in if r \<noteq> 0
         then (MOUSE_ERR_IO, st, serial_writeln dev (Some (ascii ''Mouse: Failed to enable data reporting'')) d)
         else let (t, m, d) = mouse_detect_type dev (mouse_of st d) d;
                  m = m\<lparr>ms_present := True\<rparr>;
                  (st, d) = put_mouse m (st, d);
                  d = (if st \<noteq> None then d\<lparr>g_mouse_global := m\<rparr> else d)
              in (MOUSE_OK, st, serial_writeln dev (Some (ascii ''Mouse: Unified driver initialized successfully'')) d))"

definition mouse_set_position ::
  "mouse_state option \<Rightarrow> int \<Rightarrow> int \<Rightarrow> mouse_driver \<Rightarrow> mouse_state option \<times> mouse_driver" where
  "mouse_set_position st x y d = put_mouse (clamp_mouse ((mouse_of st d)\<lparr>ms_x := x, ms_y := y\<rparr>)) (st, d)"

definition mouse_get_position :: "mouse_state option \<Rightarrow> mouse_driver \<Rightarrow> int \<times> int" where
  "mouse_get_position st d = (ms_x (mouse_of st d), ms_y (mouse_of st d))"

definition mouse_get_pos_global :: "mouse_driver \<Rightarrow> int \<times> int" where
  "mouse_get_pos_global d = mouse_get_position None d"

definition mouse_is_present :: "mouse_state option \<Rightarrow> mouse_driver \<Rightarrow> bool" where
  "mouse_is_present st d = ms_present (mouse_of st d)"

definition mouse_enable :: "device \<Rightarrow> mouse_state option \<Rightarrow> mouse_driver \<Rightarrow> mouse_driver" where
  "mouse_enable dev st d =
     (if ms_present (mouse_of st d) then snd (snd (ps2_read_response dev (ps2_write_mouse dev 0xF4 d))) else d)"

definition mouse_disable :: "device \<Rightarrow> mouse_state option \<Rightarrow> mouse_driver \<Rightarrow> mouse_driver" where
  "mouse_disable dev st d =
     (if ms_present (mouse_of st d) then snd (snd (ps2_read_response dev (ps2_write_mouse dev 0xF5 d))) else d)"

definition mouse_set_handler :: "mouse_state option \<Rightarrow> u32 \<Rightarrow> mouse_driver \<Rightarrow> mouse_state option \<times> mouse_driver" where
  "mouse_set_handler st handler d = put_mouse ((mouse_of st d)\<lparr>ms_handler := handler\<rparr>) (st, d)"

definition mouse_poll ::
  "device \<Rightarrow> mouse_state option \<Rightarrow> mouse_event \<Rightarrow> mouse_driver \<Rightarrow> mouse_state option \<times> mouse_driver" where
  "mouse_poll dev st ev d = snd (snd (mouse_read dev st ev d))"

definition mouse_hide :: "mouse_state option \<Rightarrow> mouse_driver \<Rightarrow> mouse_state option \<times> mouse_driver" where
  "mouse_hide st d = put_mouse ((mouse_of st d)\<lparr>ms_hidden := True\<rparr>) (st, d)"

definition mouse_show :: "mouse_state option \<Rightarrow> mouse_driver \<Rightarrow> mouse_state option \<times> mouse_driver" where
  "mouse_show st d = put_mouse ((mouse_of st d)\<lparr>ms_hidden := False\<rparr>) (st, d)"

definition mouse_set_bounds ::
  "mouse_state option \<Rightarrow> int \<Rightarrow> int \<Rightarrow> int \<Rightarrow> int \<Rightarrow> mouse_driver \<Rightarrow> mouse_state option \<times> mouse_driver" where
  "mouse_set_bounds st min_x max_x min_y max_y d =
     put_mouse (clamp_mouse ((mouse_of st d)\<lparr>ms_min_x := min_x, ms_max_x := max_x, ms_min_y := min_y,
       ms_max_y := max_y\<rparr>)) (st, d)"

section \<open>The legacy wrapper\<close>

text \<open>The three values of \<open>kern_return_t\<close> that the wrapper returns.\<close>

datatype mouse_return = MOUSE_SUCCESS | MOUSE_NOT_READY | MOUSE_FAILURE

definition ps2_mouse_init :: "device \<Rightarrow> mouse_state \<Rightarrow> mouse_driver \<Rightarrow> mouse_return \<times> mouse_driver" where
  "ps2_mouse_init dev uninit d =
     (let d = serial_writeln dev (Some (ascii ''[MOUSE] vbox_mouse wrapper -> unified mouse_init'')) d;
          (r, st, d) = mouse_init dev (Some uninit) d
      in if r = MOUSE_OK then
           let d = d\<lparr>legacy_mouse := (legacy_mouse d)\<lparr>pm_initialized := True, pm_enabled := True,
                 pm_x := ms_x (mouse_of st d), pm_y := ms_y (mouse_of st d), pm_z := 0, pm_left_button := False,
                 pm_right_button := False, pm_middle_button := False, pm_packet_index := 0, pm_on_move := 0,
                 pm_on_button := 0\<rparr>\<rparr>;
               d = snd (mouse_set_bounds None 0 80 0 25 d);
               d = snd (mouse_set_position None (ms_x (mouse_of st d)) (ms_y (mouse_of st d)) d)
           in (MOUSE_SUCCESS, d)
         else (MOUSE_FAILURE, d))"

definition ps2_mouse_enable :: "device \<Rightarrow> mouse_driver \<Rightarrow> mouse_return \<times> mouse_driver" where
  "ps2_mouse_enable dev d =
     (if \<not> pm_initialized (legacy_mouse d) then (MOUSE_NOT_READY, d)
      else let d = mouse_enable dev None d;
               d = d\<lparr>legacy_mouse := (legacy_mouse d)\<lparr>pm_enabled := True\<rparr>\<rparr>
           in (MOUSE_SUCCESS, serial_writeln dev (Some (ascii ''[MOUSE] wrapper enable'')) d))"

definition ps2_mouse_disable :: "device \<Rightarrow> mouse_driver \<Rightarrow> mouse_return \<times> mouse_driver" where
  "ps2_mouse_disable dev d =
     (if \<not> pm_initialized (legacy_mouse d) then (MOUSE_NOT_READY, d)
      else let d = mouse_disable dev None d;
               d = d\<lparr>legacy_mouse := (legacy_mouse d)\<lparr>pm_enabled := False\<rparr>\<rparr>
           in (MOUSE_SUCCESS, serial_writeln dev (Some (ascii ''[MOUSE] wrapper disable'')) d))"

text \<open>The signed motion of the wrapper, computed in 16 bits.\<close>

definition legacy_delta :: "bool \<Rightarrow> u8 \<Rightarrow> int" where
  "legacy_delta sg b =
     (let dx = scast b :: u16
      in sint (if sg \<and> 0 \<le> sint dx then dx OR 0xFF00 else dx))"

definition clamp_to :: "int \<Rightarrow> int \<Rightarrow> int" where
  "clamp_to n x = (let x = (if x < 0 then 0 else x) in if n \<le> x then n - 1 else x)"

definition ps2_mouse_handler :: "device \<Rightarrow> u8 \<Rightarrow> mouse_driver \<Rightarrow> mouse_driver" where
  "ps2_mouse_handler dev data d =
     (let g = legacy_mouse d
      in if \<not> pm_initialized g \<or> \<not> pm_enabled g then d
      else if pm_packet_index g = 0 then
        (if data AND 0x08 \<noteq> 0
         then d\<lparr>legacy_mouse := g\<lparr>pm_packet := (pm_packet g)[0 := data], pm_packet_index := 1\<rparr>\<rparr> else d)
      else if pm_packet_index g = 1 then
        d\<lparr>legacy_mouse := g\<lparr>pm_packet := (pm_packet g)[1 := data], pm_packet_index := 2\<rparr>\<rparr>
      else if pm_packet_index g = 2 then
        let g = g\<lparr>pm_packet := (pm_packet g)[2 := data], pm_packet_index := 0\<rparr>;
            flags = pm_packet g ! 0
        in if flags AND (0x40 OR 0x80) \<noteq> 0 then
             serial_writeln dev (Some (ascii ''[MOUSE] wrapper overflow dropped'')) (d\<lparr>legacy_mouse := g\<rparr>)
           else let buttons = flags AND 0x07;
                    dx = legacy_delta (flags AND 0x10 \<noteq> 0) (pm_packet g ! 1);
                    dy = legacy_delta (flags AND 0x20 \<noteq> 0) (pm_packet g ! 2);
                    g = g\<lparr>pm_x := clamp_to 80 (pm_x g + dx), pm_y := clamp_to 25 (pm_y g - dy),
                          pm_left_button := (buttons AND 0x01 \<noteq> 0), pm_right_button := (buttons AND 0x02 \<noteq> 0),
                          pm_middle_button := (buttons AND 0x04 \<noteq> 0)\<rparr>;
                    d = d\<lparr>legacy_mouse := g\<rparr>;
                    d = snd (mouse_set_position None (pm_x g) (pm_y g) d);
                    d = (if pm_on_move g \<noteq> 0 \<and> (dx \<noteq> 0 \<or> dy \<noteq> 0)
                         then d\<lparr>handler_calls := handler_calls d @ [On_Move (pm_on_move g) dx dy]\<rparr> else d)
                in if pm_on_button g \<noteq> 0
                   then d\<lparr>handler_calls := handler_calls d @ [On_Button (pm_on_button g) buttons]\<rparr> else d
      else d)"

definition ps2_mouse_get_state :: "mouse_driver \<Rightarrow> int \<times> int \<times> u8" where
  "ps2_mouse_get_state d =
     (let (ux, uy) = mouse_get_position None d; g = legacy_mouse d
      in (ux, uy, (if pm_left_button g then 0x01 else 0) OR (if pm_right_button g then 0x02 else 0)
             OR (if pm_middle_button g then 0x04 else 0)))"

definition ps2_mouse_set_callback :: "u32 \<Rightarrow> u32 \<Rightarrow> mouse_driver \<Rightarrow> mouse_driver" where
  "ps2_mouse_set_callback move_cb button_cb d =
     d\<lparr>legacy_mouse := (legacy_mouse d)\<lparr>pm_on_move := move_cb, pm_on_button := button_cb\<rparr>\<rparr>"

definition ps2_mouse_hide :: "mouse_driver \<Rightarrow> mouse_driver" where
  "ps2_mouse_hide d = snd (mouse_hide None d)"

definition ps2_mouse_show :: "mouse_driver \<Rightarrow> mouse_driver" where
  "ps2_mouse_show d = snd (mouse_show None d)"

definition ps2_mouse_get_position :: "mouse_driver \<Rightarrow> int \<times> int" where
  "ps2_mouse_get_position d = mouse_get_position None d"

definition ps2_mouse_set_bounds :: "int \<Rightarrow> int \<Rightarrow> int \<Rightarrow> int \<Rightarrow> mouse_driver \<Rightarrow> mouse_driver" where
  "ps2_mouse_set_bounds min_x max_x min_y max_y d = snd (mouse_set_bounds None min_x max_x min_y max_y d)"

definition ps2_mouse_is_present :: "mouse_driver \<Rightarrow> bool" where
  "ps2_mouse_is_present d = mouse_is_present None d"

section \<open>Packets are assembled in order\<close>

definition axis :: "bool \<Rightarrow> u8 \<Rightarrow> int" where
  "axis sign_bit b = (if sign_bit then if 0 < sint b then 127 else - 128 else sint b)"

definition decode :: "u8 list \<Rightarrow> mouse_event" where
  "decode p = \<lparr>ev_dx = axis (p ! 0 AND 0x10 \<noteq> 0) (p ! 1), ev_dy = - axis (p ! 0 AND 0x20 \<noteq> 0) (p ! 2), ev_dz = 0,
     ev_buttons = p ! 0 AND 0x07, ev_valid = True\<rparr>"

definition moved :: "u8 list \<Rightarrow> mouse_state \<Rightarrow> mouse_state" where
  "moved p m =
     (let m = m\<lparr>ms_x := ms_x m + ev_dx (decode p), ms_y := ms_y m + ev_dy (decode p)\<rparr>
      in if ms_hidden m then m else clamp_mouse m)"

lemma parse_ps2:
  assumes "p ! 0 AND 0x08 \<noteq> 0" "ms_type m \<noteq> MOUSE_TYPE_IMPS2"
  shows "mouse_parse_packet m p ev = (0, moved p m, decode p)"
  using assms by (simp add: mouse_parse_packet_def moved_def decode_def axis_def Let_def)

lemma clamp_fields [simp]:
  "ms_present (clamp_mouse m) = ms_present m" "ms_type (clamp_mouse m) = ms_type m"
  "ms_hidden (clamp_mouse m) = ms_hidden m" "ms_handler (clamp_mouse m) = ms_handler m"
  by (simp_all add: clamp_mouse_def Let_def)

lemma moved_fields [simp]:
  "ms_present (moved p m) = ms_present m" "ms_type (moved p m) = ms_type m"
  "ms_hidden (moved p m) = ms_hidden m" "ms_handler (moved p m) = ms_handler m"
  by (simp_all add: moved_def Let_def)

text \<open>The device has the bytes ready: from the \<open>r\<close>-th input on, the inputs are pairs of a status with the
  output bit set and the next byte.\<close>

definition supplies :: "device \<Rightarrow> nat \<Rightarrow> u8 list \<Rightarrow> bool" where
  "supplies dev r bs \<longleftrightarrow>
     (\<forall>i<length bs. \<forall>t. dev (r + 2 * i) t 0x64 AND 0x01 \<noteq> 0 \<and> dev (r + 2 * i + 1) t 0x60 = bs ! i)"

lemma supplies_Cons:
  "supplies dev r (b # bs) \<longleftrightarrow>
     (\<forall>t. dev r t 0x64 AND 0x01 \<noteq> 0 \<and> dev (Suc r) t 0x60 = b) \<and> supplies dev (r + 2) bs"
  unfolding supplies_def by (auto simp: All_less_Suc2 algebra_simps)

definition receiving :: "mouse_driver \<Rightarrow> bool" where
  "receiving d \<longleftrightarrow> ms_present (g_mouse_global d) \<and> ms_type (g_mouse_global d) \<noteq> MOUSE_TYPE_IMPS2 \<and>
     length (mouse_packet d) = 4"

definition poll :: "device \<Rightarrow> mouse_event \<Rightarrow> mouse_driver \<Rightarrow> mouse_driver" where
  "poll dev ev d = snd (mouse_poll dev None ev d)"

lemma poll_ready:
  assumes "receiving d" "\<forall>t. dev (io_reads d) t 0x64 AND 0x01 \<noteq> 0 \<and> dev (Suc (io_reads d)) t 0x60 = b"
  shows "byte_idx d = 0 \<Longrightarrow> b AND 0x08 \<noteq> 0 \<Longrightarrow> poll dev ev d =
      d\<lparr>io_reads := io_reads d + 2, mouse_packet := (mouse_packet d)[0 := b], byte_idx := 1\<rparr>"
    and "byte_idx d = 0 \<Longrightarrow> b AND 0x08 = 0 \<Longrightarrow> poll dev ev d = d\<lparr>io_reads := io_reads d + 2\<rparr>"
    and "byte_idx d = 1 \<Longrightarrow> poll dev ev d =
      d\<lparr>io_reads := io_reads d + 2, mouse_packet := (mouse_packet d)[1 := b], byte_idx := 2\<rparr>"
    and "byte_idx d = 2 \<Longrightarrow> mouse_packet d ! 0 AND 0x08 \<noteq> 0 \<Longrightarrow> poll dev ev d =
      (let p = (mouse_packet d)[2 := b]; m = moved p (g_mouse_global d)
       in d\<lparr>io_reads := io_reads d + 2, mouse_packet := p, byte_idx := 0, g_mouse_global := m,
            handler_calls := handler_calls d @ (if ms_handler m \<noteq> 0 then [Event_Handler (ms_handler m) (decode p)] else [])\<rparr>)"
  using assms
  by (simp_all add: receiving_def poll_def mouse_poll_def mouse_read_def mouse_of_def put_mouse_def port_in_def Let_def parse_ps2)
    (simp_all add: decode_def)

definition packet_ok :: "u8 list \<Rightarrow> bool" where
  "packet_ok p \<longleftrightarrow> length p = 3 \<and> p ! 0 AND 0x08 \<noteq> 0"

lemma supplies_append: "supplies dev r (xs @ ys) \<longleftrightarrow> supplies dev r xs \<and> supplies dev (r + 2 * length xs) ys"
  by (induction xs arbitrary: r) (auto simp: supplies_Cons add.assoc, auto simp: supplies_def)

lemma decode_prefix: "decode [a, b, c, x] = decode [a, b, c]" "moved [a, b, c, x] = moved [a, b, c]"
  by (simp_all add: decode_def moved_def [abs_def])

lemma length_4: "length xs = 4 \<longleftrightarrow> (\<exists>a b c d. xs = [a, b, c, d])"
  by (auto simp: numeral_eq_Suc length_Suc_conv)

lemma poll_packet:
  assumes "receiving d" "byte_idx d = 0" "supplies dev (io_reads d) p" "packet_ok p"
  shows "\<exists>x. (poll dev ev ^^ 3) d =
    d\<lparr>io_reads := io_reads d + 6, mouse_packet := p @ [x], byte_idx := 0, g_mouse_global := moved p (g_mouse_global d),
      handler_calls := handler_calls d @
        (if ms_handler (g_mouse_global d) \<noteq> 0 then [Event_Handler (ms_handler (g_mouse_global d)) (decode p)] else [])\<rparr>"
proof -
  obtain a b c where p: "p = [a, b, c]" "a AND 0x08 \<noteq> 0"
    using assms(4) by (auto simp: packet_ok_def numeral_eq_Suc length_Suc_conv)
  obtain x0 x1 x2 x where xs: "mouse_packet d = [x0, x1, x2, x]"
    using assms(1) by (auto simp: receiving_def length_4)
  note s = assms(3) [unfolded p(1) supplies_Cons]
  let ?d1 = "d\<lparr>io_reads := io_reads d + 2, mouse_packet := [a, x1, x2, x], byte_idx := 1\<rparr>"
  let ?d2 = "d\<lparr>io_reads := io_reads d + 4, mouse_packet := [a, b, x2, x], byte_idx := 2\<rparr>"
  have 1: "poll dev ev d = ?d1" using poll_ready(1) [OF assms(1) conjunct1 [OF s] assms(2) p(2), of ev] xs by simp
  have r: "receiving ?d1" "receiving ?d2" using assms(1) by (simp_all add: receiving_def)
  have 2: "poll dev ev ?d1 = ?d2" using poll_ready(3) [OF r(1), of dev b ev] s by simp
  have s3: "\<forall>t. dev (io_reads ?d2) t 0x64 AND 0x01 \<noteq> 0 \<and> dev (Suc (io_reads ?d2)) t 0x60 = c"
    using s by (simp add: eval_nat_numeral)
  have 3: "poll dev ev ?d2 = d\<lparr>io_reads := io_reads d + 6, mouse_packet := p @ [x], byte_idx := 0,
      g_mouse_global := moved p (g_mouse_global d), handler_calls := handler_calls d @
        (if ms_handler (g_mouse_global d) \<noteq> 0 then [Event_Handler (ms_handler (g_mouse_global d)) (decode p)] else [])\<rparr>"
    using poll_ready(4) [OF r(2) s3, of ev] p by (simp add: Let_def decode_prefix cong: if_cong)
  have "(poll dev ev ^^ 3) d = poll dev ev (poll dev ev (poll dev ev d))" by (simp add: numeral_3_eq_3)
  then show ?thesis unfolding 1 2 3 by blast
qed

lemma poll_packets:
  assumes "receiving d" "byte_idx d = 0" "supplies dev (io_reads d) (concat ps)" "list_all packet_ok ps"
  shows "g_mouse_global ((poll dev ev ^^ (3 * length ps)) d) = fold moved ps (g_mouse_global d) \<and>
    byte_idx ((poll dev ev ^^ (3 * length ps)) d) = 0 \<and>
    handler_calls ((poll dev ev ^^ (3 * length ps)) d) = handler_calls d @
      (if ms_handler (g_mouse_global d) \<noteq> 0
       then map (\<lambda>p. Event_Handler (ms_handler (g_mouse_global d)) (decode p)) ps else [])"
  using assms
proof (induction ps arbitrary: d)
  case (Cons p ps)
  have p: "packet_ok p" "length p = 3" "supplies dev (io_reads d) p" "supplies dev (io_reads d + 6) (concat ps)"
    using Cons.prems by (simp_all add: supplies_append packet_ok_def)
  obtain x where e: "(poll dev ev ^^ 3) d =
    d\<lparr>io_reads := io_reads d + 6, mouse_packet := p @ [x], byte_idx := 0, g_mouse_global := moved p (g_mouse_global d),
      handler_calls := handler_calls d @
        (if ms_handler (g_mouse_global d) \<noteq> 0 then [Event_Handler (ms_handler (g_mouse_global d)) (decode p)] else [])\<rparr>"
    using poll_packet [OF Cons.prems(1,2) p(3,1)] by blast
  have r: "receiving ((poll dev ev ^^ 3) d)" unfolding e using Cons.prems(1) p(2) by (simp add: receiving_def)
  have "(poll dev ev ^^ (3 * length (p # ps))) d = (poll dev ev ^^ (3 * length ps)) ((poll dev ev ^^ 3) d)"
    using funpow_add [of "3 * length ps" 3 "poll dev ev"] by (simp add: add.commute)
  then show ?case using Cons.IH [OF r] p Cons.prems(4) by (simp add: e)
qed simp

lemma poll_junk:
  assumes "receiving d" "byte_idx d = 0" "supplies dev (io_reads d) bs" "\<forall>b\<in>set bs. b AND 0x08 = 0"
  shows "(poll dev ev ^^ length bs) d = d\<lparr>io_reads := io_reads d + 2 * length bs\<rparr>"
  using assms
proof (induction bs arbitrary: d)
  case (Cons b bs)
  note s = Cons.prems(3) [unfolded supplies_Cons]
  have 1: "poll dev ev d = d\<lparr>io_reads := io_reads d + 2\<rparr>"
    using poll_ready(2) [OF Cons.prems(1) conjunct1 [OF s] Cons.prems(2)] Cons.prems(4) by simp
  have "receiving (d\<lparr>io_reads := io_reads d + 2\<rparr>)" using Cons.prems(1) by (simp add: receiving_def)
  from Cons.IH [OF this] show ?case
    using s Cons.prems by (simp add: funpow_Suc_right 1 del: funpow.simps)
qed simp

text \<open>C30. The driver delivers the packets of the mouse. When a mouse without a wheel has some bytes ready that cannot
  start a packet, followed by any number of three-byte packets, then polling once per byte skips
  the former and hands the events of the packets to the registered handler, each once and in order,
  and moves the pointer by them. The event of a packet has the buttons of its first byte and the motion of the other
  two as \<open>mouse_parse_packet\<close> decodes it, which reads the sign bit of an axis as an overflow bit.\<close>

theorem mouse_delivers_packets:
  assumes "receiving d" "byte_idx d = 0" "list_all packet_ok ps" "\<forall>b\<in>set junk. b AND 0x08 = 0"
    "supplies dev (io_reads d) (junk @ concat ps)" "ms_handler (g_mouse_global d) = h" "h \<noteq> 0"
    "(poll dev ev ^^ (3 * length ps + length junk)) d = d'"
  shows "handler_calls d' = handler_calls d @ map (\<lambda>p. Event_Handler h (decode p)) ps \<and>
    g_mouse_global d' = fold moved ps (g_mouse_global d) \<and> byte_idx d' = 0"
proof -
  let ?j = "d\<lparr>io_reads := io_reads d + 2 * length junk\<rparr>"
  have "(poll dev ev ^^ length junk) d = ?j"
    using assms by (intro poll_junk) (simp_all add: supplies_append)
  then have "d' = (poll dev ev ^^ (3 * length ps)) ?j" using assms(8) by (simp add: funpow_add)
  moreover have "receiving ?j" using assms(1) by (simp add: receiving_def)
  ultimately show ?thesis
    using poll_packets [of ?j dev ps ev] assms by (simp add: supplies_append)
qed

section \<open>The pointer stays inside its bounds\<close>

text \<open>Port traffic does not touch the statics of a driver.\<close>

lemma more_ports [simp]:
  "machine.more (port_out p b s) = machine.more s" "machine.more (snd (port_in dev p s)) = machine.more s"
  "machine.more (io_wait s) = machine.more s" "machine.more ((io_wait ^^ n) s) = machine.more s"
proof -
  show 1: "machine.more (io_wait s) = machine.more s" for s :: "'a machine_scheme" by (simp add: io_wait_def port_out_def)
  show "machine.more ((io_wait ^^ n) s) = machine.more s" by (induction n) (simp_all add: 1)
qed (simp_all add: port_out_def port_in_def)

lemma more_wait [simp]: "machine.more (snd (wait_transmit dev t s)) = machine.more s"
  using wait_transmit_frame [of s t dev] by auto

lemma more_byte [simp]: "machine.more (serial_write_byte dev b s) = machine.more s"
  by (simp add: serial_write_byte_eq case_prod_beta)

lemma more_fold: "(\<And>x s. machine.more (f x s) = machine.more s) \<Longrightarrow> machine.more (fold f xs s) = machine.more s"
  by (induction xs arbitrary: s) simp_all

lemma more_serial [simp]:
  "machine.more (serial_write_str dev str s) = machine.more s" "machine.more (serial_writeln dev str s) = machine.more s"
  "machine.more (serial_write_hex8 dev v s) = machine.more s"
proof -
  show 1: "machine.more (serial_write_str dev str s) = machine.more s" for str and s :: "'a machine_scheme"
    by (cases str) (simp_all add: serial_write_str_def more_fold)
  show "machine.more (serial_writeln dev str s) = machine.more s" by (simp add: serial_writeln_def 1)
  show "machine.more (serial_write_hex8 dev v s) = machine.more s"
    by (simp add: serial_write_hex8_def serial_write_hex_digit_def 1)
qed

lemma more_ps2_wait [simp]: "machine.more (snd (ps2_wait dev r t s)) = machine.more s"
  by (induction t arbitrary: s) (simp_all add: case_prod_beta)

lemma more_ps2 [simp]:
  "machine.more (snd (ps2_read_data dev s)) = machine.more s" "machine.more (ps2_write_command dev b s) = machine.more s"
  "machine.more (ps2_write_mouse dev b s) = machine.more s" "machine.more (snd (snd (ps2_read_response dev s))) = machine.more s"
  "machine.more (snd (ps2_wait_write dev s)) = machine.more s"
  by (simp_all add: ps2_read_data_def ps2_wait_read_def ps2_wait_write_def ps2_write_command_def ps2_write_mouse_def
      ps2_read_response_def case_prod_beta)

lemma more_flush [simp]: "machine.more (ps2_flush dev w n s) = machine.more s"
  by (induction n arbitrary: s) (simp_all add: case_prod_beta Let_def)

lemma global_more: "machine.more d = machine.more e \<Longrightarrow> g_mouse_global d = g_mouse_global e"
  by (cases d; cases e) simp

lemma global_ports [simp]:
  "g_mouse_global (port_out p b d) = g_mouse_global d" "g_mouse_global (snd (port_in dev p d)) = g_mouse_global d"
  "g_mouse_global (io_wait d) = g_mouse_global d" "g_mouse_global ((io_wait ^^ n) d) = g_mouse_global d"
  "g_mouse_global (serial_write_str dev str d) = g_mouse_global d" "g_mouse_global (serial_writeln dev str d) = g_mouse_global d"
  "g_mouse_global (serial_write_hex8 dev v d) = g_mouse_global d"
  "g_mouse_global (snd (ps2_read_data dev d)) = g_mouse_global d" "g_mouse_global (ps2_write_command dev b d) = g_mouse_global d"
  "g_mouse_global (ps2_write_mouse dev b d) = g_mouse_global d"
  "g_mouse_global (snd (snd (ps2_read_response dev d))) = g_mouse_global d"
  "g_mouse_global (snd (ps2_wait_write dev d)) = g_mouse_global d" "g_mouse_global (ps2_flush dev w k d) = g_mouse_global d"
  by (rule global_more, simp)+

lemma global_init [simp]: "g_mouse_global (snd (ps2_controller_init dev d)) = g_mouse_global d"
  by (simp add: ps2_controller_init_def case_prod_beta Let_def)

lemma detect_type [simp]:
  "g_mouse_global (snd (snd (mouse_detect_type dev m d))) = g_mouse_global d"
  "\<exists>t. fst (snd (mouse_detect_type dev m d)) = m\<lparr>ms_type := t\<rparr>"
  by (auto simp: mouse_detect_type_def case_prod_beta Let_def)

definition in_bounds :: "mouse_state \<Rightarrow> bool" where
  "in_bounds m \<longleftrightarrow> ms_min_x m \<le> ms_x m \<and> ms_x m < ms_max_x m \<and> ms_min_y m \<le> ms_y m \<and> ms_y m < ms_max_y m"

definition visible_ok :: "mouse_state \<Rightarrow> bool" where
  "visible_ok m \<longleftrightarrow> \<not> ms_hidden m \<and> in_bounds m"

lemma clamp_in_bounds:
  "ms_min_x m < ms_max_x m \<Longrightarrow> ms_min_y m < ms_max_y m \<Longrightarrow> in_bounds (clamp_mouse m)"
  by (simp add: clamp_mouse_def in_bounds_def Let_def)

lemma clamp_visible: "visible_ok m \<Longrightarrow> visible_ok (clamp_mouse (m\<lparr>ms_x := x, ms_y := y\<rparr>))"
  using clamp_in_bounds [of "m\<lparr>ms_x := x, ms_y := y\<rparr>"] by (simp add: visible_ok_def in_bounds_def)

lemma parse_visible: "visible_ok m \<Longrightarrow> visible_ok (fst (snd (mouse_parse_packet m p ev)))"
  by (simp add: mouse_parse_packet_def Let_def clamp_visible) (simp add: visible_ok_def)

lemma init_visible: "visible_ok (g_mouse_global (snd (snd (mouse_init dev None d))))"
proof -
  have "visible_ok (fst (snd (mouse_detect_type dev m e))\<lparr>ms_present := True\<rparr>)" if "visible_ok m" for m e
  proof -
    obtain t where "fst (snd (mouse_detect_type dev m e)) = m\<lparr>ms_type := t\<rparr>" using detect_type(2) by blast
    with that show ?thesis by (simp add: visible_ok_def in_bounds_def)
  qed
  then show ?thesis
    by (simp add: mouse_init_def case_prod_beta Let_def mouse_of_def put_mouse_def) (simp add: visible_ok_def in_bounds_def)
qed

lemma read_visible:
  assumes "visible_ok (g_mouse_global d)"
  shows "visible_ok (g_mouse_global (snd (snd (snd (mouse_read dev None ev d)))))"
  using assms parse_visible [OF assms]
  by (simp add: mouse_read_def case_prod_beta Let_def mouse_of_def put_mouse_def)

inductive mouse_reach :: "device \<Rightarrow> mouse_driver \<Rightarrow> bool" for dev where
  do_init: "mouse_reach dev (snd (snd (mouse_init dev None d)))"
| do_read: "mouse_reach dev d \<Longrightarrow> mouse_reach dev (snd (snd (snd (mouse_read dev None ev d))))"
| do_position: "mouse_reach dev d \<Longrightarrow> mouse_reach dev (snd (mouse_set_position None x y d))"
| do_bounds: "mouse_reach dev d \<Longrightarrow> min_x < max_x \<Longrightarrow> min_y < max_y \<Longrightarrow>
    mouse_reach dev (snd (mouse_set_bounds None min_x max_x min_y max_y d))"
| do_handler: "mouse_reach dev d \<Longrightarrow> mouse_reach dev (snd (mouse_set_handler None h d))"
| do_show: "mouse_reach dev d \<Longrightarrow> mouse_reach dev (snd (mouse_show None d))"
| do_enable: "mouse_reach dev d \<Longrightarrow> mouse_reach dev (mouse_enable dev None d)"
| do_disable: "mouse_reach dev d \<Longrightarrow> mouse_reach dev (mouse_disable dev None d)"
| do_legacy: "mouse_reach dev d \<Longrightarrow> mouse_reach dev (ps2_mouse_handler dev b d)"

lemma position_visible:
  "visible_ok (g_mouse_global d) \<Longrightarrow> visible_ok (g_mouse_global (snd (mouse_set_position None x y d)))"
  by (simp add: mouse_set_position_def mouse_of_def put_mouse_def clamp_visible)

lemma legacy_visible:
  "visible_ok (g_mouse_global d) \<Longrightarrow> visible_ok (g_mouse_global (ps2_mouse_handler dev b d))"
  using position_visible [of "d\<lparr>legacy_mouse := g\<rparr>" for g]
  by (simp add: ps2_mouse_handler_def Let_def)

text \<open>The pointer stays inside its bounds. After \<open>mouse_init\<close>, whatever bytes the device delivers and
  whichever of the driver's operations are called (hiding the pointer apart, which suspends the bounds),
  the position is inside the rectangle set last, provided the rectangles are not empty.\<close>

theorem mouse_in_bounds:
  assumes "mouse_reach dev d"
  shows "in_bounds (g_mouse_global d)"
proof -
  have "visible_ok (g_mouse_global d)" using assms
  proof induction
    case (do_bounds d min_x max_x min_y max_y)
    then show ?case
      by (simp add: mouse_set_bounds_def mouse_of_def put_mouse_def visible_ok_def clamp_in_bounds)
  next
    case (do_handler d h)
    then show ?case by (simp add: mouse_set_handler_def mouse_of_def put_mouse_def visible_ok_def in_bounds_def)
  next
    case (do_show d)
    then show ?case by (simp add: mouse_show_def mouse_of_def put_mouse_def visible_ok_def in_bounds_def)
  qed (simp_all add: init_visible read_visible position_visible legacy_visible mouse_enable_def mouse_disable_def)
  then show ?thesis by (simp add: visible_ok_def)
qed

section \<open>The sign bit\<close>

lemma all_bytes: "(\<forall>n\<in>set [0..<256]. P (of_nat n)) \<Longrightarrow> P (b :: u8)"
proof -
  assume "\<forall>n\<in>set [0..<256]. P (of_nat n)"
  moreover have "unat b < 256" using unsigned_less [of b, where 'a = nat] by simp
  ultimately have "P (of_nat (unat b))" by (simp del: of_nat_unat)
  then show "P b" by simp
qed

text \<open>Motion to the left is misread. A packet whose X sign bit (0x10) is set and whose second byte is
  negative as a signed byte encodes a motion of that many columns to the left, and the legacy wrapper
  reads it so; the unified driver takes the sign bit for an overflow bit and reports 128 columns for
  every such packet, even for a motion by one.\<close>

theorem left_motion_saturates:
  assumes "p ! 0 AND 0x08 \<noteq> 0" "p ! 0 AND 0x10 \<noteq> 0" "sint (p ! 1) < 0"
  shows "ev_dx (snd (snd (mouse_parse_packet m p ev))) = - 128 \<and> legacy_delta (p ! 0 AND 0x10 \<noteq> 0) (p ! 1) = sint (p ! 1)"
proof -
  have "sint b < 0 \<longrightarrow> legacy_delta True b = sint b" for b
    by (rule all_bytes) code_simp
  then show ?thesis using assms by (simp add: mouse_parse_packet_def Let_def)
qed

section \<open>Instances\<close>

definition demo_mouse :: mouse_state where
  "demo_mouse = \<lparr>ms_x = 40, ms_y = 12, ms_buttons = 0, ms_present = True, ms_type = MOUSE_TYPE_PS2, ms_hidden = False,
     ms_min_x = 0, ms_max_x = 80, ms_min_y = 0, ms_max_y = 25, ms_handler = 0x1234\<rparr>"

definition no_event :: mouse_event where
  "no_event = \<lparr>ev_dx = 0, ev_dy = 0, ev_dz = 0, ev_buttons = 0, ev_valid = False\<rparr>"

definition demo_driver :: mouse_driver where
  "demo_driver = \<lparr>io_reads = 0, io_trace = [], serial_initialized = True, g_mouse_global = demo_mouse,
     g_ps2_shared_initialized = True, mouse_packet = [0, 0, 0, 0], byte_idx = 0,
     legacy_mouse = \<lparr>pm_initialized = False, pm_enabled = False, pm_x = 0, pm_y = 0, pm_z = 0, pm_left_button = False,
       pm_right_button = False, pm_middle_button = False, pm_packet = [0, 0, 0], pm_packet_index = 0, pm_on_move = 0,
       pm_on_button = 0\<rparr>, handler_calls = []\<rparr>"

definition demo_device :: device where
  "demo_device n t port = (if port = 0x64 then 1 else [0x00, 0x08, 0x05, 0x03] ! (n div 2))"

theorem left_motion_saturates_witness:
  "ev_dx (snd (snd (mouse_parse_packet demo_mouse [0x18, 0xFF, 0x00] no_event))) = - 128 \<and> legacy_delta True 0xFF = - 1"
  using left_motion_saturates [of "[0x18, 0xFF, 0x00]" demo_mouse no_event] by simp

theorem mouse_in_bounds_witness:
  "in_bounds (g_mouse_global (snd (mouse_set_position None 500 (- 3) (snd (snd (mouse_init demo_device None demo_driver))))))"
  by (rule mouse_in_bounds [of demo_device], rule do_position, rule do_init)

theorem mouse_delivers_packets_witness:
  "handler_calls ((poll demo_device no_event ^^ 4) demo_driver) = [Event_Handler 0x1234 (decode [0x08, 0x05, 0x03])]"
proof -
  have "receiving demo_driver" by (simp add: receiving_def demo_driver_def demo_mouse_def)
  moreover have "supplies demo_device 0 [0x00, 0x08, 0x05, 0x03]"
    by (simp add: supplies_Cons demo_device_def) (simp add: supplies_def)
  ultimately show ?thesis
    using mouse_delivers_packets [of demo_driver "[[0x08, 0x05, 0x03]]" "[0x00]" demo_device "0x1234" no_event]
    by (simp add: demo_driver_def demo_mouse_def packet_ok_def)
qed

end
