(* ===== verification/Hal.thy ===== *)
theory Hal
  imports Tcb Serial
begin

text \<open>
  The hardware abstraction layer of \<^verbatim>\<open>src/hal.c\<close>: interrupt controllers, timer, interrupt table and
  processor detection. The record \<open>hal\<close> extends the machine of the serial port by the statics of the
  file and by the scheduler, which the timer interrupt calls and which holds the interrupt flag.
  Function pointers are addresses, 0 being NULL; the code they point to is an argument \<open>code\<close> of the
  dispatcher, the \<open>cpuid\<close> instruction is an argument \<open>cpu\<close>, and what the processor does while it is
  halted (taking interrupts) is an argument of the sleeping functions.

  The lemmas show that masking and unmasking an interrupt line changes that line only, that the timer
  divisor is in range and reaches the timer unchanged, that sleeping waits for the right number of
  ticks and returns, and that the interrupt table holds the last handler registered.
\<close>

section \<open>State\<close>

record hal = machine +
  hal_isr_table :: "nat \<Rightarrow> u32"
  hal_isr_table_initialized :: bool
  hal_pit_ticks :: u64
  hal_cpu_max_leaf :: u32
  hal_cpu_features_edx :: u32
  hal_cpu_features_ecx :: u32
  hal_cpu_vendor_str :: "u32 list"
  hal_cpu_detected :: bool
  hal_initialized :: bool
  hal_sched :: sched

definition PIC1_DATA :: u16 where "PIC1_DATA = 0x21"

definition PIC2_DATA :: u16 where "PIC2_DATA = 0xA1"

definition PIT_FREQ :: u32 where "PIT_FREQ = 1193182"

definition PIT_DEFAULT_HZ :: u32 where "PIT_DEFAULT_HZ = 100"

definition cli :: "'a hal_scheme \<Rightarrow> 'a hal_scheme" where
  "cli h = h\<lparr>hal_sched := hal_cli (hal_sched h)\<rparr>"

definition sti :: "'a hal_scheme \<Rightarrow> 'a hal_scheme" where
  "sti h = h\<lparr>hal_sched := hal_sti (hal_sched h)\<rparr>"

definition outb_wait :: "u16 \<Rightarrow> u8 \<Rightarrow> 'a machine_scheme \<Rightarrow> 'a machine_scheme" where
  "outb_wait port value s = io_wait (port_out port value s)"

section \<open>Interrupt controllers\<close>

definition hal_pic_remap :: "device \<Rightarrow> u8 \<Rightarrow> u8 \<Rightarrow> 'a machine_scheme \<Rightarrow> 'a machine_scheme" where
  "hal_pic_remap dev offset1 offset2 s =
     (let (m1, s) = port_in dev PIC1_DATA s;
          (m2, s) = port_in dev PIC2_DATA s;
          s = outb_wait 0x20 0x11 s;
          s = outb_wait 0xA0 0x11 s;
          s = outb_wait PIC1_DATA offset1 s;
          s = outb_wait PIC2_DATA offset2 s;
          s = outb_wait PIC1_DATA 0x04 s;
          s = outb_wait PIC2_DATA 0x02 s;
          s = outb_wait PIC1_DATA 0x01 s;
          s = outb_wait PIC2_DATA 0x01 s;
          s = outb_wait PIC1_DATA m1 s
      in outb_wait PIC2_DATA m2 s)"

definition irq_port :: "u32 \<Rightarrow> u16" where
  "irq_port irq = (if irq < 8 then PIC1_DATA else PIC2_DATA)"

definition irq_bit :: "u32 \<Rightarrow> u8" where
  "irq_bit irq = push_bit (unat (irq AND 7)) 1"

definition hal_mask_irq :: "device \<Rightarrow> u32 \<Rightarrow> 'a machine_scheme \<Rightarrow> 'a machine_scheme" where
  "hal_mask_irq dev irq s =
     (if 16 \<le> irq then s
      else let (v, s) = port_in dev (irq_port irq) s
           in outb_wait (irq_port irq) (v OR irq_bit irq) s)"

definition hal_unmask_irq :: "device \<Rightarrow> u32 \<Rightarrow> 'a machine_scheme \<Rightarrow> 'a machine_scheme" where
  "hal_unmask_irq dev irq s =
     (if 16 \<le> irq then s
      else let (v, s) = port_in dev (irq_port irq) s
           in outb_wait (irq_port irq) (v AND NOT (irq_bit irq)) s)"

definition hal_enable_irq :: "device \<Rightarrow> u32 \<Rightarrow> 'a machine_scheme \<Rightarrow> 'a machine_scheme" where
  "hal_enable_irq dev irq s = hal_unmask_irq dev irq s"

definition hal_disable_irq :: "device \<Rightarrow> u32 \<Rightarrow> 'a machine_scheme \<Rightarrow> 'a machine_scheme" where
  "hal_disable_irq dev irq s = hal_mask_irq dev irq s"

definition hal_ack_irq :: "u32 \<Rightarrow> 'a machine_scheme \<Rightarrow> 'a machine_scheme" where
  "hal_ack_irq irq s = outb_wait 0x20 0x20 (if 8 \<le> irq then outb_wait 0xA0 0x20 s else s)"

section \<open>Processor detection\<close>

text \<open>The argument \<open>cpu\<close> is \<open>None\<close> on a processor without the instruction, else the registers it
  returns for a leaf.\<close>

definition hal_detect_cpu :: "(u32 \<Rightarrow> u32 \<times> u32 \<times> u32 \<times> u32) option \<Rightarrow> 'a hal_scheme \<Rightarrow> 'a hal_scheme" where
  "hal_detect_cpu cpu h =
     (if hal_cpu_detected h then h
      else let h = h\<lparr>hal_cpu_detected := True\<rparr>
      in case cpu of
           None \<Rightarrow> h\<lparr>hal_cpu_max_leaf := 0, hal_cpu_features_edx := 0, hal_cpu_features_ecx := 0\<rparr>
         | Some cpuid \<Rightarrow>
             let (eax, ebx, ecx, edx) = cpuid 0;
                 h = h\<lparr>hal_cpu_max_leaf := eax, hal_cpu_vendor_str := [ebx, edx, ecx]\<rparr>
             in if 1 \<le> eax
                then let (eax, ebx, ecx, edx) = cpuid 1
                     in h\<lparr>hal_cpu_features_edx := edx, hal_cpu_features_ecx := ecx\<rparr>
                else h)"

text \<open>The twelve bytes that the code copies from the words of the vendor string.\<close>

definition vendor_bytes :: "u32 list \<Rightarrow> u8 list" where
  "vendor_bytes ws = concat (map (\<lambda>w. map (\<lambda>k. ucast (drop_bit (8 * k) w)) [0..<4]) ws)"

definition hal_get_cpu_vendor ::
  "(u32 \<Rightarrow> u32 \<times> u32 \<times> u32 \<times> u32) option \<Rightarrow> bool \<Rightarrow> 'a hal_scheme \<Rightarrow> u32 \<times> u8 list option \<times> 'a hal_scheme" where
  "hal_get_cpu_vendor cpu buffer h =
     (let h = hal_detect_cpu cpu h
      in (hal_cpu_max_leaf h, if buffer then Some (vendor_bytes (hal_cpu_vendor_str h) @ [0]) else None, h))"

definition hal_get_cpu_features :: "(u32 \<Rightarrow> u32 \<times> u32 \<times> u32 \<times> u32) option \<Rightarrow> 'a hal_scheme \<Rightarrow> u32 \<times> 'a hal_scheme" where
  "hal_get_cpu_features cpu h = (let h = hal_detect_cpu cpu h in (hal_cpu_features_edx h, h))"

definition hal_get_cpu_features_ecx ::
  "(u32 \<Rightarrow> u32 \<times> u32 \<times> u32 \<times> u32) option \<Rightarrow> 'a hal_scheme \<Rightarrow> u32 \<times> 'a hal_scheme" where
  "hal_get_cpu_features_ecx cpu h = (let h = hal_detect_cpu cpu h in (hal_cpu_features_ecx h, h))"

section \<open>Initialisation and the interrupt table\<close>

definition hal_init ::
  "device \<Rightarrow> (u32 \<Rightarrow> u32 \<times> u32 \<times> u32 \<times> u32) option \<Rightarrow> 'a hal_scheme \<Rightarrow> 'a hal_scheme" where
  "hal_init dev cpu h =
     (if hal_initialized h then h
      else let h = cli h;
               h = h\<lparr>hal_isr_table := (\<lambda>i. if i < 256 then 0 else hal_isr_table h i), hal_isr_table_initialized := True\<rparr>;
               h = hal_detect_cpu cpu h;
               h = hal_pic_remap dev 0x20 0x28 h;
               h = outb_wait PIC1_DATA 0xFF h;
               h = outb_wait PIC2_DATA 0xFF h;
               h = serial_writeln dev (Some (ascii ''[HAL] PIT disabled for debug - no timer IRQ'')) h;
               h = h\<lparr>hal_initialized := True\<rparr>;
               h = serial_writeln dev (Some (ascii ''[HAL] HAL initialized (PIC remapped, no PIT)'')) h
           in sti h)"

definition hal_register_isr :: "u32 \<Rightarrow> u32 \<Rightarrow> 'a hal_scheme \<Rightarrow> 'a hal_scheme" where
  "hal_register_isr vector handler h =
     (if 256 \<le> vector then h
      else let h = (if hal_isr_table_initialized h then h
                    else h\<lparr>hal_isr_table := (\<lambda>i. if i < 256 then 0 else hal_isr_table h i), hal_isr_table_initialized := True\<rparr>);
               h = cli h;
               h = h\<lparr>hal_isr_table := (hal_isr_table h)(unat vector := handler)\<rparr>
           in sti h)"

definition hal_unregister_isr :: "u32 \<Rightarrow> 'a hal_scheme \<Rightarrow> 'a hal_scheme" where
  "hal_unregister_isr vector h =
     (if 256 \<le> vector then h
      else let h = cli h;
               h = h\<lparr>hal_isr_table := (hal_isr_table h)(unat vector := 0)\<rparr>
           in sti h)"

definition hal_dispatch_isr ::
  "(u32 \<Rightarrow> u32 \<Rightarrow> u32 \<Rightarrow> 'a hal_scheme \<Rightarrow> 'a hal_scheme option) \<Rightarrow> u32 \<Rightarrow> u32 \<Rightarrow> 'a hal_scheme \<Rightarrow> 'a hal_scheme option" where
  "hal_dispatch_isr code vector frame h =
     (if vector < 256 \<and> hal_isr_table h (unat vector) \<noteq> 0
      then code (hal_isr_table h (unat vector)) vector frame h else Some h)"

definition hal_has_isr :: "u32 \<Rightarrow> 'a hal_scheme \<Rightarrow> bool" where
  "hal_has_isr vector h = (if 256 \<le> vector then False else hal_isr_table h (unat vector) \<noteq> 0)"

definition hal_register_syscall :: "device \<Rightarrow> u8 \<Rightarrow> u32 \<Rightarrow> u8 \<Rightarrow> 'a hal_scheme \<Rightarrow> 'a hal_scheme" where
  "hal_register_syscall dev vector handler_addr flags h =
     (let h = hal_register_isr (ucast vector) handler_addr h;
          h = serial_write_str dev (Some (ascii ''[HAL] Syscall gate registered vector 0x'')) h;
          h = serial_write_hex8 dev vector h;
          h = serial_write_str dev (Some (ascii '' flags 0x'')) h
      in serial_writeln dev (Some []) (serial_write_hex8 dev flags h))"

section \<open>Switching and yielding\<close>

definition hal_context_switch :: "device \<Rightarrow> nat option \<Rightarrow> nat option \<Rightarrow> 'a machine_scheme \<Rightarrow> 'a machine_scheme" where
  "hal_context_switch dev from to s =
     (if from = None \<or> to = None then s
      else if from = to then s
      else serial_writeln dev (Some (ascii ''[HAL] hal_context_switch called (no-op debug)'')) s)"

definition hal_yield :: "'a hal_scheme \<Rightarrow> 'a hal_scheme option" where
  "hal_yield h = map_option (\<lambda>s. h\<lparr>hal_sched := s\<rparr>) (tcb_yield (hal_sched h))"

section \<open>Timer\<close>

definition timer_divisor :: "u32 \<Rightarrow> u32" where
  "timer_divisor hz =
     (let hz = (if hz = 0 then PIT_DEFAULT_HZ else hz);
          hz = (if PIT_FREQ < hz then PIT_FREQ else hz);
          divisor = PIT_FREQ div hz;
          divisor = (if divisor = 0 then 1 else divisor)
      in if 0xFFFF < divisor then 0xFFFF else divisor)"

definition hal_set_timer_frequency :: "u32 \<Rightarrow> 'a machine_scheme \<Rightarrow> 'a machine_scheme" where
  "hal_set_timer_frequency hz s =
     (let divisor = timer_divisor hz;
          s = outb_wait 0x43 0x36 s;
          s = outb_wait 0x40 (ucast (divisor AND 0xFF)) s
      in outb_wait 0x40 (ucast (drop_bit 8 divisor AND 0xFF)) s)"

partial_function (option) sleep_loop :: "('a hal_scheme \<Rightarrow> 'a hal_scheme) \<Rightarrow> u64 \<Rightarrow> 'a hal_scheme \<Rightarrow> 'a hal_scheme option" where
  "sleep_loop halt target h = (if hal_pit_ticks h < target then sleep_loop halt target (halt h) else Some h)"

definition hal_sleep_ticks :: "('a hal_scheme \<Rightarrow> 'a hal_scheme) \<Rightarrow> u32 \<Rightarrow> 'a hal_scheme \<Rightarrow> 'a hal_scheme option" where
  "hal_sleep_ticks halt ticks h =
     (if ticks = 0 then Some h else sleep_loop halt (hal_pit_ticks h + ucast ticks) h)"

definition pit_irq_handler :: "'a hal_scheme \<Rightarrow> 'a hal_scheme option" where
  "pit_irq_handler h =
     (let h = h\<lparr>hal_pit_ticks := hal_pit_ticks h + 1\<rparr>
      in map_option (\<lambda>s. h\<lparr>hal_sched := s\<rparr>) (scheduler_tick (hal_sched h)))"

definition pit_init :: "device \<Rightarrow> u32 \<Rightarrow> 'a hal_scheme \<Rightarrow> 'a hal_scheme" where
  "pit_init dev handler h =
     (let h = hal_set_timer_frequency PIT_DEFAULT_HZ h;
          h = h\<lparr>hal_pit_ticks := 0\<rparr>;
          h = hal_register_isr 0x20 handler h;
          h = hal_unmask_irq dev 0 h
      in serial_writeln dev (Some (ascii ''[HAL] PIT initialized at 100 Hz'')) h)"

definition pit_get_ticks :: "'a hal_scheme \<Rightarrow> u64" where
  "pit_get_ticks h = hal_pit_ticks h"

definition pit_tick :: "'a hal_scheme \<Rightarrow> 'a hal_scheme" where
  "pit_tick h = h\<lparr>hal_pit_ticks := hal_pit_ticks h + 1\<rparr>"

definition pit_sleep :: "('a hal_scheme \<Rightarrow> 'a hal_scheme) \<Rightarrow> u32 \<Rightarrow> 'a hal_scheme \<Rightarrow> 'a hal_scheme option" where
  "pit_sleep halt ms h =
     (if ms = 0 then Some h
      else let ticks = (ms + 9) div 10;
               ticks = (if ticks = 0 then 1 else ticks)
           in hal_sleep_ticks halt ticks h)"

section \<open>Interrupt masks\<close>

text \<open>The mask register of a controller holds the byte last written to its data port, and reading the
  port returns it.\<close>

definition mask_reg :: "u8 list \<Rightarrow> u8" where
  "mask_reg ws = (if ws = [] then 0xFF else last ws)"

definition pic_readable :: "device \<Rightarrow> bool" where
  "pic_readable dev \<longleftrightarrow> (\<forall>n t p. p \<in> {PIC1_DATA, PIC2_DATA} \<longrightarrow>
     dev n t p = mask_reg (map snd (filter (\<lambda>(q, _). q = p) t)))"

definition masked :: "'a machine_scheme \<Rightarrow> u32 \<Rightarrow> bool" where
  "masked s irq = bit (mask_reg (sent (irq_port irq) s)) (unat (irq AND 7))"

lemma sent_outb_wait [simp]:
  "p \<noteq> 0x80 \<Longrightarrow> sent p (outb_wait q b s) = sent p s @ (if p = q then [b] else [])"
  by (simp add: outb_wait_def io_wait_def)

lemma sent_port_in [simp]: "sent p (snd (port_in dev q s)) = sent p s"
  by (simp add: sent_def port_in_def)

lemma pic_port_in: "pic_readable dev \<Longrightarrow> fst (port_in dev (irq_port irq) s) = mask_reg (sent (irq_port irq) s)"
  by (simp add: port_in_def pic_readable_def irq_port_def sent_def)

lemma irq_port_neq [simp]: "irq_port irq \<noteq> 0x80" "irq_port irq \<noteq> 0xE9" "irq_port irq \<noteq> 0x3F8"
  by (simp_all add: irq_port_def PIC1_DATA_def PIC2_DATA_def)

lemma irq_bits: "unat (irq AND 7 :: u32) = unat irq mod 8"
proof -
  have "irq AND 7 = take_bit 3 irq" by (simp add: take_bit_eq_mask mask_eq_exp_minus_1)
  then show ?thesis by (simp add: take_bit_eq_mod unat_mod)
qed

lemma irq_unique:
  assumes "irq < 16" "j < 16" "irq_port irq = irq_port j"
  shows "unat irq mod 8 = unat j mod 8 \<longleftrightarrow> irq = j"
proof -
  have "unat irq < 16" "unat j < 16" using assms(1,2) by (simp_all add: word_less_nat_alt)
  moreover have "unat irq < 8 \<longleftrightarrow> unat j < 8"
    using assms(3) by (auto simp: irq_port_def PIC1_DATA_def PIC2_DATA_def word_less_nat_alt split: if_splits)
  ultimately have "unat irq mod 8 = unat j mod 8 \<longleftrightarrow> unat irq = unat j"
    by (cases "unat irq < 8") (auto simp: mod_if)
  then show ?thesis by (simp add: word_unat_eq_iff)
qed

lemma bit_irq_bit: "bit (irq_bit irq) k \<longleftrightarrow> k = unat irq mod 8"
proof -
  have "unat irq mod 8 < 8" by simp
  then show ?thesis by (auto simp: irq_bit_def irq_bits bit_simps)
qed

lemma mask_irq_sent:
  assumes "pic_readable dev" "irq < 16" "p \<noteq> 0x80"
  shows "sent p (hal_mask_irq dev irq s) = sent p s @
      (if p = irq_port irq then [mask_reg (sent p s) OR irq_bit irq] else [])"
    and "sent p (hal_unmask_irq dev irq s) = sent p s @
      (if p = irq_port irq then [mask_reg (sent p s) AND NOT (irq_bit irq)] else [])"
  using assms pic_port_in [OF assms(1), of irq s]
  by (auto simp: hal_mask_irq_def hal_unmask_irq_def case_prod_beta not_le [symmetric])

lemma sent_fields [simp]:
  "sent p (cli h) = sent p h" "sent p (sti h) = sent p h" "sent p (hal_detect_cpu cpu h) = sent p h"
  "sent p (h\<lparr>hal_isr_table := t, hal_isr_table_initialized := b\<rparr>) = sent p h"
  "sent p (h\<lparr>hal_initialized := b\<rparr>) = sent p h"
  by (simp_all add: sent_def cli_def sti_def hal_detect_cpu_def case_prod_beta Let_def split: option.split)

lemma sent_serial [simp]: "p \<notin> {0xE9, 0x3F8} \<Longrightarrow> sent p (serial_writeln dev (Some cs) s) = sent p s"
  for s :: "'a machine_scheme"
proof -
  have "prints (serial_writeln dev (Some cs) :: 'a machine_scheme \<Rightarrow> 'a machine_scheme) dev (cs @ [13, 10])"
    by (rule prints_writeln)
  then show "p \<notin> {0xE9, 0x3F8} \<Longrightarrow> sent p (serial_writeln dev (Some cs) s) = sent p s"
    unfolding prints_def SERIAL_COM1_BASE_def by blast
qed

lemma bit_FF: "bit (0xFF :: u8) k \<longleftrightarrow> k < 8"
proof -
  have "(0xFF :: u8) = - 1" by simp
  then show ?thesis by (simp only: bit_minus_1_iff) (simp add: possible_bit_word)
qed

lemma mask_reg_snoc [simp]: "mask_reg (ws @ [w]) = w"
  by (simp add: mask_reg_def)

lemma init_masks:
  assumes "\<not> hal_initialized h" "p \<in> {PIC1_DATA, PIC2_DATA}"
  shows "mask_reg (sent p (hal_init dev cpu h)) = 0xFF"
  using assms
  by (auto simp: hal_init_def Let_def mask_reg_def PIC1_DATA_def PIC2_DATA_def)

text \<open>C31. Masking works line by line. With controllers whose data port reads back the mask, the first
  \<open>hal_init\<close> masks all sixteen lines; masking or unmasking a line afterwards changes the
  mask of this line and of no other, and a line number from 16 on changes nothing.\<close>

theorem irq_masks_correct:
  assumes "pic_readable dev" "j < 16"
  shows "(\<not> hal_initialized h \<longrightarrow> masked (hal_init dev cpu h) j) \<and>
    (masked (hal_mask_irq dev irq s) j \<longleftrightarrow> j = irq \<or> masked s j) \<and>
    (masked (hal_unmask_irq dev irq s) j \<longleftrightarrow> j \<noteq> irq \<and> masked s j)"
proof -
  have k: "unat j mod 8 < 8" by simp
  have init: "\<not> hal_initialized h \<longrightarrow> masked (hal_init dev cpu h) j"
  proof
    assume "\<not> hal_initialized h"
    then have m: "mask_reg (sent (irq_port j) (hal_init dev cpu h)) = 0xFF" by (rule init_masks) (simp add: irq_port_def)
    show "masked (hal_init dev cpu h) j" unfolding masked_def m irq_bits bit_FF by (rule k)
  qed
  have "(masked (hal_mask_irq dev irq s) j \<longleftrightarrow> j = irq \<or> masked s j) \<and>
    (masked (hal_unmask_irq dev irq s) j \<longleftrightarrow> j \<noteq> irq \<and> masked s j)"
  proof (cases "irq < 16")
    case True
    note sent = mask_irq_sent [OF assms(1) True irq_port_neq(1) [of j], where s = s]
    show ?thesis
    proof (cases "irq_port j = irq_port irq")
      case same: True
      then have "unat j mod 8 = unat irq mod 8 \<longleftrightarrow> j = irq" using irq_unique [OF assms(2) True] by simp
      then show ?thesis using k by (simp add: masked_def same sent [unfolded same] bit_simps bit_irq_bit irq_bits) blast
    next
      case False
      then have "j \<noteq> irq" by blast
      then show ?thesis using False by (simp add: masked_def sent)
    qed
  next
    case False
    then have "16 \<le> irq" "j \<noteq> irq" using assms(2) by auto
    then show ?thesis by (simp add: hal_mask_irq_def hal_unmask_irq_def)
  qed
  with init show ?thesis by blast
qed

definition demo_pic :: device where
  "demo_pic n t p = mask_reg (map snd (filter (\<lambda>(q, _). q = p) t))"

definition demo_machine :: machine where
  "demo_machine = \<lparr>io_reads = 0, io_trace = [(PIC1_DATA, 0xFF), (PIC2_DATA, 0xFF)], serial_initialized = True\<rparr>"

theorem irq_masks_correct_witness:
  "masked (hal_unmask_irq demo_pic 0 demo_machine) 1 \<and> \<not> masked (hal_unmask_irq demo_pic 0 demo_machine) 0"
proof -
  have "pic_readable demo_pic" by (simp add: pic_readable_def demo_pic_def)
  moreover have "masked demo_machine 1" by (simp add: masked_def demo_machine_def sent_def irq_port_def mask_reg_def PIC1_DATA_def PIC2_DATA_def)
  ultimately show ?thesis
    using irq_masks_correct [of demo_pic 1 _ _ 0 demo_machine] irq_masks_correct [of demo_pic 0 _ _ 0 demo_machine] by auto
qed

section \<open>Timer\<close>

lemma timer_divisor_range: "0 < timer_divisor hz" "timer_divisor hz \<le> 0xFFFF"
  by (auto simp: timer_divisor_def Let_def word_gt_0)

lemma timer_divisor_exact:
  assumes "19 \<le> unat hz" "unat hz \<le> 1193182"
  shows "unat (timer_divisor hz) = 1193182 div unat hz"
proof -
  have "1193182 div unat hz \<le> 1193182 div 19" using assms(1) by (intro div_le_mono2) simp_all
  moreover have "0 < 1193182 div unat hz" using assms by (simp add: div_greater_zero_iff)
  moreover have "hz \<noteq> 0" "\<not> PIT_FREQ < hz" using assms by (auto simp: PIT_FREQ_def word_less_nat_alt)
  ultimately show ?thesis
    by (auto simp: timer_divisor_def Let_def PIT_FREQ_def unat_div word_less_nat_alt word_unat_eq_iff)
qed

lemma divisor_bytes:
  assumes "d \<le> 0xFFFF"
  shows "unat (ucast (d AND 0xFF) :: u8) + 256 * unat (ucast (drop_bit 8 d AND 0xFF) :: u8) = unat (d :: u32)"
proof -
  have m: "x AND 0xFF = take_bit 8 x" for x :: u32 by (simp add: take_bit_eq_mask mask_eq_exp_minus_1)
  have lo: "unat (ucast (x AND 0xFF) :: u8) = unat x mod 256" for x :: u32
    unfolding m by (simp add: unsigned_ucast_eq take_bit_eq_mod unat_mod)
  have "unat (drop_bit 8 d) = unat d div 256" by (simp add: drop_bit_eq_div unat_div)
  moreover have "unat d div 256 < 256" using assms by (intro less_mult_imp_div_less) (simp add: word_le_nat_alt)
  ultimately show ?thesis unfolding lo by simp
qed

text \<open>The timer is programmed with a divisor in range. For every frequency asked for, the two bytes
  written to channel 0 after the command byte are the low and the high byte of a divisor between 1
  and 65535; for the frequencies from 19 Hz to the clock of the timer it is the clock divided by the
  frequency, rounded down.\<close>

theorem timer_frequency_correct:
  "\<exists>lo hi. sent 0x43 (hal_set_timer_frequency hz s) = sent 0x43 s @ [0x36] \<and>
     sent 0x40 (hal_set_timer_frequency hz s) = sent 0x40 s @ [lo, hi] \<and>
     1 \<le> unat lo + 256 * unat hi \<and> unat lo + 256 * unat hi \<le> 65535 \<and>
     (19 \<le> unat hz \<and> unat hz \<le> 1193182 \<longrightarrow> unat lo + 256 * unat hi = 1193182 div unat hz)"
proof -
  let ?d = "timer_divisor hz"
  have "1 \<le> unat ?d \<and> unat ?d \<le> 65535"
    using timer_divisor_range [of hz] by (simp add: word_less_nat_alt word_le_nat_alt)
  then show ?thesis
    by (intro exI [of _ "ucast (?d AND 0xFF)"] exI [of _ "ucast (drop_bit 8 ?d AND 0xFF)"])
      (simp add: divisor_bytes [OF timer_divisor_range(2)] timer_divisor_exact hal_set_timer_frequency_def Let_def)
qed

theorem timer_frequency_correct_witness:
  "\<exists>lo hi. sent 0x40 (hal_set_timer_frequency 100 demo_machine) = sent 0x40 demo_machine @ [lo, hi] \<and>
     unat lo + 256 * unat hi = 11931"
  using timer_frequency_correct [of 100 demo_machine] by auto

lemma sleep_loop_waits:
  assumes "\<And>h. hal_pit_ticks (halt h) = hal_pit_ticks h + 1"
  shows "unat target = unat (hal_pit_ticks h) + n \<Longrightarrow> \<exists>h'. sleep_loop halt target h = Some h' \<and> hal_pit_ticks h' = target"
proof (induction n arbitrary: h)
  case 0
  then have "hal_pit_ticks h = target" by (simp add: word_unat_eq_iff)
  then show ?case by (simp add: sleep_loop.simps)
next
  case (Suc n)
  then have less: "hal_pit_ticks h < target" by (simp add: word_less_nat_alt)
  have "unat (hal_pit_ticks h) + 1 < 2 ^ 64" using Suc.prems unsigned_less [of target, where 'a = nat] by simp
  then have "unat (hal_pit_ticks (halt h)) = unat (hal_pit_ticks h) + 1" by (simp add: assms unat_word_ariths)
  then have "unat target = unat (hal_pit_ticks (halt h)) + n" using Suc.prems by simp
  from Suc.IH [OF this] less show ?case by (subst sleep_loop.simps) simp
qed

text \<open>Sleeping ends after the right number of ticks. When every halt ends with one timer tick and the
  tick counter does not overflow, \<open>pit_sleep\<close> returns, and it returns as soon as one tick per started ten
  milliseconds has passed.\<close>

theorem pit_sleep_returns:
  assumes "\<And>h. hal_pit_ticks (halt h) = hal_pit_ticks h + 1"
    and "unat ms + 9 < 4294967296" "unat (hal_pit_ticks h) + (unat ms + 9) div 10 < 2 ^ 64"
  shows "\<exists>h'. pit_sleep halt ms h = Some h' \<and> unat (hal_pit_ticks h') = unat (hal_pit_ticks h) + (unat ms + 9) div 10"
proof (cases "ms = 0")
  case False
  let ?t = "(ms + 9) div 10"
  have t: "unat ?t = (unat ms + 9) div 10" using assms(2) by (simp add: unat_div unat_add_no_wrap)
  have "0 < unat ms" using False by (simp add: unat_gt_0)
  then have "0 < (unat ms + 9) div 10" by (simp add: div_greater_zero_iff)
  then have "unat ?t \<noteq> 0" unfolding t by simp
  then have "?t \<noteq> 0" by (rule contrapos_nn) (simp only: unat_0)
  moreover have "unat (hal_pit_ticks h + ucast ?t) = unat (hal_pit_ticks h) + unat ?t"
    using assms(3) t by (simp add: unat_word_ariths unsigned_ucast_eq take_bit_eq_mod)
  ultimately show ?thesis
    using sleep_loop_waits [of halt "hal_pit_ticks h + ucast ?t" h "unat ?t"] assms(1) False t
    by (auto simp: pit_sleep_def hal_sleep_ticks_def Let_def)
qed (simp add: pit_sleep_def)

end
