(* ===== verification/Spec2Isabelle.thy ===== *)
theory Spec2Isabelle
  imports Pmap Ipc Vfs_Faults Editor Tcp Mouse Hal
begin

text \<open>
  Verification of the Tinx kernel, a 32-bit x86 kernel in C whose sources are the files of
  \<^verbatim>\<open>src/src\<close>.

  \<^bold>\<open>The program.\<close> \<^verbatim>\<open>boot.asm\<close> enters \<^verbatim>\<open>kernel.c\<close>, which brings up the parts in order and starts a shell. Below
  the shell lie a text editor and a console, a virtual file system with one backend on a RAM disk, message
  passing between tasks, a scheduler, a memory manager, a table of TCP sockets and drivers for the serial port,
  the mouse and the interrupt controllers. The parts call each other directly: tasks take their stacks from
  the kernel heap, map entries are heap nodes, messages block and wake tasks, the timer
  interrupt calls the scheduler, the virtual file system calls its backend, and the editor loads and saves through it.

  \<^bold>\<open>Conventions.\<close> The model is a shallow embedding. Machine integers are words of their width, so arithmetic wraps as
  in C. Memory is one function from 32-bit addresses to bytes. A static variable is a field of the record of its file; a
  function of the code takes the records it uses and returns them updated. A pointer into a static array is an optional
  index, NULL being \<open>None\<close>; other pointers are addresses, NULL being 0. A loop whose end is not
  evident is a \<^theory_text>\<open>partial_function (option)\<close>, so that running forever is \<open>None\<close>; wherever a theorem says that such a
  function returns, it says so with \<open>Some\<close>. No function is given fuel, apart from loops that the source itself
  bounds by a counter. Hardware is an argument: the byte that a port delivers, the scan codes, the effect of a halt.

  \<^bold>\<open>The theories.\<close>
  \<^item> \<open>Tinx_Prelude\<close>: the machine types, flat memory with its 32-bit accesses, and lemmas on words and lists that the
    components share.
  \<^item> \<open>Lib_String\<close> (\<^verbatim>\<open>lib_string.c\<close>): copying, filling, comparing, searching and reading numbers. The routines that work
    on whole words agree with their byte-wise meaning, and the scans return on C strings.
  \<^item> \<open>Kheap\<close> (\<^verbatim>\<open>xnu_memory.c\<close>, heap): headers in memory refine a list of blocks; \<open>kmalloc\<close> is first
    fit, \<open>kfree\<close> releases and merges, buffers never overlap, and no sequence of requests,
    releases and stores corrupts the heap. The locale \<open>allocator\<close> is the contract that clients use.
  \<^item> \<open>Vm_Map\<close> and \<open>Pmap\<close> (\<^verbatim>\<open>xnu_memory.c\<close>, maps and pages): entering, removing and protecting change the given
    addresses only and leak no node; a frame has one holder at a time.
  \<^item> \<open>Tcb\<close> (\<^verbatim>\<open>tcb.c\<close>): the run queue stays a well-formed list with one running task under the operations of the file,
    yielding is a fair round robin, and sleepers wake at their tick. The statements exclude what the code does outside them: the idle
    task does not end, and the state of the current task is not overwritten, as \<^verbatim>\<open>ipc.c\<close> and \<^verbatim>\<open>syscall.c\<close> do without scheduling.
  \<^item> \<open>Ipc\<close> (\<^verbatim>\<open>ipc.c\<close>): the circular queues implement lists (locale \<open>bounded_queue\<close>), sending appends to the inbox of
    the receiver, receiving takes the oldest match, and the messages of a sender keep their order among all other traffic, as long as the
    receiver shares its mailbox with no other task.
  \<^item> \<open>Unnamedfs\<close> and \<open>Ufs_Files\<close> (\<^verbatim>\<open>unnamedfs.c\<close>): the file system on its packed layout, and what reads, writes
    and path lookups do. The invariant \<open>fs_ok\<close> of the read and write theorems keeps the inode table clear of the data blocks.
    The code does not ensure it for more than three inodes, and the five inodes after \<open>vfs_init\<close> violate it;
    \<open>create_clears_data\<close> shows the damage.
  \<^item> \<open>Vfs\<close> and \<open>Vfs_Faults\<close> (\<^verbatim>\<open>vfs.c\<close>): all pointers the layer holds stay valid, the dentry cache (locale \<open>path_cache\<close>) is
    a forgetful map whose hits are never stale, and an unlink destroys the root vnode.
  \<^item> \<open>Console\<close> (\<^verbatim>\<open>io.c\<close>): output never leaves the screen, and the fast path of \<open>io_print\<close> agrees with the slow one.
  \<^item> \<open>Editor\<close> (\<^verbatim>\<open>editor.c\<close>): the line table refines a string with a cursor, stays well formed for every file and every
    sequence of keys, and is recovered from what is saved; the keys that save and quit cannot be typed.
  \<^item> \<open>Tcp\<close> (\<^verbatim>\<open>tcp.c\<close>): the checksum detects every change of one byte, the address parser accepts exactly the
    dotted quads; packets are misread for lack of byte-order conversion, and passive connections are never established.
  \<^item> \<open>Serial\<close> (\<^verbatim>\<open>serial.c\<close>, ports of \<^verbatim>\<open>io.h\<close>): what is printed reaches the ports once and in order.
  \<^item> \<open>Mouse\<close> (\<^verbatim>\<open>mouse.c\<close>, \<^verbatim>\<open>vbox_mouse.c\<close>): packets are delivered in order and the pointer stays in bounds; motion to
    the left is misread.
  \<^item> \<open>Hal\<close> (\<^verbatim>\<open>hal.c\<close>): interrupt masks, the interrupt table, the timer divisor and sleeping.

  The numbered statements are the main properties. Each stands in the theory of its component, followed by, or
  collected in a later section with, an instance at a concrete input where it has hypotheses.

  \<^bold>\<open>Simplifications.\<close> Messages to the serial port are left out of the components other than \<open>Serial\<close>. Spin locks and
  the disabling of interrupts matter only where a lock is already taken. The entries of a memory map are a list with node addresses;
  their fields are not written to the heap memory. Strings in local arrays are lists, so the
  overflow of the path buffer in \<open>unnamedfs_vop_unlink\<close> (\<open>join_path\<close>), and of the one byte behind the line table when a
  file has 256 newlines, do not show; file offsets in \<open>vfs_lseek\<close> and mouse positions are unbounded integers. The
  context switch of the kernel is disabled in the source, so scheduling ends after its bookkeeping.

  \<^bold>\<open>Not modelled.\<close> \<^verbatim>\<open>boot.asm\<close> (assembly), \<^verbatim>\<open>gdt.c\<close> (constant descriptors), \<^verbatim>\<open>kernel.c\<close> (start-up, interrupt
  descriptors and dispatch), \<^verbatim>\<open>shell.c\<close> (commands that print and call the other parts), \<^verbatim>\<open>syscall.c\<close> (dispatch from the interrupt frame to the modelled interfaces), \<^verbatim>\<open>install.c\<close>,
  \<^verbatim>\<open>installer_tui.c\<close>, \<^verbatim>\<open>ahci.c\<close> and \<^verbatim>\<open>vbox_vga.c\<close> (device registers and screens), and \<^verbatim>\<open>browser.c\<close> (built-in pages, a
  tag stripper and a history, on top of the console).
\<close>

end
